(* ===== verification/Prelude.thy ===== *)
theory Prelude
  imports Main "HOL-Library.Word" "HOL-Library.Signed_Division"
begin

unbundle bit_operations_syntax

section \<open>Types, faults and standard-library functions shared by all components\<close>

text \<open>
  What every component uses: the machine types, the ways a C++ process can go wrong as
  values, C strings, the decimal conversions \<open>std::to_string\<close> and \<open>atoi\<close>, and
  \<open>std::map\<close> as an ascending association list (its iteration order).

  A byte is Isabelle's 8-bit \<open>char\<close>, so a byte buffer and a \<open>std::string\<close> are both a
  \<open>string\<close>.
\<close>

type_synonym i32 = "32 word"
type_synonym u32 = "32 word"
type_synonym i64 = "64 word"

abbreviation NUL :: char where
  "NUL \<equiv> CHR 0x00"

lemma char_of_zero [simp]: "char_of (0 :: nat) = NUL"
  by (simp add: char_of_def)

text \<open>What stops a C++ function other than a normal return: undefined behaviour that the
  source runs into, an exception it does not catch, or a call of \<open>exit\<close>.\<close>

datatype fault =
    Null_Deref
  | Out_Of_Range
  | Div_By_Zero
  | Signed_Overflow
  | Length_Error
  | Assert_Failed
  | Exit int

type_synonym 'a res = "fault + 'a"

lemma map_res_iff:
  "map_sum id f r = Inr y \<longleftrightarrow> (\<exists>x. r = Inr x \<and> y = f x)"
  "map_sum id f r = Inl x \<longleftrightarrow> r = Inl x"
  by (cases r; auto)+

definition bind_res :: "'a res \<Rightarrow> ('a \<Rightarrow> 'b res) \<Rightarrow> 'b res" where
  "bind_res r f = (case r of Inl e \<Rightarrow> Inl e | Inr x \<Rightarrow> f x)"

lemma bind_res_simps [simp]: "bind_res (Inl e) f = Inl e" "bind_res (Inr x) f = f x"
  by (simp_all add: bind_res_def)

lemma bind_res_cong [fundef_cong]:
  "m = m' \<Longrightarrow> (\<And>x. m' = Inr x \<Longrightarrow> f x = f' x) \<Longrightarrow> bind_res m f = bind_res m' f'"
  by (auto simp: bind_res_def split: sum.split)

lemma bind_res_Inr: "bind_res m f = Inr y \<longleftrightarrow> (\<exists>x. m = Inr x \<and> f x = Inr y)"
  by (auto simp: bind_res_def split: sum.split)

text \<open>A step of a process may also block for ever, which is \<open>None\<close>.\<close>

definition bind_run :: "'a res option \<Rightarrow> ('a \<Rightarrow> 'b res option) \<Rightarrow> 'b res option" where
  "bind_run m f = (case m of None \<Rightarrow> None | Some (Inl e) \<Rightarrow> Some (Inl e) | Some (Inr x) \<Rightarrow> f x)"

lemma bind_run_simps [simp]:
  "bind_run None f = None" "bind_run (Some (Inl e)) f = Some (Inl e)" "bind_run (Some (Inr x)) f = f x"
  by (simp_all add: bind_run_def)

lemma bind_run_Inr [simp]:
  "bind_run m f = Some (Inr y) \<longleftrightarrow> (\<exists>x. m = Some (Inr x) \<and> f x = Some (Inr y))"
  by (auto simp: bind_run_def split: option.split sum.split)

lemma bind_run_cong [fundef_cong]:
  "m = m' \<Longrightarrow> (\<And>x. m' = Some (Inr x) \<Longrightarrow> f x = f' x) \<Longrightarrow> bind_run m f = bind_run m' f'"
  by (auto simp: bind_run_def split: option.split sum.split)

named_theorems bytes_simps \<open>facts about byte buffers and their framing\<close>
named_theorems step_defs \<open>definitions of the steps of a process\<close>

lemma sint_small: "0 \<le> j \<Longrightarrow> j < 2 ^ 31 \<Longrightarrow> sint (word_of_int j :: i32) = j"
  using signed_take_bit_int_eq_self [of 31 j] by (simp add: sint_sbintrunc')

subsection \<open>C strings\<close>

text \<open>\<open>std::string(const char*)\<close> stops at the first NUL of the buffer.\<close>

definition c_str :: "string \<Rightarrow> string" where
  "c_str s = takeWhile (\<lambda>c. c \<noteq> NUL) s"

lemma c_str_id [simp]: "NUL \<notin> set s \<Longrightarrow> c_str s = s"
  by (induction s) (auto simp: c_str_def)

lemma c_str_terminated [simp]: "c_str (s @ [NUL]) = c_str s"
  unfolding c_str_def by (induction s) auto

lemma c_str_stop: "NUL \<notin> set s \<Longrightarrow> c_str (s @ NUL # t) = s"
  by (induction s) (auto simp: c_str_def)

lemma c_str_no_nul [simp]: "NUL \<notin> set (c_str s)"
  by (auto simp: c_str_def dest: set_takeWhileD)

lemma c_str_idem [simp]: "c_str (c_str s) = c_str s"
  by simp

lemma c_str_Nil [simp]: "c_str [] = []"
  by (simp add: c_str_def)

subsection \<open>Decimal conversions\<close>

definition digit :: "nat \<Rightarrow> char" where
  "digit d = char_of (48 + d)"

definition is_digit :: "char \<Rightarrow> bool" where
  "is_digit c \<longleftrightarrow> 48 \<le> (of_char c :: nat) \<and> (of_char c :: nat) \<le> 57"

definition digit_val :: "char \<Rightarrow> nat" where
  "digit_val c = of_char c - 48"

fun nat_str :: "nat \<Rightarrow> string" where
  "nat_str n = (if n < 10 then [digit n] else nat_str (n div 10) @ [digit (n mod 10)])"

declare nat_str.simps [simp del]

text \<open>\<open>std::to_string(int)\<close>.\<close>

definition to_string :: "int \<Rightarrow> string" where
  "to_string i = (if i < 0 then CHR ''-'' # nat_str (nat (- i)) else nat_str (nat i))"

definition digits_val :: "nat \<Rightarrow> string \<Rightarrow> nat" where
  "digits_val acc ds = foldl (\<lambda>a c. 10 * a + digit_val c) acc ds"

definition is_space :: "char \<Rightarrow> bool" where
  "is_space c \<longleftrightarrow> c = CHR '' '' \<or> (9 \<le> (of_char c :: nat) \<and> (of_char c :: nat) \<le> 13)"

text \<open>\<open>atoi\<close>: white space, an optional sign, then the longest run of digits.\<close>

fun atoi :: "string \<Rightarrow> int" where
  "atoi s = (case dropWhile is_space s of
      [] \<Rightarrow> 0
    | c # cs \<Rightarrow>
        (if c = CHR ''-'' then - int (digits_val 0 (takeWhile is_digit cs))
         else if c = CHR ''+'' then int (digits_val 0 (takeWhile is_digit cs))
         else int (digits_val 0 (takeWhile is_digit (c # cs)))))"

declare atoi.simps [simp del]

lemma digit_props:
  assumes "d < 10"
  shows "is_digit (digit d)" "digit_val (digit d) = d" "\<not> is_space (digit d)"
    "digit d \<noteq> CHR ''-''" "digit d \<noteq> CHR ''+''" "digit d \<noteq> NUL"
proof -
  have oc: "(of_char (digit d) :: nat) = 48 + d"
    using assms by (simp add: digit_def)
  show "is_digit (digit d)" "digit_val (digit d) = d"
    using oc assms by (simp_all add: is_digit_def digit_val_def)
  show "\<not> is_space (digit d)"
    using oc assms by (auto simp: is_space_def)
  show "digit d \<noteq> CHR ''-''" "digit d \<noteq> CHR ''+''" "digit d \<noteq> NUL"
    using oc by auto
qed

lemma nat_str_digits: "list_all is_digit (nat_str n)"
  by (induction n rule: nat_str.induct)
     (subst nat_str.simps, auto simp: digit_props list_all_iff)

lemma nat_str_nonempty [simp]: "nat_str n \<noteq> []"
  by (subst nat_str.simps) simp

lemma digits_val_append: "digits_val a (xs @ ys) = digits_val (digits_val a xs) ys"
  by (simp add: digits_val_def)

lemma digits_val_nat_str: "digits_val 0 (nat_str n) = n"
proof (induction n rule: nat_str.induct)
  case (1 n)
  show ?case
  proof (cases "n < 10")
    case True
    then show ?thesis by (subst nat_str.simps) (simp add: digits_val_def digit_props)
  next
    case False
    then have "digits_val 0 (nat_str n) = 10 * digits_val 0 (nat_str (n div 10)) + n mod 10"
      by (subst nat_str.simps) (simp add: digits_val_append digits_val_def digit_props)
    with 1 False show ?thesis by simp
  qed
qed

lemma is_digitD:
  "is_digit c \<Longrightarrow> \<not> is_space c \<and> c \<noteq> CHR ''-'' \<and> c \<noteq> CHR ''+'' \<and> c \<noteq> NUL"
  by (auto simp: is_digit_def is_space_def)

lemma atoi_digits:
  assumes "list_all is_digit ds" "ds \<noteq> []"
  shows "atoi ds = int (digits_val 0 ds)"
proof -
  obtain c cs where ds: "ds = c # cs" using assms(2) by (cases ds) auto
  have c: "is_digit c" using assms(1) ds by simp
  have "takeWhile is_digit ds = ds"
    using assms(1) by (simp add: list_all_iff takeWhile_eq_all_conv)
  with ds is_digitD [OF c] show ?thesis by (simp add: atoi.simps)
qed

lemma atoi_nat_str: "atoi (nat_str n) = int n"
  by (simp add: atoi_digits nat_str_digits digits_val_nat_str)

lemma atoi_to_string: "atoi (to_string i) = i"
proof (cases "i < 0")
  case True
  have tw: "takeWhile is_digit (nat_str m) = nat_str m" for m
    using nat_str_digits [of m] by (simp only: list_all_iff takeWhile_eq_all_conv)
  from True show ?thesis
    by (simp add: to_string_def atoi.simps is_space_def tw digits_val_nat_str)
next
  case False
  then show ?thesis by (simp add: to_string_def atoi_nat_str)
qed

lemma to_string_inj [simp]: "to_string i = to_string j \<longleftrightarrow> i = j"
  by (metis atoi_to_string)

lemma nul_notin_nat_str [simp]: "NUL \<notin> set (nat_str n)"
  using nat_str_digits [of n] by (auto simp: list_all_iff dest: is_digitD)

lemma nul_notin_to_string [simp]: "NUL \<notin> set (to_string i)"
  by (auto simp: to_string_def)

lemma digits_val_zeros: "digits_val 0 (replicate k (CHR ''0'') @ ds) = digits_val 0 ds"
  by (induction k) (auto simp: digits_val_def digit_val_def)

lemma length_nat_str_le: "n < 10 ^ Suc k \<Longrightarrow> length (nat_str n) \<le> Suc k"
proof (induction k arbitrary: n)
  case 0
  then show ?case by (subst nat_str.simps) simp
next
  case (Suc k)
  show ?case
  proof (cases "n < 10")
    case True
    then show ?thesis by (subst nat_str.simps) simp
  next
    case False
    from Suc.prems have "n div 10 < 10 ^ Suc k" by (simp add: less_mult_imp_div_less)
    then have "length (nat_str (n div 10)) \<le> Suc k" by (rule Suc.IH)
    with False show ?thesis by (subst nat_str.simps) simp
  qed
qed

subsection \<open>\<open>std::map\<close>\<close>

text \<open>
  An ordered map is the list of its pairs in ascending key order, which is the order its
  iterators visit. \<open>insert\<close> keeps an entry that is already there, \<open>operator[] =\<close>
  overwrites it; \<open>find\<close> is \<open>map_of\<close>.
\<close>

type_synonym ('k, 'v) smap = "('k \<times> 'v) list"

fun smap_insert :: "'k::linorder \<Rightarrow> 'v \<Rightarrow> ('k, 'v) smap \<Rightarrow> ('k, 'v) smap" where
  "smap_insert k v [] = [(k, v)]"
| "smap_insert k v ((a, b) # m) =
     (if k < a then (k, v) # (a, b) # m
      else if k = a then (a, b) # m
      else (a, b) # smap_insert k v m)"

fun smap_assign :: "'k::linorder \<Rightarrow> 'v \<Rightarrow> ('k, 'v) smap \<Rightarrow> ('k, 'v) smap" where
  "smap_assign k v [] = [(k, v)]"
| "smap_assign k v ((a, b) # m) =
     (if k < a then (k, v) # (a, b) # m
      else if k = a then (a, v) # m
      else (a, b) # smap_assign k v m)"

abbreviation smap_ok :: "('k::linorder, 'v) smap \<Rightarrow> bool" where
  "smap_ok m \<equiv> sorted_wrt (<) (map fst m)"

lemma keys_smap_insert [simp]: "fst ` set (smap_insert k v m) = insert k (fst ` set m)"
  by (induction k v m rule: smap_insert.induct) auto

lemma keys_smap_assign [simp]: "fst ` set (smap_assign k v m) = insert k (fst ` set m)"
  by (induction k v m rule: smap_assign.induct) auto

lemma set_smap_insert: "set (smap_insert k v m) \<subseteq> insert (k, v) (set m)"
  by (induction k v m rule: smap_insert.induct) auto

lemma smap_ok_insert: "smap_ok m \<Longrightarrow> smap_ok (smap_insert k v m)"
  by (induction k v m rule: smap_insert.induct) auto

lemma smap_ok_assign: "smap_ok m \<Longrightarrow> smap_ok (smap_assign k v m)"
  by (induction k v m rule: smap_assign.induct) auto

lemma map_of_below: "\<forall>x\<in>set m. (k::'k::linorder) < fst x \<Longrightarrow> map_of m k = None"
  by (auto simp: map_of_eq_None_iff)

lemma map_of_smap_insert:
  "smap_ok m \<Longrightarrow>
     map_of (smap_insert k v m) x =
       (if x = k \<and> map_of m k = None then Some v else map_of m x)"
proof (induction k v m rule: smap_insert.induct)
  case (2 k v a b m)
  have "k < a \<Longrightarrow> map_of m k = None"
    using "2.prems" by (intro map_of_below) fastforce
  with 2 show ?case by auto
qed simp

lemma map_of_smap_assign:
  "smap_ok m \<Longrightarrow> map_of (smap_assign k v m) = (map_of m)(k \<mapsto> v)"
  by (induction k v m rule: smap_assign.induct) (auto simp: fun_eq_iff)

lemma smap_ok_distinct: "smap_ok m \<Longrightarrow> distinct (map fst m)"
  by (induction m) auto

end
