(* ===== verification/Framing.thy ===== *)
theory Framing
  imports Prelude
begin

section \<open>Length-prefixed messages over a TCP socket\<close>

text \<open>
  The framing layer of \<open>task1/source/shared.h\<close> and \<open>shared.cpp\<close> (the same text is in
  \<open>task2/source\<close>): the 32-bit big-endian length header, \<open>construct_message\<close>, the
  \<open>read_n\<close> loop with its retry counter, \<open>secure_recv\<close> and \<open>secure_send\<close>.

  The kernel is the environment: what successive \<open>recv\<close> calls on a descriptor return is
  a list of results, and a list that runs out is a call that blocks for ever (the value
  \<open>None\<close>). \<open>Got []\<close> is a \<open>recv\<close> that returns 0, which TCP does when the peer has
  closed; \<open>Err\<close> is a \<open>recv\<close> that returns -1. The amount a \<open>send\<close> accepts is a list
  of results as well.
\<close>

subsection \<open>Integers as byte arrays\<close>

definition byte_at :: "u32 \<Rightarrow> nat \<Rightarrow> u32" where
  "byte_at w i = take_bit 8 (drop_bit (8 * i) w)"

definition of_bytes :: "u32 \<Rightarrow> u32 \<Rightarrow> u32 \<Rightarrow> u32 \<Rightarrow> u32" where
  "of_bytes b0 b1 b2 b3 = b0 OR push_bit 8 b1 OR push_bit 16 b2 OR push_bit 24 b3"

text \<open>\<open>memcpy\<close> between a \<open>uint32_t\<close> and four bytes on a little-endian machine.\<close>

definition le_bytes :: "u32 \<Rightarrow> string" where
  "le_bytes w = map (\<lambda>i. char_of (unat (byte_at w i))) [0, 1, 2, 3]"

definition le_word :: "string \<Rightarrow> u32" where
  "le_word b = of_bytes (word_of_nat (of_char (b ! 0))) (word_of_nat (of_char (b ! 1)))
     (word_of_nat (of_char (b ! 2))) (word_of_nat (of_char (b ! 3)))"

text \<open>\<open>__builtin_bswap32\<close>.\<close>

definition bswap32 :: "u32 \<Rightarrow> u32" where
  "bswap32 w = of_bytes (byte_at w 3) (byte_at w 2) (byte_at w 1) (byte_at w 0)"

definition convert_byte_array_to_int :: "string \<Rightarrow> u32" where
  "convert_byte_array_to_int b = bswap32 (le_word b)"

definition convert_int_to_byte_array :: "u32 \<Rightarrow> string" where
  "convert_int_to_byte_array sz = le_bytes (bswap32 sz)"

lemma bit_byte_at: "bit (byte_at w i) n \<longleftrightarrow> n < 8 \<and> bit w (8 * i + n)"
  by (auto simp: byte_at_def bit_simps)

lemma byte_at_of_bytes [bytes_simps]:
  "byte_at (of_bytes (byte_at a i) (byte_at b j) (byte_at c k) (byte_at d l)) 0 = byte_at a i"
  "byte_at (of_bytes (byte_at a i) (byte_at b j) (byte_at c k) (byte_at d l)) 1 = byte_at b j"
  "byte_at (of_bytes (byte_at a i) (byte_at b j) (byte_at c k) (byte_at d l)) 2 = byte_at c k"
  "byte_at (of_bytes (byte_at a i) (byte_at b j) (byte_at c k) (byte_at d l)) 3 = byte_at d l"
  by (rule bit_word_eqI; auto simp: bit_byte_at of_bytes_def bit_simps)+

lemma of_bytes_byte_at [bytes_simps]:
  "of_bytes (byte_at w 0) (byte_at w 1) (byte_at w 2) (byte_at w 3) = w"
proof (rule bit_word_eqI)
  fix n assume "n < LENGTH(32)"
  then consider "n < 8" | "8 \<le> n" "n < 16" | "16 \<le> n" "n < 24" | "24 \<le> n" "n < 32"
    by fastforce
  then show "bit (of_bytes (byte_at w 0) (byte_at w 1) (byte_at w 2) (byte_at w 3)) n = bit w n"
    by cases (auto simp: bit_byte_at of_bytes_def bit_simps)
qed

lemma unat_byte_at: "unat (byte_at w i) < 256"
proof -
  have "unat (byte_at w i) = take_bit 8 (unat (drop_bit (8 * i) w))"
    by (simp add: byte_at_def unsigned_take_bit_eq)
  also have "\<dots> < 2 ^ 8" by (rule take_bit_nat_less_exp)
  finally show ?thesis by simp
qed

lemma unat_byte_at_mod [simp]: "unat (byte_at w i) mod 256 = unat (byte_at w i)"
  using unat_byte_at [of w i] by simp

lemma bswap32_bswap32 [simp]: "bswap32 (bswap32 w) = w"
  by (simp only: bswap32_def bytes_simps)

lemma le_word_le_bytes [simp]: "le_word (le_bytes w @ s) = w"
  using of_bytes_byte_at [of w]
  by (simp add: le_word_def le_bytes_def numeral_3_eq_3 numeral_2_eq_2)

lemma convert_roundtrip [simp]:
  "convert_byte_array_to_int (convert_int_to_byte_array w @ s) = w"
  by (simp add: convert_byte_array_to_int_def convert_int_to_byte_array_def)

lemma convert_roundtrip_exact [simp]:
  "convert_byte_array_to_int (convert_int_to_byte_array w) = w"
  using convert_roundtrip [of w "[]"] by simp

lemma length_convert_int [simp]: "length (convert_int_to_byte_array w) = 4"
  by (simp add: convert_int_to_byte_array_def le_bytes_def)

text \<open>The header is the big-endian (network order) rendering of the length.\<close>

lemma convert_int_big_endian:
  "convert_int_to_byte_array w =
     map (\<lambda>i. char_of (unat w div 256 ^ i mod 256)) [3, 2, 1, 0]"
proof -
  have "unat (byte_at w i) = unat w div 256 ^ i mod 256" for i
  proof -
    have "unat (byte_at w i) = take_bit 8 (drop_bit (8 * i) (unat w))"
      by (simp only: byte_at_def unsigned_take_bit_eq unat_drop_bit_eq)
    then show ?thesis by (simp add: take_bit_eq_mod drop_bit_eq_div power_mult)
  qed
  then show ?thesis
    by (simp add: convert_int_to_byte_array_def bswap32_def le_bytes_def bytes_simps
        byte_at_of_bytes [simplified])
qed

subsection \<open>Messages\<close>

definition length_size_field :: nat where
  "length_size_field = 4"

text \<open>\<open>payload_size\<close> is a \<open>size_t\<close> that the call converts to \<open>uint32_t\<close>.\<close>

definition construct_message :: "string \<Rightarrow> nat \<Rightarrow> string" where
  "construct_message payload payload_size =
     convert_int_to_byte_array (word_of_nat payload_size) @ take payload_size payload"

definition destruct_message :: "string \<Rightarrow> nat \<Rightarrow> u32 option" where
  "destruct_message msg bytes =
     (if bytes < 4 then None else Some (convert_byte_array_to_int msg))"

abbreviation frame :: "string \<Rightarrow> string" where
  "frame p \<equiv> construct_message p (length p)"

lemma length_frame [simp]: "length (frame p) = length p + 4"
  by (simp add: construct_message_def)

subsection \<open>Receiving\<close>

datatype recv_res = Got string | Err

text \<open>One call of \<open>read\<close> or \<open>recv\<close> of at most \<open>n\<close> bytes: its return value and the bytes stored.\<close>

fun read_call :: "nat \<Rightarrow> recv_res list \<Rightarrow> ((int \<times> string) \<times> recv_res list) option" where
  "read_call n [] = None"
| "read_call n (Err # es) = Some ((-1, []), es)"
| "read_call n (Got bs # es) =
     (if length bs \<le> n then Some ((int (length bs), bs), es)
      else Some ((int n, take n bs), Got (drop n bs) # es))"

fun event_size :: "recv_res \<Rightarrow> nat" where
  "event_size Err = 1"
| "event_size (Got bs) = Suc (length bs)"

abbreviation events_size :: "recv_res list \<Rightarrow> nat" where
  "events_size evs \<equiv> sum_list (map event_size evs)"

lemma read_call_decreases:
  "read_call n evs = Some (r, es) \<Longrightarrow> 0 < n \<Longrightarrow> events_size es < events_size evs"
  by (induction n evs rule: read_call.induct) (auto split: if_splits)

definition max_retries :: nat where
  "max_retries = 10000"

text \<open>
  \<open>read_n\<close>: the accumulator is the filled prefix of the buffer, so \<open>bytes_read\<close> is its
  length. A \<open>recv\<close> never returns more than was asked for; what it leaves stays in the
  kernel's buffer.
\<close>

fun read_n :: "nat \<Rightarrow> nat \<Rightarrow> string \<Rightarrow> recv_res list \<Rightarrow> (string \<times> recv_res list) option" where
  "read_n n retries acc evs =
     (if n \<le> length acc then Some (acc, evs)
      else (case evs of
          [] \<Rightarrow> None
        | Err # es \<Rightarrow> read_n n retries acc es
        | Got bs # es \<Rightarrow>
            (if bs = [] then
               (if max_retries \<le> retries then Some (acc, es)
                else read_n n (Suc retries) acc es)
             else
               (let bytes_left = n - length acc in
                if length bs \<le> bytes_left then read_n n 0 (acc @ bs) es
                else Some (acc @ take bytes_left bs, Got (drop bytes_left bs) # es)))))"

declare read_n.simps [simp del]

text \<open>
  \<open>secure_recv\<close>: the byte count and the buffer (\<open>None\<close> is \<open>nullptr\<close>). The buffer has
  one byte more than the message, which holds the NUL.
\<close>

definition secure_recv :: "recv_res list \<Rightarrow> ((nat \<times> string option) \<times> recv_res list) option" where
  "secure_recv evs =
     (case read_n length_size_field 0 [] evs of
        None \<Rightarrow> None
      | Some (dlen, es) \<Rightarrow>
          (if length dlen \<noteq> length_size_field then Some ((0, None), es)
           else (case destruct_message dlen length_size_field of
               None \<Rightarrow> Some ((0, None), es)
             | Some msg_size \<Rightarrow>
                 (case read_n (unat msg_size) 0 [] es of
                    None \<Rightarrow> None
                  | Some (buf, es') \<Rightarrow>
                      (if length buf \<noteq> unat msg_size then Some ((0, None), es')
                       else Some ((unat msg_size, Some (buf @ [NUL])), es'))))))"

text \<open>\<open>std::string(res.second.get())\<close>, the argument of every \<open>ParseFromString\<close>.\<close>

fun c_string_of :: "string option \<Rightarrow> string res" where
  "c_string_of None = Inl Null_Deref"
| "c_string_of (Some buf) = Inr (c_str buf)"

text \<open>What the receiver makes of the buffer; the generated parser is a parameter.\<close>

definition parse_buffer :: "(string \<Rightarrow> 'm) \<Rightarrow> string option \<Rightarrow> 'm res" where
  "parse_buffer parse buf = map_sum id parse (c_string_of buf)"

text \<open>What a process that reads a whole frame with this payload gets from \<open>secure_recv\<close>
  (\<open>secure_recv_frame\<close>).\<close>

definition received :: "string \<Rightarrow> nat \<times> string option" where
  "received buf = (length buf, Some (buf @ [NUL]))"

lemma received_simps [simp]:
  "fst (received buf) = length buf" "parse_buffer parse (snd (received buf)) = Inr (parse (c_str buf))"
  by (simp_all add: received_def parse_buffer_def)

subsection \<open>Sending\<close>

datatype send_res = Sent nat | Send_Err

text \<open>
  \<open>secure_send\<close>: the result and the bytes that went out. A \<open>send\<close> accepts at most what
  it was offered.
\<close>

fun secure_send_loop :: "nat \<Rightarrow> string \<Rightarrow> send_res list \<Rightarrow> (nat option \<times> string) option" where
  "secure_send_loop len tmp rs =
     (if tmp = [] then Some (Some len, [])
      else (case rs of
          [] \<Rightarrow> None
        | Send_Err # _ \<Rightarrow> Some (None, [])
        | Sent k # rs' \<Rightarrow>
            map_option (\<lambda>(r, out). (r, take k tmp @ out)) (secure_send_loop len (drop k tmp) rs')))"

declare secure_send_loop.simps [simp del]

definition secure_send :: "string \<Rightarrow> send_res list \<Rightarrow> (nat option \<times> string) option" where
  "secure_send data rs = secure_send_loop (length data) data rs"


subsection \<open>What the loops guarantee\<close>

definition recv_bytes :: "recv_res list \<Rightarrow> string" where
  "recv_bytes evs = concat (map (\<lambda>e. case e of Got bs \<Rightarrow> bs | Err \<Rightarrow> []) evs)"

definition zero_reads :: "recv_res list \<Rightarrow> nat" where
  "zero_reads evs = length (filter (\<lambda>e. e = Got []) evs)"

lemma recv_bytes_simps [simp]:
  "recv_bytes [] = []"
  "recv_bytes (Got bs # es) = bs @ recv_bytes es"
  "recv_bytes (Err # es) = recv_bytes es"
  "recv_bytes (es @ es') = recv_bytes es @ recv_bytes es'"
  by (simp_all add: recv_bytes_def)

lemma zero_reads_simps [simp]:
  "zero_reads [] = 0"
  "zero_reads (Got bs # es) = (if bs = [] then Suc (zero_reads es) else zero_reads es)"
  "zero_reads (Err # es) = zero_reads es"
  by (simp_all add: zero_reads_def)

lemma read_n_done [simp]: "n \<le> length acc \<Longrightarrow> read_n n r acc evs = Some (acc, evs)"
  by (subst read_n.simps) simp

lemma read_n_Err [simp]:
  "read_n n r acc (Err # es) = (if n \<le> length acc then Some (acc, Err # es) else read_n n r acc es)"
  by (subst read_n.simps) simp

lemma read_n_Zero [simp]:
  "read_n n r acc (Got [] # es) =
     (if n \<le> length acc then Some (acc, Got [] # es)
      else if max_retries \<le> r then Some (acc, es) else read_n n (Suc r) acc es)"
  by (subst read_n.simps) simp

lemma read_n_Data:
  "bs \<noteq> [] \<Longrightarrow> length acc < n \<Longrightarrow> read_n n r acc (Got bs # es) =
     (if length bs \<le> n - length acc then read_n n 0 (acc @ bs) es
      else Some (acc @ take (n - length acc) bs, Got (drop (n - length acc) bs) # es))"
  by (subst read_n.simps) (simp add: Let_def)

text \<open>However the kernel cuts the stream, and whatever errors it reports in between,
  \<open>read_n\<close> returns exactly the next \<open>n\<close> bytes and leaves the rest.\<close>

lemma read_n_full:
  assumes "n \<le> length acc + length (recv_bytes evs)" "length acc \<le> n"
    and "r + zero_reads evs \<le> max_retries"
  shows "\<exists>evs'. read_n n r acc (evs @ suf) = Some (take n (acc @ recv_bytes evs), evs' @ suf)
     \<and> recv_bytes evs' = drop n (acc @ recv_bytes evs) \<and> zero_reads evs' \<le> zero_reads evs"
  using assms
proof (induction evs arbitrary: r acc)
  case Nil
  then show ?case by simp
next
  case (Cons e es)
  show ?case
  proof (cases "length acc = n")
    case True
    then show ?thesis by (intro exI [of _ "e # es"]) simp
  next
    case False
    with Cons.prems have lt: "length acc < n" by simp
    show ?thesis
    proof (cases e)
      case Err
      with Cons.prems lt Cons.IH [of acc r] show ?thesis by simp
    next
      case e: (Got bs)
      show ?thesis
      proof (cases "bs = []")
        case True
        with Cons.prems lt e Cons.IH [of acc "Suc r"] show ?thesis by fastforce
      next
        case ne: False
        show ?thesis
        proof (cases "length bs \<le> n - length acc")
          case True
          with Cons.prems lt e ne have
            "\<exists>evs'. read_n n 0 (acc @ bs) (es @ suf) =
                Some (take n ((acc @ bs) @ recv_bytes es), evs' @ suf)
              \<and> recv_bytes evs' = drop n ((acc @ bs) @ recv_bytes es)
              \<and> zero_reads evs' \<le> zero_reads es"
            by (intro Cons.IH) auto
          with e ne lt True show ?thesis by (simp add: read_n_Data)
        next
          case False
          with e ne lt Cons.prems show ?thesis
            by (intro exI [of _ "Got (drop (n - length acc) bs) # es"])
               (simp add: read_n_Data)
        qed
      qed
    qed
  qed
qed

text \<open>A closed connection: \<open>recv\<close> keeps returning 0 and the loop gives up with what it has.\<close>

abbreviation closed_peer :: "recv_res list" where
  "closed_peer \<equiv> replicate (Suc max_retries) (Got [])"

lemma read_n_zeros:
  "length acc < n \<Longrightarrow> max_retries < r + k \<Longrightarrow>
     \<exists>es. read_n n r acc (replicate k (Got []) @ suf) = Some (acc, es)
       \<or> max_retries < r \<and> k = 0"
  by (induction k arbitrary: r) (auto simp: not_le)

lemma read_n_closed:
  assumes "length acc + length (recv_bytes evs) < n" "r \<le> max_retries"
  shows "\<exists>buf es. read_n n r acc (evs @ closed_peer) = Some (buf, es) \<and> length buf < n"
  using assms
proof (induction evs arbitrary: r acc)
  case Nil
  with read_n_zeros [of acc n r "Suc max_retries" "[]"] show ?case by fastforce
next
  case (Cons e es)
  show ?case
  proof (cases e)
    case Err
    with Cons show ?thesis by simp
  next
    case e: (Got bs)
    show ?thesis
    proof (cases "bs = []")
      case True
      with Cons e show ?thesis by auto
    next
      case False
      with Cons e show ?thesis by (simp add: read_n_Data)
    qed
  qed
qed

lemma secure_recv_frame_suf:
  assumes "recv_bytes evs = frame p @ rest" "zero_reads evs \<le> max_retries"
    and "length p < 2 ^ 32"
  shows "\<exists>evs'. secure_recv (evs @ suf) = Some ((length p, Some (p @ [NUL])), evs' @ suf)
     \<and> recv_bytes evs' = rest \<and> zero_reads evs' \<le> zero_reads evs"
proof -
  let ?hdr = "convert_int_to_byte_array (word_of_nat (length p))"
  have b: "recv_bytes evs = ?hdr @ p @ rest"
    using assms(1) by (simp add: construct_message_def)
  have sz: "unat (word_of_nat (length p) :: u32) = length p"
    using assms(3) by (simp add: unat_of_nat)
  obtain es where es: "read_n 4 0 [] (evs @ suf) = Some (?hdr, es @ suf)" "recv_bytes es = p @ rest"
      "zero_reads es \<le> zero_reads evs"
    using read_n_full [of 4 "[]" evs 0 suf] b assms(2) by auto
  obtain es' where es': "read_n (length p) 0 [] (es @ suf) = Some (p, es' @ suf)"
      "recv_bytes es' = rest" "zero_reads es' \<le> zero_reads es"
    using read_n_full [of "length p" "[]" es 0 suf] es assms(2) by auto
  from es es' sz show ?thesis
    by (auto simp: secure_recv_def length_size_field_def destruct_message_def)
qed

lemma secure_recv_frame:
  assumes "recv_bytes evs = frame p @ rest" "zero_reads evs \<le> max_retries"
    and "length p < 2 ^ 32"
  shows "\<exists>evs'. secure_recv evs = Some ((length p, Some (p @ [NUL])), evs')
     \<and> recv_bytes evs' = rest \<and> zero_reads evs' \<le> zero_reads evs"
  using secure_recv_frame_suf [OF assms, of "[]"] by simp

lemma secure_recv_closed:
  assumes "recv_bytes evs = []"
  shows "\<exists>es. secure_recv (evs @ closed_peer) = Some ((0, None), es)"
  using read_n_closed [of "[]" evs 4 0] assms
  by (auto simp: secure_recv_def length_size_field_def)

text \<open>A message that is not empty has consumed some of what the kernel had.\<close>

lemma read_n_size:
  "read_n n r acc evs = Some (buf, es) \<Longrightarrow> events_size es \<le> events_size evs \<and>
    (length acc < length buf \<longrightarrow> events_size es < events_size evs)"
proof (induction evs arbitrary: r acc)
  case Nil
  then show ?case by (subst (asm) read_n.simps) (auto split: if_splits)
next
  case (Cons e es')
  show ?case
  proof (cases "n \<le> length acc")
    case True
    with Cons.prems show ?thesis by simp
  next
    case lt: False
    show ?thesis
    proof (cases e)
      case Err
      with Cons lt show ?thesis by fastforce
    next
      case (Got bs)
      with Cons.prems Cons.IH [of "Suc r" acc] Cons.IH [of 0 "acc @ bs"] lt show ?thesis
        by (cases "bs = []") (auto simp: read_n_Data not_le split: if_splits)
    qed
  qed
qed

lemma secure_recv_size:
  assumes "secure_recv evs = Some (res, es)" "fst res \<noteq> 0"
  shows "events_size es < events_size evs"
  using assms
  by (fastforce simp: secure_recv_def length_size_field_def split: option.splits prod.splits if_splits
      dest!: read_n_size)

lemma secure_recv_truncated:
  assumes "recv_bytes evs = take k (frame p)" "k < length (frame p)" "zero_reads evs \<le> max_retries"
    and "length p < 2 ^ 32"
  shows "\<exists>evs'. secure_recv (evs @ closed_peer) = Some ((0, None), evs')"
proof (cases "k < 4")
  case True
  with assms obtain buf es where
    "read_n 4 0 [] (evs @ closed_peer) = Some (buf, es)" "length buf < 4"
    using read_n_closed [of "[]" evs 4 0] by auto
  then show ?thesis by (auto simp: secure_recv_def length_size_field_def)
next
  case False
  let ?hdr = "convert_int_to_byte_array (word_of_nat (length p))"
  have sz: "unat (word_of_nat (length p) :: u32) = length p"
    using assms(4) by (simp add: unat_of_nat)
  have b: "recv_bytes evs = ?hdr @ take (k - 4) p"
    using assms(1) False by (simp add: construct_message_def)
  obtain es where es: "read_n 4 0 [] (evs @ closed_peer) = Some (?hdr, es @ closed_peer)"
      "recv_bytes es = take (k - 4) p"
    using read_n_full [of 4 "[]" evs 0 closed_peer] b assms(3) by auto
  have "length [] + length (recv_bytes es) < length p"
    using es(2) assms(2) False by simp
  from read_n_closed [OF this, of 0] obtain buf es' where
    "read_n (length p) 0 [] (es @ closed_peer) = Some (buf, es')" "length buf < length p"
    by blast
  with es show ?thesis
    using sz by (auto simp: secure_recv_def length_size_field_def destruct_message_def)
qed

lemma read_n_only_errors: "length acc < n \<Longrightarrow> read_n n r acc (replicate k Err) = None"
  by (induction k) (simp_all add: read_n.simps)

lemma secure_recv_only_errors: "secure_recv (replicate k Err) = None"
  by (simp add: secure_recv_def length_size_field_def read_n_only_errors)

subsection \<open>What \<open>secure_send\<close> guarantees\<close>

lemma secure_send_loop_Nil [simp]: "secure_send_loop len [] rs = Some (Some len, [])"
  by (subst secure_send_loop.simps) simp

lemma secure_send_loop_step:
  "tmp \<noteq> [] \<Longrightarrow> secure_send_loop len tmp [] = None"
  "tmp \<noteq> [] \<Longrightarrow> secure_send_loop len tmp (Send_Err # rs) = Some (None, [])"
  "tmp \<noteq> [] \<Longrightarrow> secure_send_loop len tmp (Sent k # rs) =
     map_option (\<lambda>(r, out). (r, take k tmp @ out)) (secure_send_loop len (drop k tmp) rs)"
  by (subst secure_send_loop.simps, simp)+

lemma secure_send_loop_sound:
  "secure_send_loop len tmp rs = Some (r, out) \<Longrightarrow>
     (r = Some len \<and> out = tmp) \<or> (r = None \<and> (\<exists>k < length tmp. out = take k tmp))"
proof (induction rs arbitrary: tmp r out)
  case Nil
  then show ?case by (cases "tmp = []") (auto simp: secure_send_loop_step)
next
  case (Cons x rs)
  show ?case
  proof (cases "tmp = []")
    case True
    with Cons.prems show ?thesis by simp
  next
    case ne: False
    show ?thesis
    proof (cases x)
      case Send_Err
      with Cons.prems ne show ?thesis by (auto simp: secure_send_loop_step intro: exI [of _ 0])
    next
      case (Sent k)
      with Cons.prems ne obtain out' where
        o: "secure_send_loop len (drop k tmp) rs = Some (r, out')" "out = take k tmp @ out'"
        by (auto simp: secure_send_loop_step)
      from Cons.IH [OF o(1)] o(2) show ?thesis
      proof (elim disjE conjE exE)
        fix j
        assume "r = None" "j < length (drop k tmp)" "out' = take j (drop k tmp)"
        with o(2) have "out = take (k + j) tmp" "k + j < length tmp" by (simp_all add: take_add)
        with \<open>r = None\<close> show ?thesis by blast
      qed simp
    qed
  qed
qed

lemma secure_send_loop_progress:
  "length tmp \<le> length rs \<Longrightarrow> \<forall>x\<in>set rs. \<exists>k>0. x = Sent k \<Longrightarrow>
     secure_send_loop len tmp rs = Some (Some len, tmp)"
proof (induction rs arbitrary: tmp)
  case Nil
  then show ?case by simp
next
  case (Cons x rs)
  show ?case
  proof (cases "tmp = []")
    case False
    from Cons.prems obtain k where k: "x = Sent k" "0 < k" by auto
    have "secure_send_loop len (drop k tmp) rs = Some (Some len, drop k tmp)"
      using Cons.prems k False by (intro Cons.IH) (auto simp: le_diff_conv)
    with k False show ?thesis by (simp add: secure_send_loop_step)
  qed simp
qed

subsection \<open>The interface: framed transports\<close>

text \<open>
  What a message-passing component relies on: an encoder of payloads and a receiver of one
  payload from a socket, which gives back what it returns for the payload that was encoded,
  \<open>got\<close>, and leaves the bytes after it. \<open>payload_ok\<close> and \<open>sock_ok\<close> are the payloads and
  the kernel behaviours the transport supports.
\<close>

fun recv_many ::
  "(recv_res list \<Rightarrow> ('r \<times> recv_res list) option) \<Rightarrow> nat \<Rightarrow> recv_res list
     \<Rightarrow> ('r list \<times> recv_res list) option" where
  "recv_many recv 0 evs = Some ([], evs)"
| "recv_many recv (Suc k) evs =
     (case recv evs of
        None \<Rightarrow> None
      | Some (p, es) \<Rightarrow> map_option (\<lambda>(ps, es'). (p # ps, es')) (recv_many recv k es))"

locale framed_transport =
  fixes enc :: "string \<Rightarrow> string"
    and recv :: "recv_res list \<Rightarrow> ('r \<times> recv_res list) option"
    and got :: "string \<Rightarrow> 'r"
    and payload_ok :: "string \<Rightarrow> bool"
    and sock_ok :: "recv_res list \<Rightarrow> bool"
  assumes recv_enc: "payload_ok p \<Longrightarrow> sock_ok evs \<Longrightarrow> recv_bytes evs = enc p @ rest \<Longrightarrow>
     \<exists>evs'. recv evs = Some (got p, evs') \<and> recv_bytes evs' = rest \<and> sock_ok evs'"
begin

lemma recv_many_enc:
  "\<forall>p\<in>set ps. payload_ok p \<Longrightarrow> sock_ok evs \<Longrightarrow> recv_bytes evs = concat (map enc ps) @ rest \<Longrightarrow>
     \<exists>evs'. recv_many recv (length ps) evs = Some (map got ps, evs') \<and> recv_bytes evs' = rest \<and> sock_ok evs'"
proof (induction ps arbitrary: evs)
  case Nil
  then show ?case by simp
next
  case (Cons p ps)
  then obtain es where es: "recv evs = Some (got p, es)"
      "recv_bytes es = concat (map enc ps) @ rest" "sock_ok es"
    using recv_enc [of p evs "concat (map enc ps) @ rest"] by auto
  with Cons.IH [of es] Cons.prems show ?case by fastforce
qed

end

definition sized :: "string \<Rightarrow> bool" where
  "sized p \<longleftrightarrow> length p < 2 ^ 32"

definition patient :: "recv_res list \<Rightarrow> bool" where
  "patient evs \<longleftrightarrow> zero_reads evs \<le> max_retries"

interpretation tcp: framed_transport frame secure_recv received sized patient
proof unfold_locales
  fix p evs rest
  assume "sized p" "patient evs" "recv_bytes evs = frame p @ rest"
  then show "\<exists>evs'. secure_recv evs = Some (received p, evs') \<and> recv_bytes evs' = rest \<and> patient evs'"
    using secure_recv_frame [of evs p rest] by (auto simp: sized_def patient_def received_def)
qed

text \<open>C5: sent and received through \<open>secure_send\<close> and \<open>secure_recv\<close>, a list of payloads of any
  bytes arrives in order and with nothing left over, however the kernel cuts the stream on
  either side: every call of \<open>secure_recv\<close> returns the size of its payload and a buffer with
  the payload and a NUL after it. The string that the servers make of that buffer is the
  payload up to its first NUL byte, the whole payload when it has none. (Payloads are shorter
  than 4 GiB, \<open>secure_send\<close> has reported success, and at most 10000 empty reads lie between.)\<close>

theorem framing_end_to_end:
  assumes "\<forall>p\<in>set ps. length p < 2 ^ 32"
    and "secure_send (concat (map frame ps)) sends = Some (Some n, wire)"
    and "recv_bytes evs = wire" "zero_reads evs \<le> max_retries"
  shows "(\<exists>evs'. recv_many secure_recv (length ps) evs =
      Some (map (\<lambda>p. (length p, Some (p @ [NUL]))) ps, evs') \<and> recv_bytes evs' = []) \<and>
    (\<forall>p\<in>set ps. c_string_of (Some (p @ [NUL])) = Inr (takeWhile (\<lambda>c. c \<noteq> NUL) p))"
proof
  from assms(2) have "wire = concat (map frame ps)"
    unfolding secure_send_def by (auto dest: secure_send_loop_sound)
  with assms show "\<exists>evs'. recv_many secure_recv (length ps) evs =
      Some (map (\<lambda>p. (length p, Some (p @ [NUL]))) ps, evs') \<and> recv_bytes evs' = []"
    using tcp.recv_many_enc [of ps evs "[]"] by (auto simp: sized_def patient_def received_def [abs_def])
  show "\<forall>p\<in>set ps. c_string_of (Some (p @ [NUL])) = Inr (takeWhile (\<lambda>c. c \<noteq> NUL) p)"
    by (simp add: c_str_def [symmetric])
qed

theorem framing_end_to_end_witness:
  "\<exists>evs'. recv_many secure_recv (Suc (Suc 0)) [Got [CHR 0x00, CHR 0x00], Err, Got [CHR 0x00, CHR 0x02, CHR ''h''],
      Got [], Got [CHR 0x00, CHR 0x00, CHR 0x00, CHR 0x00, CHR 0x00]]
    = Some ([(Suc (Suc 0), Some [CHR ''h'', NUL, NUL]), (0, Some [NUL])], evs') \<and> recv_bytes evs' = []"
proof -
  let ?ps = "[[CHR ''h'', NUL], []]"
  have w: "concat (map frame ?ps) =
      [CHR 0x00, CHR 0x00, CHR 0x00, CHR 0x02, CHR ''h'', CHR 0x00,
       CHR 0x00, CHR 0x00, CHR 0x00, CHR 0x00]"
    by code_simp
  show ?thesis
    using framing_end_to_end [of ?ps "[Sent 3, Sent 7]" 10
        "concat (map frame ?ps)"
        "[Got [CHR 0x00, CHR 0x00], Err, Got [CHR 0x00, CHR 0x02, CHR ''h''],
          Got [], Got [CHR 0x00, CHR 0x00, CHR 0x00, CHR 0x00, CHR 0x00]]"]
    unfolding w
    by (simp add: secure_send_def secure_send_loop_step max_retries_def del: recv_many.simps)
qed

text \<open>A broken connection. When the peer closes in the middle of a message, at any byte
  of the header or the payload, \<open>secure_recv\<close> gives up after its 10001 empty reads and
  returns \<open>{0, nullptr}\<close>; it never returns a partial message. When \<open>recv\<close> fails instead, and
  however often it returns -1 and nothing else, \<open>secure_recv\<close> has not returned, because only
  empty reads are counted: a reset connection keeps its thread for ever.\<close>

theorem recv_broken:
  assumes "recv_bytes evs = take k (frame p)" "k < length (frame p)" "zero_reads evs \<le> max_retries"
    and "length p < 2 ^ 32"
  shows "(\<exists>evs'. secure_recv (evs @ closed_peer) = Some ((0, None), evs')) \<and>
    secure_recv (replicate j Err) = None"
  using assms by (intro conjI secure_recv_truncated secure_recv_only_errors)

theorem recv_broken_witness:
  "(\<exists>evs'. secure_recv ([Got (take 5 (frame ''hi''))] @ closed_peer) = Some ((0, None), evs')) \<and>
   secure_recv [Err, Err] = None"
  using recv_broken [of "[Got (take 5 (frame ''hi''))]" 5 "''hi''" "Suc (Suc 0)"]
  by (simp add: construct_message_def zero_reads_def max_retries_def)

text \<open>\<open>secure_send\<close> puts out exactly the bytes it was given when it returns their number,
  and a proper prefix of them when it returns \<open>nullopt\<close>; and it does return once \<open>send\<close> has
  accepted at least one byte as many times as there are bytes.\<close>

theorem send_all_or_error:
  "(secure_send data rs = Some (r, out) \<longrightarrow>
      (r = Some (length data) \<and> out = data) \<or>
      (r = None \<and> (\<exists>k < length data. out = take k data))) \<and>
   (length data \<le> length rs \<and> (\<forall>x\<in>set rs. \<exists>k>0. x = Sent k) \<longrightarrow>
      secure_send data rs = Some (Some (length data), data))"
  unfolding secure_send_def
  using secure_send_loop_sound secure_send_loop_progress by blast

theorem send_all_or_error_witness:
  "secure_send ''abc'' [Sent 2, Sent 1, Sent 1] = Some (Some 3, ''abc'')"
  using send_all_or_error [of "''abc''" "[Sent 2, Sent 1, Sent 1]"] by simp

text \<open>The header is a 32-bit big-endian number that \<open>convert_byte_array_to_int\<close> reads
  back, so the two byte-order conversions are inverse to each other on every value. A
  payload of 4 GiB or more is not framed correctly: its header holds the length modulo
  \<open>2 ^ 32\<close>, since \<open>size_t\<close> is narrowed to \<open>uint32_t\<close> on the way.\<close>

theorem header_format:
  "convert_byte_array_to_int (convert_int_to_byte_array w @ s) = w \<and>
   convert_int_to_byte_array w = map (\<lambda>i. char_of (unat w div 256 ^ i mod 256)) [3, 2, 1, 0] \<and>
   map_option unat (destruct_message (frame p) (length (frame p))) = Some (length p mod 2 ^ 32)"
  by (intro conjI convert_roundtrip convert_int_big_endian)
     (simp add: destruct_message_def construct_message_def unat_of_nat)

end
