(* ===== verification/CounterService.thy ===== *)
theory CounterService
  imports Framing
begin

section \<open>Task 0: the counter service\<close>

text \<open>
  \<open>task0/utils.cpp\<close> (\<open>send_msg\<close>, \<open>recv_msg\<close>: a four-digit ASCII length, then the
  serialised message), \<open>task0/server.cpp\<close> (one connection at a time, a global
  \<open>std::atomic<int64_t>\<close>) and \<open>task0/client.cpp\<close>. The generated protobuf class
  \<open>sockets::message\<close> is a parameter: \<open>ser op arg\<close> is \<open>SerializeToString\<close> of a message with
  both fields set, \<open>parse s\<close> is the pair of \<open>type()\<close> and \<open>argument()\<close> after
  \<open>ParseFromString(s)\<close>, defaults included.
\<close>

subsection \<open>\<open>utils.cpp\<close>\<close>

definition OPERATION_ADD :: i32 where "OPERATION_ADD = 1"
definition OPERATION_SUB :: i32 where "OPERATION_SUB = 2"
definition OPERATION_TERMINATION :: i32 where "OPERATION_TERMINATION = 3"
definition OPERATION_COUNTER :: i32 where "OPERATION_COUNTER = 4"

lemmas operation_defs =
  OPERATION_ADD_def OPERATION_SUB_def OPERATION_TERMINATION_def OPERATION_COUNTER_def

definition INT_SIZE :: nat where
  "INT_SIZE = 4"

definition size_string :: "nat \<Rightarrow> string" where
  "size_string msg_size =
     (let temp_string = nat_str msg_size
      in replicate (INT_SIZE - length temp_string) (CHR ''0'') @ temp_string)"

text \<open>The string \<open>send_msg\<close> builds.\<close>

definition encode_body :: "string \<Rightarrow> string" where
  "encode_body buffer = size_string (unat (word_of_nat (length buffer) :: u32)) @ buffer"

text \<open>\<open>send_msg\<close>: one call of \<open>send\<close>, whose result is ignored; the value is the return code
  and what went out.\<close>

definition send_msg :: "(i32 \<Rightarrow> i64 \<Rightarrow> string) \<Rightarrow> send_res \<Rightarrow> i32 \<Rightarrow> i64 \<Rightarrow> int \<times> string" where
  "send_msg ser r operation_type argument =
     (let payload = encode_body (ser operation_type argument)
      in (0, case r of Sent k \<Rightarrow> take k payload | Send_Err \<Rightarrow> []))"

text \<open>The \<open>do ... while\<close> of \<open>recv_msg\<close>: one byte per call, at \<open>buffer[i]\<close>. Going past the
  end of the buffer is undefined; so is overwriting its terminator.\<close>

function recv_loop ::
  "int \<Rightarrow> nat \<Rightarrow> int \<Rightarrow> string \<Rightarrow> recv_res list \<Rightarrow> (string \<times> recv_res list) res option" where
  "recv_loop payload_size i bytes_read buffer evs =
     (case read_call 1 evs of
        None \<Rightarrow> None
      | Some ((r, bs), es) \<Rightarrow>
          (if length buffer < i \<or> length buffer = i \<and> bs \<noteq> [] then Some (Inl Out_Of_Range)
           else
             (let buffer' = (if bs = [] then buffer else buffer[i := hd bs]);
                  bytes_read' = bytes_read + r
              in if bytes_read' < payload_size
                 then recv_loop payload_size (Suc i) bytes_read' buffer' es
                 else Some (Inr (buffer', es)))))"
  by pat_completeness auto
termination
  by (relation "measure (\<lambda>(_, _, _, _, evs). events_size evs)") (auto dest: read_call_decreases)

declare recv_loop.simps [simp del]

definition recv_body :: "recv_res list \<Rightarrow> (string \<times> recv_res list) res option" where
  "recv_body evs =
     (case read_call INT_SIZE evs of
        None \<Rightarrow> None
      | Some ((_, bs), es) \<Rightarrow>
          (let size_buffer = bs @ replicate (INT_SIZE - length bs) NUL;
               payload_size = atoi (c_str size_buffer)
           in if payload_size < 0 then Some (Inl Length_Error)
              else recv_loop payload_size 0 0 (replicate (nat payload_size) NUL) es))"

definition recv_msg ::
  "(string \<Rightarrow> i32 \<times> i64) \<Rightarrow> recv_res list \<Rightarrow> ((i32 \<times> i64) \<times> recv_res list) res option" where
  "recv_msg parse evs =
     map_option (map_sum id (\<lambda>(buffer, es). (parse buffer, es))) (recv_body evs)"

lemma recv_loop_decreases:
  "recv_loop p i n b evs = Some (Inr (b', es)) \<Longrightarrow> events_size es < events_size evs"
proof (induction p i n b evs rule: recv_loop.induct)
  case (1 p i n b evs)
  then obtain r bs es1 where rd: "read_call 1 evs = Some ((r, bs), es1)"
    by (subst (asm) recv_loop.simps) (auto split: option.splits)
  have lt: "events_size es1 < events_size evs" using rd by (rule read_call_decreases) simp
  have ok: "\<not> (length b < i \<or> length b = i \<and> bs \<noteq> [])"
    using 1(2) rd by (subst (asm) recv_loop.simps) (auto split: if_splits)
  show ?case
  proof (cases "n + r < p")
    case True
    with 1(2) rd ok have
      "recv_loop p (Suc i) (n + r) (if bs = [] then b else b[i := hd bs]) es1 = Some (Inr (b', es))"
      by (subst (asm) recv_loop.simps) (auto simp: Let_def)
    from 1(1) [OF rd refl refl ok refl refl True this] lt show ?thesis by simp
  next
    case False
    with 1(2) rd ok lt show ?thesis
      by (subst (asm) recv_loop.simps) (auto simp: Let_def split: if_splits)
  qed
qed

lemma recv_body_decreases:
  "recv_body evs = Some (Inr (b, es)) \<Longrightarrow> events_size es < events_size evs"
  unfolding recv_body_def
  by (auto simp: Let_def INT_SIZE_def split: option.splits if_splits
      dest!: recv_loop_decreases read_call_decreases)

lemma recv_msg_decreases:
  "recv_msg parse evs = Some (Inr (m, es)) \<Longrightarrow> events_size es < events_size evs"
  by (cases "recv_body evs" rule: option.exhaust; cases "the (recv_body evs)")
     (auto simp: recv_msg_def dest: recv_body_decreases)

subsection \<open>\<open>server.cpp\<close>\<close>

text \<open>The inner loop of the server on one connection: what it leaves in the counter, what it
  sends and what it prints when the client has terminated.\<close>

function serve_conn ::
  "(string \<Rightarrow> i32 \<times> i64) \<Rightarrow> (i32 \<Rightarrow> i64 \<Rightarrow> string) \<Rightarrow> i64 \<Rightarrow> recv_res list
     \<Rightarrow> (i64 \<times> string \<times> string) res option" where
  "serve_conn parse ser number evs =
     (case recv_msg parse evs of
        None \<Rightarrow> None
      | Some (Inl f) \<Rightarrow> Some (Inl f)
      | Some (Inr ((operation_type, argument), es)) \<Rightarrow>
          (if operation_type = OPERATION_ADD then serve_conn parse ser (number + argument) es
           else if operation_type = OPERATION_SUB then serve_conn parse ser (number - argument) es
           else if operation_type = OPERATION_TERMINATION then
             Some (Inr (number, encode_body (ser OPERATION_COUNTER number),
                        to_string (sint number) @ [CHR 0x0A]))
           else serve_conn parse ser number es))"
  by pat_completeness auto
termination
  by (relation "measure (\<lambda>(_, _, _, evs). events_size evs)") (auto dest: recv_msg_decreases)

declare serve_conn.simps [simp del]

text \<open>The outer loop: connections are served one after the other on the same counter.\<close>

fun serve_all ::
  "(string \<Rightarrow> i32 \<times> i64) \<Rightarrow> (i32 \<Rightarrow> i64 \<Rightarrow> string) \<Rightarrow> i64 \<Rightarrow> recv_res list list
     \<Rightarrow> (i64 \<times> (string \<times> string) list) res option" where
  "serve_all parse ser number [] = Some (Inr (number, []))"
| "serve_all parse ser number (c # cs) =
     (case serve_conn parse ser number c of
        None \<Rightarrow> None
      | Some (Inl f) \<Rightarrow> Some (Inl f)
      | Some (Inr (number', reply, line)) \<Rightarrow>
          map_option (map_sum id (\<lambda>(n, rs). (n, (reply, line) # rs)))
            (serve_all parse ser number' cs))"

subsection \<open>\<open>client.cpp\<close>\<close>

definition client_msgs :: "i32 \<Rightarrow> i32 \<Rightarrow> i32 \<Rightarrow> (i32 \<times> i64) list" where
  "client_msgs numMessages add sub =
     map (\<lambda>i. if i mod 2 = 0 then (OPERATION_ADD, scast add) else (OPERATION_SUB, scast sub))
       [0..<nat (sint numMessages)] @ [(OPERATION_TERMINATION, 0)]"

text \<open>What the client puts on the wire when every \<open>send\<close> takes the whole message.\<close>

definition client_bytes :: "(i32 \<Rightarrow> i64 \<Rightarrow> string) \<Rightarrow> (i32 \<times> i64) list \<Rightarrow> string" where
  "client_bytes ser ms = concat (map (\<lambda>(op, arg). encode_body (ser op arg)) ms)"

definition client_finish :: "(string \<Rightarrow> i32 \<times> i64) \<Rightarrow> recv_res list \<Rightarrow> string res option" where
  "client_finish parse evs =
     map_option (map_sum id (\<lambda>((_, argument), _). to_string (sint argument) @ [CHR 0x0A]))
       (recv_msg parse evs)"


subsection \<open>The transport\<close>

lemma nat_str_le_4: "n < 10000 \<Longrightarrow> length (nat_str n) \<le> 4"
  using length_nat_str_le [of n 3] by simp

lemma size_string_props:
  assumes "n < 10000"
  shows "length (size_string n) = 4" "atoi (size_string n) = int n" "NUL \<notin> set (size_string n)"
proof -
  have l: "length (nat_str n) \<le> 4" using assms by (rule nat_str_le_4)
  then show "length (size_string n) = 4" by (simp add: size_string_def INT_SIZE_def Let_def)
  have "list_all is_digit (size_string n)"
    using nat_str_digits [of n] by (auto simp: size_string_def Let_def list_all_iff is_digit_def)
  then show "atoi (size_string n) = int n" "NUL \<notin> set (size_string n)"
    by (auto simp: atoi_digits size_string_def Let_def digits_val_zeros digits_val_nat_str)
qed

definition small_payload :: "string \<Rightarrow> bool" where
  "small_payload p \<longleftrightarrow> 0 < length p \<and> length p < 10000"

text \<open>Everything the peer has sent is already in the kernel's buffer.\<close>

definition chunk :: "string \<Rightarrow> recv_res list" where
  "chunk bs = (if bs = [] then [] else [Got bs])"

lemma chunk_simps [simp]: "chunk [] = []" "bs \<noteq> [] \<Longrightarrow> chunk bs = [Got bs]"
  by (simp_all add: chunk_def)

lemma recv_bytes_chunk [simp]: "recv_bytes (chunk bs) = bs"
  by (simp add: chunk_def)

definition buffered :: "recv_res list \<Rightarrow> bool" where
  "buffered evs \<longleftrightarrow> evs = chunk (recv_bytes evs)"

lemma buffered_chunk [simp]: "buffered (chunk bs)"
  by (simp add: buffered_def)

lemma buffered_eq: "buffered evs \<Longrightarrow> recv_bytes evs = bs \<Longrightarrow> evs = chunk bs"
  unfolding buffered_def by (erule subst)

lemma recv_loop_reads:
  "i < p \<Longrightarrow> length buf = p \<Longrightarrow> length xs = p - i \<Longrightarrow>
     recv_loop (int p) i (int i) buf [Got (xs @ ys)] = Some (Inr (take i buf @ xs, chunk ys))"
proof (induction xs arbitrary: i buf)
  case Nil
  then show ?case by simp
next
  case (Cons x xs)
  have rd: "read_call 1 [Got ((x # xs) @ ys)] = Some ((1, [x]), chunk (xs @ ys))"
    by (cases "xs @ ys = []") (auto simp del: append_is_Nil_conv simp: chunk_def)
  show ?case
  proof (cases "Suc i < p")
    case True
    then have "xs \<noteq> []" using Cons.prems by auto
    with True Cons.prems rd have
      "recv_loop (int p) i (int i) buf [Got ((x # xs) @ ys)] =
       recv_loop (int p) (Suc i) (int (Suc i)) (buf[i := x]) [Got (xs @ ys)]"
      by (subst recv_loop.simps) (simp add: Let_def add.commute)
    also have "\<dots> = Some (Inr (take (Suc i) (buf[i := x]) @ xs, chunk ys))"
      using True Cons.prems by (intro Cons.IH) auto
    also have "take (Suc i) (buf[i := x]) = take i buf @ [x]"
      using Cons.prems by (simp add: take_Suc_conv_app_nth)
    finally show ?thesis by simp
  next
    case False
    with Cons.prems have p: "p = Suc i" by simp
    with Cons.prems have "length (x # xs) = Suc 0" by simp
    with p have p: "p = Suc i" "xs = []" by simp_all
    have "buf[i := x] = take i buf @ [x]"
      using Cons.prems p by (simp add: upd_conv_take_nth_drop)
    with p Cons.prems show ?thesis
      by (subst recv_loop.simps) (simp add: Let_def)
  qed
qed

lemma recv_body_encode:
  assumes "small_payload p"
  shows "recv_body (chunk (encode_body p @ rest)) = Some (Inr (p, chunk rest))"
proof -
  let ?h = "size_string (length p)"
  have n: "length p < 10000" "0 < length p" using assms by (simp_all add: small_payload_def)
  have sz: "unat (word_of_nat (length p) :: u32) = length p"
    using n by (simp add: unat_of_nat)
  note h = size_string_props [OF n(1)]
  have enc: "encode_body p @ rest = ?h @ p @ rest" by (simp add: encode_body_def sz)
  have ne: "encode_body p @ rest \<noteq> []" "p @ rest \<noteq> []" using n by (auto simp: enc)
  have rd: "read_call INT_SIZE (chunk (encode_body p @ rest)) = Some ((4, ?h), [Got (p @ rest)])"
    using h ne n by (simp add: enc INT_SIZE_def)
  have c: "c_str (?h @ replicate (INT_SIZE - length ?h) NUL) = ?h"
    using h by (simp add: INT_SIZE_def)
  have "recv_loop (int (length p)) 0 (int 0) (replicate (length p) NUL) [Got (p @ rest)]
      = Some (Inr (p, chunk rest))"
    using n recv_loop_reads [of 0 "length p" "replicate (length p) NUL" p rest] by simp
  with h c show ?thesis
    unfolding recv_body_def rd by (simp add: Let_def)
qed

definition body_recv :: "recv_res list \<Rightarrow> (string \<times> recv_res list) option" where
  "body_recv evs = (case recv_body evs of Some (Inr r) \<Rightarrow> Some r | _ \<Rightarrow> None)"

interpretation ascii: framed_transport encode_body body_recv id small_payload buffered
proof unfold_locales
  fix p evs rest
  assume p: "small_payload p" and "buffered evs" "recv_bytes evs = encode_body p @ rest"
  then have "evs = chunk (encode_body p @ rest)" by (simp only: buffered_eq)
  with p show "\<exists>evs'. body_recv evs = Some (id p, evs') \<and> recv_bytes evs' = rest \<and> buffered evs'"
    by (simp add: body_recv_def recv_body_encode del: chunk_simps)
qed


lemma recv_msg_encode:
  "small_payload (ser op arg) \<Longrightarrow> parse (ser op arg) = m \<Longrightarrow>
     recv_msg parse (chunk (encode_body (ser op arg) @ rest)) = Some (Inr (m, chunk rest))"
  by (simp add: recv_msg_def recv_body_encode del: chunk_simps)

subsection \<open>What the service computes\<close>

text \<open>The abstract service: the counter after a list of requests.\<close>

fun apply_msg :: "i64 \<Rightarrow> i32 \<times> i64 \<Rightarrow> i64" where
  "apply_msg number (op, arg) =
     (if op = OPERATION_ADD then number + arg
      else if op = OPERATION_SUB then number - arg else number)"

definition counter_line :: "i64 \<Rightarrow> string" where
  "counter_line number = to_string (sint number) @ [CHR 0x0A]"

text \<open>What the model relies on in the generated protobuf code: a message whose \<open>type\<close> is one of the
  four constants of the enum, which is closed, is parsed as it was serialised.\<close>

definition operation_types :: "i32 list" where
  "operation_types = [OPERATION_ADD, OPERATION_SUB, OPERATION_TERMINATION, OPERATION_COUNTER]"

definition codec_ok :: "(i32 \<Rightarrow> i64 \<Rightarrow> string) \<Rightarrow> (string \<Rightarrow> i32 \<times> i64) \<Rightarrow> bool" where
  "codec_ok ser parse \<longleftrightarrow>
     (\<forall>op\<in>set operation_types. \<forall>arg. parse (ser op arg) = (op, arg) \<and> small_payload (ser op arg))"

lemma codec_okD:
  "codec_ok ser parse \<Longrightarrow> op \<in> set operation_types \<Longrightarrow> parse (ser op arg) = (op, arg)"
  "codec_ok ser parse \<Longrightarrow> op \<in> set operation_types \<Longrightarrow> small_payload (ser op arg)"
  by (auto simp: codec_ok_def)

lemma types_of_operations [simp]:
  "OPERATION_ADD \<in> set operation_types" "OPERATION_SUB \<in> set operation_types"
  "OPERATION_TERMINATION \<in> set operation_types" "OPERATION_COUNTER \<in> set operation_types"
  by (simp_all add: operation_types_def)

lemma serve_conn_step:
  assumes "codec_ok ser parse" "op \<in> set operation_types"
  shows "serve_conn parse ser number (chunk (encode_body (ser op arg) @ rest)) =
    (if op = OPERATION_TERMINATION then
       Some (Inr (number, encode_body (ser OPERATION_COUNTER number), counter_line number))
     else serve_conn parse ser (apply_msg number (op, arg)) (chunk rest))"
  using assms
  by (subst serve_conn.simps)
     (simp add: recv_msg_encode codec_okD counter_line_def operation_defs del: chunk_simps)

lemma serve_conn_msgs:
  assumes "codec_ok ser parse" "\<forall>(op, arg)\<in>set ms. op \<in> set operation_types \<and> op \<noteq> OPERATION_TERMINATION"
  shows "serve_conn parse ser number
      (chunk (client_bytes ser (ms @ [(OPERATION_TERMINATION, a)]) @ rest)) =
    (let n = foldl apply_msg number ms
     in Some (Inr (n, encode_body (ser OPERATION_COUNTER n), counter_line n)))"
  using assms(2)
proof (induction ms arbitrary: number)
  case Nil
  then show ?case
    by (simp add: client_bytes_def serve_conn_step [OF assms(1)] del: chunk_simps)
next
  case (Cons m ms)
  obtain op arg where m: "m = (op, arg)" by (cases m)
  with Cons.prems have "op \<in> set operation_types" "op \<noteq> OPERATION_TERMINATION" by auto
  with m Cons show ?case
    by (simp add: client_bytes_def serve_conn_step [OF assms(1)] del: chunk_simps apply_msg.simps)
qed

definition alternating_sum :: "nat \<Rightarrow> i64 \<Rightarrow> i64 \<Rightarrow> i64" where
  "alternating_sum n add sub =
     word_of_nat ((n + 1) div 2) * add - word_of_nat (n div 2) * sub"

lemma foldl_alternating:
  "foldl apply_msg c (map (\<lambda>i. if i mod 2 = 0 then (OPERATION_ADD, a) else (OPERATION_SUB, s)) [0..<n])
     = c + alternating_sum n a s"
proof (induction n)
  case 0
  then show ?case by (simp add: alternating_sum_def)
next
  case (Suc n)
  show ?case
  proof (cases "even n")
    case True
    then have "(Suc n + 1) div 2 = Suc ((n + 1) div 2)" "Suc n div 2 = n div 2" "n mod 2 = 0"
      by presburger+
    with Suc show ?thesis by (simp add: alternating_sum_def operation_defs algebra_simps)
  next
    case False
    then have "(Suc n + 1) div 2 = (n + 1) div 2" "Suc n div 2 = Suc (n div 2)" "n mod 2 = 1"
      by presburger+
    with Suc show ?thesis by (simp add: alternating_sum_def operation_defs algebra_simps)
  qed
qed

abbreviation client_total :: "i32 \<Rightarrow> i32 \<Rightarrow> i32 \<Rightarrow> i64" where
  "client_total n add sub \<equiv> alternating_sum (nat (sint n)) (scast add) (scast sub)"

lemma serve_client:
  assumes "codec_ok ser parse"
  shows "serve_conn parse ser number (chunk (client_bytes ser (client_msgs n add sub))) =
    (let c = number + client_total n add sub
     in Some (Inr (c, encode_body (ser OPERATION_COUNTER c), counter_line c)))"
proof -
  let ?ms = "map (\<lambda>i. if i mod 2 = 0 then (OPERATION_ADD, scast add)
      else (OPERATION_SUB, scast sub)) [0..<nat (sint n)] :: (i32 \<times> i64) list"
  have "\<forall>(op, arg)\<in>set ?ms. op \<in> set operation_types \<and> op \<noteq> OPERATION_TERMINATION"
    by (auto simp: operation_types_def operation_defs)
  from serve_conn_msgs [OF assms this, of number 0 "[]"] show ?thesis
    by (simp add: client_msgs_def foldl_alternating del: chunk_simps)
qed

text \<open>C10: one client of task 0 with \<open><num_messages> <add> <sub>\<close>: the server ends the
  connection, its counter has grown by the alternating sum modulo \<open>2 ^ 64\<close> (half the messages
  rounded up times \<open>add\<close>, minus half rounded down times \<open>sub\<close>, both sign-extended from 32
  bits), and the line the client prints is the line the server prints.\<close>

theorem client_server_agree:
  assumes "codec_ok ser parse"
  shows "\<exists>reply.
    serve_conn parse ser number (chunk (client_bytes ser (client_msgs n add sub))) =
      Some (Inr (number + client_total n add sub, reply,
                 counter_line (number + client_total n add sub)))
    \<and> client_finish parse (chunk reply) =
      Some (Inr (counter_line (number + client_total n add sub)))"
proof -
  let ?c = "number + client_total n add sub"
  have "recv_msg parse (chunk (encode_body (ser OPERATION_COUNTER ?c) @ [])) =
      Some (Inr ((OPERATION_COUNTER, ?c), chunk []))"
    using codec_okD [OF assms] by (intro recv_msg_encode) simp_all
  then have "client_finish parse (chunk (encode_body (ser OPERATION_COUNTER ?c))) =
      Some (Inr (counter_line ?c))"
    by (simp add: client_finish_def counter_line_def del: chunk_simps)
  then show ?thesis
    using serve_client [OF assms, of number n add sub] by (auto simp: Let_def simp del: chunk_simps)
qed

text \<open>A codec for the witnesses: both fields in decimal; a \<open>type\<close> that is not in the enum is
  dropped, so that the accessor gives the first constant.\<close>

definition dec_ser :: "i32 \<Rightarrow> i64 \<Rightarrow> string" where
  "dec_ser op arg = to_string (sint op) @ CHR ''/'' # to_string (sint arg)"

definition dec_parse :: "string \<Rightarrow> i32 \<times> i64" where
  "dec_parse s = (let op = takeWhile (\<lambda>c. c \<noteq> CHR ''/'') s
     in (if word_of_int (atoi op) \<in> set operation_types then word_of_int (atoi op)
         else OPERATION_ADD, word_of_int (atoi (drop (Suc (length op)) s))))"

lemma length_to_string: "\<bar>i\<bar> < 10 ^ Suc k \<Longrightarrow> length (to_string i) \<le> Suc (Suc k)"
  using length_nat_str_le [of "nat \<bar>i\<bar>" k]
  by (cases "i < 0") (auto simp: to_string_def nat_less_iff le_SucI)

lemma slash_notin_nat_str [simp]: "CHR ''/'' \<notin> set (nat_str n)"
  using nat_str_digits [of n] by (auto simp: list_all_iff is_digit_def)

lemma slash_notin_to_string [simp]: "CHR ''/'' \<notin> set (to_string i)"
  by (simp add: to_string_def)

lemma dec_codec_ok: "codec_ok dec_ser dec_parse"
proof -
  have t: "takeWhile (\<lambda>c. c \<noteq> CHR ''/'') (xs @ CHR ''/'' # ys) = xs"
    if "CHR ''/'' \<notin> set xs" for xs ys :: string
    using that by (induction xs) auto
  have "dec_parse (dec_ser op arg) = (op, arg)" if "op \<in> set operation_types" for op arg
    using that by (simp add: dec_parse_def dec_ser_def t Let_def atoi_to_string)
  moreover have "small_payload (dec_ser op arg)" for op arg
  proof -
    have "\<bar>sint op\<bar> < 10 ^ Suc 10" using sint_range_size [of op] by (auto simp: word_size)
    then have 1: "length (to_string (sint op)) \<le> 12" using length_to_string by fastforce
    have "\<bar>sint arg\<bar> < 10 ^ Suc 19" using sint_range_size [of arg] by (auto simp: word_size)
    then have "length (to_string (sint arg)) \<le> 21" using length_to_string by fastforce
    with 1 show ?thesis by (simp add: small_payload_def dec_ser_def)
  qed
  ultimately show ?thesis by (simp add: codec_ok_def)
qed

theorem client_server_agree_witness:
  "\<exists>reply.
    serve_conn dec_parse dec_ser 5 (chunk (client_bytes dec_ser (client_msgs 4 2 1))) =
      Some (Inr (7, reply, counter_line 7))
    \<and> client_finish dec_parse (chunk reply) = Some (Inr (counter_line 7))"
proof -
  have "(5 :: i64) + client_total 4 2 1 = 7" by (simp add: alternating_sum_def)
  with client_server_agree [OF dec_codec_ok, of 5 4 2 1] show ?thesis by metis
qed


fun running_totals :: "i64 \<Rightarrow> (i32 \<times> i32 \<times> i32) list \<Rightarrow> i64 list" where
  "running_totals c [] = []"
| "running_totals c ((n, add, sub) # cs) =
     (let c' = c + client_total n add sub in c' # running_totals c' cs)"

definition last_total :: "i64 \<Rightarrow> i64 list \<Rightarrow> i64" where
  "last_total c ts = (if ts = [] then c else last ts)"

lemma serve_all_clients:
  assumes "codec_ok ser parse"
  shows "serve_all parse ser number
      (map (\<lambda>(n, add, sub). chunk (client_bytes ser (client_msgs n add sub))) cs) =
    Some (Inr (last_total number (running_totals number cs),
      map (\<lambda>c. (encode_body (ser OPERATION_COUNTER c), counter_line c)) (running_totals number cs)))"
proof (induction cs arbitrary: number)
  case Nil
  then show ?case by (simp add: last_total_def)
next
  case (Cons x cs)
  obtain n a s where x: "x = (n, a, s)" by (cases x)
  show ?case
    by (simp add: x serve_client [OF assms] Cons.IH Let_def last_total_def del: chunk_simps)
qed

text \<open>Clients served one after the other share the counter: after any list of clients the
  counter is the sum of their totals, and every client is told the running total at its turn.\<close>

theorem sequential_clients:
  assumes "codec_ok ser parse"
  shows "serve_all parse ser number
      (map (\<lambda>(n, add, sub). chunk (client_bytes ser (client_msgs n add sub))) cs) =
    Some (Inr (number + sum_list (map (\<lambda>(n, add, sub). client_total n add sub) cs),
      map (\<lambda>c. (encode_body (ser OPERATION_COUNTER c), counter_line c)) (running_totals number cs)))"
proof -
  have "last_total c (running_totals c cs) =
      c + sum_list (map (\<lambda>(n, add, sub). client_total n add sub) cs)" for c
    by (induction cs arbitrary: c) (auto simp: last_total_def Let_def split: if_splits)
  with serve_all_clients [OF assms] show ?thesis by simp
qed

theorem sequential_clients_witness:
  "serve_all dec_parse dec_ser 0
      (map (\<lambda>(n, add, sub). chunk (client_bytes dec_ser (client_msgs n add sub))) [(4, 2, 1), (1, 3, 9)]) =
    Some (Inr (5, [(encode_body (dec_ser OPERATION_COUNTER 2), counter_line 2),
                   (encode_body (dec_ser OPERATION_COUNTER 5), counter_line 5)]))"
proof -
  have "client_total 4 2 1 = (2 :: i64)" "client_total 1 3 9 = (3 :: i64)"
    by (simp_all add: alternating_sum_def)
  then show ?thesis
    using sequential_clients [OF dec_codec_ok, of 0 "[(4, 2, 1), (1, 3, 9)]"]
    by (simp add: Let_def del: chunk_simps)
qed

subsection \<open>Where the protocol breaks\<close>

text \<open>A message of fewer than ten bytes whose header arrives in two pieces is not
  received: the single \<open>read\<close> of the header takes the zeros that are there for a length of
  0, and the next byte is stored over the terminator of an empty buffer.\<close>

theorem short_header_read:
  assumes "length p < 10" "0 < j" "j < 4"
  shows "recv_body [Got (take j (encode_body p)), Got (drop j (encode_body p))]
    = Some (Inl Out_Of_Range)"
proof -
  let ?z = "replicate j (CHR ''0'')" and ?r = "replicate (3 - j) (CHR ''0'') @ digit (length p) # p"
  have sz: "unat (word_of_nat (length p) :: u32) = length p"
    using assms(1) by (simp add: unat_of_nat)
  have ns: "nat_str (length p) = [digit (length p)]"
    using assms(1) by (subst nat_str.simps) simp
  have e: "encode_body p = ?z @ ?r"
    using assms by (simp add: encode_body_def size_string_def sz ns Let_def INT_SIZE_def
        flip: replicate_add append_assoc)
  have nz: "NUL \<notin> set ?z" by simp
  have "atoi (c_str (?z @ replicate (4 - j) NUL)) = 0"
  proof -
    have "c_str (?z @ replicate (4 - j) NUL) = ?z"
      using c_str_stop [OF nz, of "replicate (3 - j) NUL"] assms
      by (metis Suc_diff_Suc diff_Suc_Suc eval_nat_numeral(2) eval_nat_numeral(3) replicate_Suc
          semiring_norm(26) semiring_norm(27) semiring_norm(28))
    moreover have "atoi ?z = 0"
      using digits_val_zeros [of j "[]"] assms(2)
      by (subst atoi_digits) (auto simp: list_all_iff is_digit_def digits_val_def)
    ultimately show ?thesis by simp
  qed
  then show ?thesis
    using assms
    by (simp add: e recv_body_def INT_SIZE_def Let_def recv_loop.simps
        split: option.splits)
qed

theorem short_header_read_witness:
  "recv_body [Got (take 2 (encode_body ''hello'')), Got (drop 2 (encode_body ''hello''))]
    = Some (Inl Out_Of_Range)"
  by (rule short_header_read) simp_all

lemma recv_body_closed:
  "recv_body (replicate k (Got [])) =
     (if 2 \<le> k then Some (Inr ([], replicate (k - 2) (Got []))) else None)"
proof (cases "k = 0 \<or> k = 1")
  case True
  then show ?thesis by (auto simp: recv_body_def atoi.simps c_str_def recv_loop.simps)
next
  case False
  then obtain m where "k = Suc (Suc m)" by (metis One_nat_def old.nat.exhaust)
  then show ?thesis
    by (simp add: recv_body_def atoi.simps c_str_def recv_loop.simps INT_SIZE_def Let_def)
qed

text \<open>A client that closes its connection without a TERMINATION message stops the whole
  service: every \<open>recv_msg\<close> on the closed socket succeeds with the defaults of an empty
  message, so the inner loop never ends and no other client is accepted.\<close>

theorem closed_client_blocks_server:
  assumes "fst (parse []) \<noteq> OPERATION_TERMINATION"
  shows "serve_conn parse ser number (replicate k (Got [])) = None"
proof (induction k arbitrary: number rule: less_induct)
  case (less k)
  show ?case
  proof (cases "2 \<le> k")
    case True
    then have "serve_conn parse ser n (replicate (k - 2) (Got [])) = None" for n
      by (intro less) simp
    with True assms show ?thesis
      by (cases "parse []", subst serve_conn.simps) (simp add: recv_msg_def recv_body_closed)
  next
    case False
    then show ?thesis
      by (subst serve_conn.simps) (simp add: recv_msg_def recv_body_closed)
  qed
qed

theorem closed_client_blocks_server_witness:
  "serve_conn (\<lambda>s. if s = [] then (OPERATION_ADD, 0) else dec_parse s) dec_ser 0
     (replicate 6 (Got [])) = None"
  by (rule closed_client_blocks_server) (simp add: operation_defs)

end
