(* ===== verification/ShardMaster.thy ===== *)
theory ShardMaster
  imports Framing
begin

section \<open>Task 2: messages and the master of the sharded store\<close>

text \<open>
  The message of \<open>task2/source/client_message.proto\<close> as its generated class presents it
  (a field that is not set reads as its default, the type as the first constant of the
  enum), and \<open>task2/source/master_server.cpp\<close>: the numbering of the servers as they join,
  the routing of client requests, and the redistribution of all keys from the third server on.
\<close>

subsection \<open>Messages\<close>

datatype op_type = PUT | GET | SERVER | REPLY | MASTER_PUT | REORG | REORG_PUT

record shard_msg =
  m_type :: "op_type option"
  m_key :: "i32 option"
  m_value :: "string option"
  m_port :: "i32 option"
  m_status :: "i32 option"

definition empty_msg :: shard_msg where
  "empty_msg = \<lparr>m_type = None, m_key = None, m_value = None, m_port = None, m_status = None\<rparr>"

definition type_of :: "shard_msg \<Rightarrow> op_type" where
  "type_of m = (case m_type m of None \<Rightarrow> PUT | Some t \<Rightarrow> t)"

definition key_of :: "shard_msg \<Rightarrow> i32" where
  "key_of m = (case m_key m of None \<Rightarrow> 0 | Some k \<Rightarrow> k)"

definition value_of :: "shard_msg \<Rightarrow> string" where
  "value_of m = (case m_value m of None \<Rightarrow> [] | Some v \<Rightarrow> v)"

definition port_of :: "shard_msg \<Rightarrow> i32" where
  "port_of m = (case m_port m of None \<Rightarrow> 0 | Some p \<Rightarrow> p)"

definition status_of :: "shard_msg \<Rightarrow> i32" where
  "status_of m = (case m_status m of None \<Rightarrow> 0 | Some s \<Rightarrow> s)"

lemmas getter_defs = type_of_def key_of_def value_of_def port_of_def status_of_def

definition key_msg :: "op_type \<Rightarrow> i32 \<Rightarrow> shard_msg" where
  "key_msg t k = empty_msg\<lparr>m_type := Some t, m_key := Some k\<rparr>"

definition put_msg :: "op_type \<Rightarrow> i32 \<Rightarrow> string \<Rightarrow> shard_msg" where
  "put_msg t k v = (key_msg t k)\<lparr>m_value := Some v\<rparr>"

definition port_msg :: "op_type \<Rightarrow> i32 \<Rightarrow> shard_msg" where
  "port_msg t p = empty_msg\<lparr>m_type := Some t, m_port := Some p\<rparr>"

lemmas msg_defs = empty_msg_def key_msg_def put_msg_def port_msg_def

lemma getters [simp]:
  "type_of (key_msg t k) = t" "key_of (key_msg t k) = k"
  "type_of (put_msg t k v) = t" "key_of (put_msg t k v) = k" "value_of (put_msg t k v) = v"
  "type_of (port_msg t p) = t" "port_of (port_msg t p) = p"
  "type_of (m\<lparr>m_type := Some t\<rparr>) = t" "key_of (m\<lparr>m_type := x\<rparr>) = key_of m"
  "value_of (m\<lparr>m_type := x\<rparr>) = value_of m"
  by (simp_all add: getter_defs msg_defs)

text \<open>\<open>sendWrapper\<close>; the generated serialiser is a parameter.\<close>

definition sendWrapper :: "('m \<Rightarrow> string) \<Rightarrow> 'm \<Rightarrow> send_res list \<Rightarrow> (nat option \<times> string) option" where
  "sendWrapper ser m sends = (let buffer = ser m in secure_send (frame buffer) sends)"

subsection \<open>The master\<close>

record master =
  num_servers :: int
  server_port_map :: "(int, i32) smap"
  kv_map :: "(int, string) smap"

definition master_init :: master where
  "master_init = \<lparr>num_servers = 0, server_port_map = [], kv_map = []\<rparr>"

text \<open>\<open>(key % num_servers) + 1\<close> and the \<open>find(shard)->second\<close> that follows it: C's
  remainder has the sign of the key, and \<open>find\<close> may return \<open>end()\<close>.\<close>

definition shard_of :: "int \<Rightarrow> int \<Rightarrow> int" where
  "shard_of key n = key smod n + 1"

definition shard_port :: "master \<Rightarrow> int \<Rightarrow> i32 res" where
  "shard_port st key =
     (if num_servers st = 0 then Inl Div_By_Zero
      else (case map_of (server_port_map st) (shard_of key (num_servers st)) of
          None \<Rightarrow> Inl Out_Of_Range
        | Some p \<Rightarrow> Inr p))"

type_synonym sends = "(i32 \<times> shard_msg) list"

text \<open>The two loops of a redistribution. \<open>up p\<close> says whether \<open>connect_socket\<close> to port \<open>p\<close>
  succeeds; a failure ends the process with \<open>exit(1)\<close> after what was sent before.\<close>

fun send_reorg :: "(i32 \<Rightarrow> bool) \<Rightarrow> (int \<times> i32) list \<Rightarrow> sends \<times> unit res" where
  "send_reorg up [] = ([], Inr ())"
| "send_reorg up ((_, p) # m) =
     (if up p then
        (case send_reorg up m of (ss, r) \<Rightarrow> ((p, empty_msg\<lparr>m_type := Some REORG\<rparr>) # ss, r))
      else ([], Inl (Exit 1)))"

fun send_puts :: "(i32 \<Rightarrow> bool) \<Rightarrow> master \<Rightarrow> (int \<times> string) list \<Rightarrow> sends \<times> unit res" where
  "send_puts up st [] = ([], Inr ())"
| "send_puts up st ((k, v) # m) =
     (case shard_port st k of
        Inl f \<Rightarrow> ([], Inl f)
      | Inr p \<Rightarrow>
          (if up p then
             (case send_puts up st m of
                (ss, r) \<Rightarrow> ((p, put_msg REORG_PUT (word_of_int k) v) # ss, r))
           else ([], Inl (Exit 1))))"

definition redistribute :: "(i32 \<Rightarrow> bool) \<Rightarrow> master \<Rightarrow> sends \<times> master res" where
  "redistribute up st =
     (case send_reorg up (server_port_map st) of
        (ss, Inl f) \<Rightarrow> (ss, Inl f)
      | (ss, Inr _) \<Rightarrow>
          (case send_puts up st (kv_map st) of
             (ss', r) \<Rightarrow> (ss @ ss', map_sum id (\<lambda>_. st) r)))"

text \<open>One message: what is sent to servers, the reply on the same connection, the new state.\<close>

definition master_step ::
  "(i32 \<Rightarrow> bool) \<Rightarrow> shard_msg \<Rightarrow> master \<Rightarrow> sends \<times> shard_msg option \<times> master res" where
  "master_step up m st =
     (case type_of m of
        MASTER_PUT \<Rightarrow>
          ([], None, Inr (st\<lparr>kv_map := smap_insert (sint (key_of m)) (value_of m) (kv_map st)\<rparr>))
      | SERVER \<Rightarrow>
          (let n = num_servers st + 1;
               st' = st\<lparr>num_servers := n,
                        server_port_map := smap_insert n (port_of m) (server_port_map st)\<rparr>
           in if n \<ge> 3 then (case redistribute up st' of (ss, r) \<Rightarrow> (ss, None, r))
              else ([], None, Inr st'))
      | GET \<Rightarrow>
          (case shard_port st (sint (key_of m)) of
             Inl f \<Rightarrow> ([], None, Inl f)
           | Inr p \<Rightarrow> ([], Some (port_msg REPLY p), Inr st))
      | PUT \<Rightarrow>
          (case shard_port st (sint (key_of m)) of
             Inl f \<Rightarrow> ([], None, Inl f)
           | Inr p \<Rightarrow> ([], Some (port_msg REPLY p), Inr st))
      | _ \<Rightarrow> ([], None, Inr st))"

text \<open>The body of the accept loop, on what \<open>secure_recv\<close> returned.\<close>

definition master_iteration ::
  "(string \<Rightarrow> shard_msg) \<Rightarrow> (i32 \<Rightarrow> bool) \<Rightarrow> nat \<times> string option \<Rightarrow> master
     \<Rightarrow> sends \<times> shard_msg option \<times> master res" where
  "master_iteration parse up res st =
     (if fst res = 0 then ([], None, Inr st)
      else (case parse_buffer parse (snd res) of
          Inl f \<Rightarrow> ([], None, Inl f)
        | Inr m \<Rightarrow> master_step up m st))"

subsection \<open>Invariant: the servers are numbered from 1\<close>

definition master_ok :: "master \<Rightarrow> bool" where
  "master_ok st \<longleftrightarrow> 0 \<le> num_servers st
     \<and> smap_ok (server_port_map st) \<and> smap_ok (kv_map st)
     \<and> (\<forall>i. map_of (server_port_map st) i = None \<longleftrightarrow> i < 1 \<or> num_servers st < i)"

lemma master_init_ok [simp]: "master_ok master_init"
  by (auto simp: master_ok_def master_init_def)

lemma redistribute_state: "redistribute up st = (ss, Inr st') \<Longrightarrow> st' = st"
  by (auto simp: redistribute_def split: prod.splits sum.splits)
     (metis Inl_Inr_False map_sum.simps old.sum.exhaust sum.inject(2))

lemma join_ok:
  assumes "master_ok st"
  shows "master_ok (st\<lparr>num_servers := num_servers st + 1,
     server_port_map := smap_insert (num_servers st + 1) p (server_port_map st)\<rparr>)"
proof -
  have "map_of (server_port_map st) (num_servers st + 1) = None"
    using assms by (simp add: master_ok_def)
  with assms show ?thesis by (auto simp: master_ok_def smap_ok_insert map_of_smap_insert)
qed

lemma master_step_ok:
  assumes "master_ok st" "master_step up m st = (ss, r, Inr st')"
  shows "master_ok st'"
proof (cases "type_of m")
  case SERVER
  with assms join_ok [OF assms(1), of "port_of m"] show ?thesis
    by (auto simp: master_step_def Let_def split: if_splits prod.splits dest: redistribute_state)
qed (use assms in \<open>auto simp: master_step_def master_ok_def smap_ok_insert split: sum.splits\<close>)

lemma shard_of_range: "0 \<le> key \<Longrightarrow> 0 < n \<Longrightarrow> 1 \<le> shard_of key n \<and> shard_of key n \<le> n"
  using smod_int_compares(1,2) [of key n] by (simp add: shard_of_def)

lemma shard_of_nonneg: "0 \<le> key \<Longrightarrow> 0 < n \<Longrightarrow> shard_of key n = key mod n + 1"
  by (cases "key = 0") (simp_all add: shard_of_def smod_int_alt_def)

lemma shard_port_total:
  assumes "master_ok st" "0 < num_servers st" "0 \<le> key"
  obtains p where "shard_port st key = Inr p"
    "map_of (server_port_map st) (key mod num_servers st + 1) = Some p"
proof -
  let ?i = "key mod num_servers st + 1"
  have i: "shard_of key (num_servers st) = ?i" using assms by (simp add: shard_of_nonneg)
  moreover have "1 \<le> ?i \<and> ?i \<le> num_servers st"
    using shard_of_range [OF assms(3,2)] i by simp
  ultimately obtain p where "map_of (server_port_map st) ?i = Some p"
    using assms(1) unfolding master_ok_def by (metis not_None_eq not_less)
  with i assms(2) show ?thesis by (intro that [of p]) (auto simp: shard_port_def)
qed

text \<open>The states the master can be in, whatever messages it is sent and whichever servers
  it can connect to.\<close>

inductive master_reach :: "master \<Rightarrow> bool" where
  master_start: "master_reach master_init"
| master_next: "master_reach st \<Longrightarrow> master_step up m st = (ss, r, Inr st') \<Longrightarrow> master_reach st'"

lemma master_reach_ok: "master_reach st \<Longrightarrow> master_ok st"
  by (induction rule: master_reach.induct) (auto intro: master_step_ok)

text \<open>In every state the master can reach with at least one server, a client that asks
  for a key that is not negative is told the port of server number \<open>key mod n + 1\<close>, which is
  one of the servers that have joined; the request changes nothing and sends nothing.\<close>

theorem master_routes:
  assumes "master_reach st" "0 < num_servers st" "0 \<le> sint (key_of m)" "type_of m \<in> {GET, PUT}"
  shows "\<exists>p. map_of (server_port_map st) (sint (key_of m) mod num_servers st + 1) = Some p \<and>
    master_step up m st = ([], Some (port_msg REPLY p), Inr st)"
proof -
  from master_reach_ok [OF assms(1)] assms(2,3) obtain p where
    "shard_port st (sint (key_of m)) = Inr p"
    "map_of (server_port_map st) (sint (key_of m) mod num_servers st + 1) = Some p"
    by (rule shard_port_total)
  with assms(4) show ?thesis by (auto simp: master_step_def)
qed

definition joined_two :: master where
  "joined_two = \<lparr>num_servers = 2, server_port_map = [(1, 1026), (2, 1027)], kv_map = []\<rparr>"

lemma joined_two_reach: "master_reach joined_two"
proof -
  have "master_reach \<lparr>num_servers = 1, server_port_map = [(1, 1026)], kv_map = []\<rparr>"
    by (rule master_next [OF master_start, of "\<lambda>_. True" "port_msg SERVER 1026" "[]" None])
       (simp add: master_step_def master_init_def)
  from master_next [OF this, of "\<lambda>_. True" "port_msg SERVER 1027" "[]" None] show ?thesis
    by (simp add: master_step_def joined_two_def)
qed

theorem master_routes_witness:
  "\<exists>p. map_of (server_port_map joined_two) (7 mod 2 + 1) = Some p \<and>
    master_step (\<lambda>_. True) (key_msg GET 7) joined_two = ([], Some (port_msg REPLY p), Inr joined_two)"
  using master_routes [OF joined_two_reach, of "key_msg GET 7" "\<lambda>_. True"]
  by (simp add: joined_two_def)

text \<open>The requests that stop the master: any request before the first server has joined
  divides by zero, and, with at least one server, a request for a negative key that is not a
  multiple of their number dereferences \<open>end()\<close>, because \<open>%\<close> gives it a shard below 1.\<close>

theorem master_request_faults:
  assumes "master_reach st" "type_of m \<in> {GET, PUT}"
  shows "(num_servers st = 0 \<longrightarrow> master_step up m st = ([], None, Inl Div_By_Zero)) \<and>
    (0 < num_servers st \<and> sint (key_of m) < 0 \<and> \<not> num_servers st dvd sint (key_of m) \<longrightarrow>
       master_step up m st = ([], None, Inl Out_Of_Range))"
proof (intro conjI impI)
  assume "num_servers st = 0"
  with assms(2) show "master_step up m st = ([], None, Inl Div_By_Zero)"
    by (auto simp: master_step_def shard_port_def)
next
  let ?k = "sint (key_of m)" and ?n = "num_servers st"
  assume a: "0 < ?n \<and> ?k < 0 \<and> \<not> ?n dvd ?k"
  then have "?k smod ?n \<noteq> 0" by (simp add: smod_int_alt_def mod_eq_0_iff_dvd)
  moreover have "?k smod ?n \<le> 0" using a smod_int_compares(4) [of ?k ?n] by simp
  ultimately have "shard_of ?k ?n < 1" by (simp add: shard_of_def)
  then have "map_of (server_port_map st) (shard_of ?k ?n) = None"
    using master_reach_ok [OF assms(1)] by (simp add: master_ok_def)
  with a assms(2) show "master_step up m st = ([], None, Inl Out_Of_Range)"
    by (auto simp: master_step_def shard_port_def)
qed

theorem master_request_faults_witness:
  "master_step (\<lambda>_. True) (key_msg GET (-1)) joined_two = ([], None, Inl Out_Of_Range)
   \<and> master_step (\<lambda>_. True) (key_msg GET 5) master_init = ([], None, Inl Div_By_Zero)"
  using master_request_faults [OF joined_two_reach, of "key_msg GET (-1)" "\<lambda>_. True"]
    master_request_faults [OF master_start, of "key_msg GET 5" "\<lambda>_. True"]
  by (simp add: joined_two_def master_init_def)

text \<open>What reaches a handler is the serialised message up to its first NUL byte, because
  every receiver builds its \<open>std::string\<close> from the \<open>char*\<close> of the buffer; a failed receive
  (\<open>{0, nullptr}\<close>) must not be parsed, and the master does not: it goes back to accepting.\<close>

theorem received_message:
  assumes "NUL \<notin> set pre" "length (pre @ NUL # post) < 2 ^ 32"
    and "recv_bytes evs = frame (pre @ NUL # post) @ rest" "zero_reads evs \<le> max_retries"
  shows "\<exists>buf evs'. secure_recv evs = Some ((length (pre @ NUL # post), buf), evs') \<and>
      parse_buffer parse buf = Inr (parse pre) \<and>
      master_iteration parse up (length (pre @ NUL # post), buf) st = master_step up (parse pre) st \<and>
      master_iteration parse up (0, None) st = ([], None, Inr st)"
proof -
  obtain evs' where "secure_recv evs =
      Some ((length (pre @ NUL # post), Some ((pre @ NUL # post) @ [NUL])), evs')"
    using secure_recv_frame [OF assms(3,4,2)] by blast
  with c_str_stop [OF assms(1), of "post @ [NUL]"] show ?thesis
    by (auto simp: parse_buffer_def master_iteration_def)
qed

theorem received_message_witness:
  "\<exists>buf evs'. secure_recv [Got (frame [CHR 0x08, CHR 0x01, CHR 0x10, CHR 0x00])] =
      Some ((4, buf), evs') \<and>
    parse_buffer (\<lambda>s. key_msg PUT (word_of_nat (length s))) buf = Inr (key_msg PUT 3)"
proof -
  let ?m = "[CHR 0x08, CHR 0x01, CHR 0x10] @ NUL # []"
  have "zero_reads [Got (frame ?m)] \<le> max_retries" "recv_bytes [Got (frame ?m)] = frame ?m @ []"
    by (simp_all add: construct_message_def zero_reads_def max_retries_def)
  from received_message [OF _ _ this(2,1), of "\<lambda>s. key_msg PUT (word_of_nat (length s))"
      "\<lambda>_. True" master_init]
  show ?thesis by auto
qed

end
