(* ===== verification/MemTable.thy ===== *)
theory MemTable
  imports Prelude "HOL-Library.Char_ord" "HOL-Library.List_Lexorder"
begin

section \<open>The store behind the servers: RocksDB's memtable\<close>

text \<open>
  The servers of tasks 1 to 3 keep their data in one RocksDB instance opened with default
  options and use \<open>Put\<close>, \<open>Get\<close> and \<open>Delete\<close> only. This theory states what they rely on as
  the locale \<open>rocksdb\<close> and models the part of the bundled RocksDB that provides it while
  nothing has been flushed: the write path gives every update the next sequence number and
  adds it to the memtable (\<open>db/write_batch.cc\<close>, \<open>db/memtable.cc\<close>), whose entries are
  ordered by user key and then by descending sequence number (\<open>db/dbformat.cc\<close>), and a
  read seeks the first entry at or after the key with the latest sequence number.
  Entries are kept decoded (user key, sequence, type, value); the write-ahead log, flushes,
  merge operators, bloom filters and range deletions are not modelled, as the default
  options and the servers' calls do not reach them.
\<close>

subsection \<open>The interface\<close>

record 'db db_ops =
  db_put :: "string \<Rightarrow> string \<Rightarrow> 'db \<Rightarrow> bool \<times> 'db"
  db_get :: "string \<Rightarrow> 'db \<Rightarrow> string option"
  db_delete :: "string \<Rightarrow> 'db \<Rightarrow> bool \<times> 'db"

text \<open>The \<open>bool\<close> is \<open>status.ok()\<close>; a \<open>Get\<close> whose status is not \<open>ok\<close> is \<open>None\<close>. An update
  whose status is not \<open>ok\<close> has changed nothing.\<close>

locale rocksdb =
  fixes D :: "'db db_ops"
    and db_ok :: "'db \<Rightarrow> bool"
  assumes put_ok: "db_ok d \<Longrightarrow> db_put D k v d = (True, d') \<Longrightarrow>
      db_ok d' \<and> db_get D x d' = (if x = k then Some v else db_get D x d)"
    and put_fail: "db_ok d \<Longrightarrow> db_put D k v d = (False, d') \<Longrightarrow>
      db_ok d' \<and> db_get D x d' = db_get D x d"
    and delete_ok: "db_ok d \<Longrightarrow> db_delete D k d = (True, d') \<Longrightarrow>
      db_ok d' \<and> db_get D x d' = (if x = k then None else db_get D x d)"
    and delete_fail: "db_ok d \<Longrightarrow> db_delete D k d = (False, d') \<Longrightarrow>
      db_ok d' \<and> db_get D x d' = db_get D x d"
begin

lemma put_keeps_ok: "db_ok d \<Longrightarrow> db_ok (snd (db_put D k v d))"
  by (cases "db_put D k v d"; cases "fst (db_put D k v d)") (auto dest: put_ok put_fail)

lemma delete_keeps_ok: "db_ok d \<Longrightarrow> db_ok (snd (db_delete D k d))"
  by (cases "db_delete D k d"; cases "fst (db_delete D k d)") (auto dest: delete_ok delete_fail)

lemma get_put_same: "db_ok d \<Longrightarrow> db_put D k v d = (True, d') \<Longrightarrow> db_get D k d' = Some v"
  using put_ok by simp

end

subsection \<open>Entries and their order\<close>

datatype value_type =
  kTypeDeletion | kTypeValue | kTypeMerge | kTypeSingleDeletion | kTypeRangeDeletion

fun type_code :: "value_type \<Rightarrow> nat" where
  "type_code kTypeDeletion = 0"
| "type_code kTypeValue = 1"
| "type_code kTypeMerge = 2"
| "type_code kTypeSingleDeletion = 7"
| "type_code kTypeRangeDeletion = 15"

definition kValueTypeForSeek :: value_type where
  "kValueTypeForSeek = kTypeSingleDeletion"

record ikey =
  user_key :: string
  seqno :: nat
  vtype :: value_type

type_synonym entry = "ikey \<times> string"

text \<open>\<open>InternalKeyComparator::Compare(a, b) < 0\<close>. The user comparator is bytewise.\<close>

definition ikey_less :: "ikey \<Rightarrow> ikey \<Rightarrow> bool" where
  "ikey_less a b \<longleftrightarrow>
     user_key a < user_key b \<or>
     (user_key a = user_key b \<and>
       (seqno b < seqno a \<or> (seqno a = seqno b \<and> type_code (vtype b) < type_code (vtype a))))"

subsection \<open>The memtable\<close>

text \<open>\<open>MemTable::Add\<close>: the skip list keeps its entries in comparator order.\<close>

fun mem_insert :: "entry \<Rightarrow> entry list \<Rightarrow> entry list" where
  "mem_insert e [] = [e]"
| "mem_insert e (x # xs) =
     (if ikey_less (fst e) (fst x) then e # x # xs else x # mem_insert e xs)"

definition mem_add :: "nat \<Rightarrow> value_type \<Rightarrow> string \<Rightarrow> string \<Rightarrow> entry list \<Rightarrow> entry list" where
  "mem_add s t key v = mem_insert (\<lparr>user_key = key, seqno = s, vtype = t\<rparr>, v)"

definition lookup_key :: "string \<Rightarrow> nat \<Rightarrow> ikey" where
  "lookup_key key s = \<lparr>user_key = key, seqno = s, vtype = kValueTypeForSeek\<rparr>"

datatype get_result = Found string | Not_Found | Invalid_Argument | Not_In_Table

text \<open>\<open>SaveValue\<close>, without a merge operator: no case of it asks for a further entry.\<close>

definition save_value :: "string \<Rightarrow> entry \<Rightarrow> get_result" where
  "save_value key e =
     (if user_key (fst e) = key then
        (case vtype (fst e) of
           kTypeValue \<Rightarrow> Found (snd e)
         | kTypeDeletion \<Rightarrow> Not_Found
         | kTypeSingleDeletion \<Rightarrow> Not_Found
         | kTypeRangeDeletion \<Rightarrow> Not_Found
         | kTypeMerge \<Rightarrow> Invalid_Argument)
      else Not_In_Table)"

definition mem_get :: "string \<Rightarrow> nat \<Rightarrow> entry list \<Rightarrow> get_result" where
  "mem_get key s es =
     (case dropWhile (\<lambda>e. ikey_less (fst e) (lookup_key key s)) es of
        [] \<Rightarrow> Not_In_Table
      | e # _ \<Rightarrow> save_value key e)"

subsection \<open>The database\<close>

record memdb =
  mem :: "entry list"
  last_sequence :: nat

definition memdb_open :: memdb where
  "memdb_open = \<lparr>mem = [], last_sequence = 0\<rparr>"

text \<open>A write batch of one update: \<open>MemTableInserter\<close> applies it at \<open>LastSequence() + 1\<close>.\<close>

definition write_one :: "value_type \<Rightarrow> string \<Rightarrow> string \<Rightarrow> memdb \<Rightarrow> bool \<times> memdb" where
  "write_one t key v d =
     (let s = Suc (last_sequence d)
      in (True, d\<lparr>mem := mem_add s t key v (mem d), last_sequence := s\<rparr>))"

definition get_impl :: "string \<Rightarrow> memdb \<Rightarrow> string option" where
  "get_impl key d =
     (case mem_get key (last_sequence d) (mem d) of Found v \<Rightarrow> Some v | _ \<Rightarrow> None)"

definition mem_rocks :: "memdb db_ops" where
  "mem_rocks =
     \<lparr>db_put = write_one kTypeValue, db_get = get_impl,
      db_delete = (\<lambda>k. write_one kTypeDeletion k [])\<rparr>"

subsection \<open>A read finds the newest update of its key\<close>

definition mem_ok :: "memdb \<Rightarrow> bool" where
  "mem_ok d \<longleftrightarrow> sorted_wrt (\<lambda>a b. ikey_less (fst a) (fst b)) (mem d)
     \<and> (\<forall>e\<in>set (mem d). seqno (fst e) \<le> last_sequence d
          \<and> vtype (fst e) \<in> {kTypeValue, kTypeDeletion})"

abbreviation newest :: "string \<Rightarrow> entry list \<Rightarrow> entry option" where
  "newest key es \<equiv> find (\<lambda>e. user_key (fst e) = key) es"

lemma ikey_less_trans: "ikey_less a b \<Longrightarrow> ikey_less b c \<Longrightarrow> ikey_less a c"
  unfolding ikey_less_def by (elim disjE conjE) (auto dest: less_trans)

lemma set_mem_insert [simp]: "set (mem_insert e es) = insert e (set es)"
  by (induction es) auto

lemma sorted_mem_insert:
  assumes "sorted_wrt (\<lambda>a b. ikey_less (fst a) (fst b)) es"
    and "\<forall>x\<in>set es. seqno (fst x) < seqno (fst e)"
  shows "sorted_wrt (\<lambda>a b. ikey_less (fst a) (fst b)) (mem_insert e es)"
  using assms
proof (induction es)
  case Nil
  then show ?case by simp
next
  case (Cons x xs)
  then show ?case
    by (auto intro: ikey_less_trans) (auto simp: ikey_less_def)
qed

lemma newest_mem_insert:
  assumes "\<forall>x\<in>set es. seqno (fst x) < seqno (fst e)"
  shows "newest k (mem_insert e es) = (if k = user_key (fst e) then Some e else newest k es)"
  using assms by (induction es) (auto simp: ikey_less_def)

lemma mem_get_newest:
  assumes "sorted_wrt (\<lambda>a b. ikey_less (fst a) (fst b)) es"
    and "\<forall>e\<in>set es. seqno (fst e) \<le> s \<and> vtype (fst e) \<in> {kTypeValue, kTypeDeletion}"
  shows "mem_get k s es =
    (case newest k es of None \<Rightarrow> Not_In_Table | Some e \<Rightarrow> save_value k e)"
  using assms
proof (induction es)
  case Nil
  then show ?case by (simp add: mem_get_def)
next
  case (Cons x xs)
  show ?case
  proof (cases "ikey_less (fst x) (lookup_key k s)")
    case True
    then have "user_key (fst x) \<noteq> k"
      using Cons.prems by (auto simp: ikey_less_def lookup_key_def kValueTypeForSeek_def)
    with True Cons show ?thesis by (simp add: mem_get_def)
  next
    case False
    then have get: "mem_get k s (x # xs) = save_value k x" by (simp add: mem_get_def)
    show ?thesis
    proof (cases "user_key (fst x) = k")
      case True
      with get show ?thesis by simp
    next
      case ne: False
      with False have "k < user_key (fst x)"
        by (auto simp: ikey_less_def lookup_key_def not_less)
      then have "\<forall>e\<in>set xs. user_key (fst e) \<noteq> k"
        using Cons.prems by (fastforce simp: ikey_less_def)
      then have "newest k xs = None" by (auto simp: find_None_iff)
      with get ne show ?thesis by (simp add: save_value_def)
    qed
  qed
qed

lemma newest_SomeD: "newest k es = Some e \<Longrightarrow> e \<in> set es \<and> user_key (fst e) = k"
  by (induction es) (auto split: if_splits)

lemma get_impl_newest:
  assumes "mem_ok d"
  shows "get_impl k d =
     (case newest k (mem d) of
        Some e \<Rightarrow> (if vtype (fst e) = kTypeValue then Some (snd e) else None)
      | None \<Rightarrow> None)"
proof -
  have "mem_get k (last_sequence d) (mem d) =
      (case newest k (mem d) of None \<Rightarrow> Not_In_Table | Some e \<Rightarrow> save_value k e)"
    using assms by (intro mem_get_newest) (auto simp: mem_ok_def)
  moreover have "vtype (fst e) \<in> {kTypeValue, kTypeDeletion} \<and> user_key (fst e) = k"
    if "newest k (mem d) = Some e" for e
    using newest_SomeD [OF that] assms by (auto simp: mem_ok_def)
  ultimately show ?thesis
    by (cases "newest k (mem d)") (auto simp: get_impl_def save_value_def)
qed

lemma write_one_get:
  assumes "mem_ok d" "write_one t k v d = (r, d')" "t \<in> {kTypeValue, kTypeDeletion}"
  shows "r \<and> mem_ok d' \<and> get_impl x d' =
    (if x = k then (if t = kTypeValue then Some v else None) else get_impl x d)"
proof -
  let ?e = "(\<lparr>user_key = k, seqno = Suc (last_sequence d), vtype = t\<rparr>, v)"
  have d': "r" "mem d' = mem_insert ?e (mem d)" "last_sequence d' = Suc (last_sequence d)"
    using assms(2) by (auto simp: write_one_def mem_add_def Let_def)
  have lt: "\<forall>y\<in>set (mem d). seqno (fst y) < seqno (fst ?e)"
    using assms(1) by (auto simp: mem_ok_def)
  have ok: "mem_ok d'"
    using assms(1,3) d' sorted_mem_insert [OF _ lt] by (auto simp: mem_ok_def)
  with d' assms(1) newest_mem_insert [OF lt] show ?thesis
    by (simp add: get_impl_newest)
qed

interpretation memtable: rocksdb mem_rocks mem_ok
proof unfold_locales
  fix d k v d' x
  assume d: "mem_ok d"
  show "mem_ok d' \<and> db_get mem_rocks x d' = (if x = k then Some v else db_get mem_rocks x d)"
    if "db_put mem_rocks k v d = (True, d')"
    using that write_one_get [OF d, of kTypeValue k v] by (simp add: mem_rocks_def)
  show "mem_ok d' \<and> db_get mem_rocks x d' = (if x = k then None else db_get mem_rocks x d)"
    if "db_delete mem_rocks k d = (True, d')"
    using that write_one_get [OF d, of kTypeDeletion k "[]"] by (simp add: mem_rocks_def)
qed (simp_all add: mem_rocks_def write_one_def Let_def)

lemma mem_ok_open [simp]: "mem_ok memdb_open"
  by (simp add: mem_ok_def memdb_open_def)

lemma get_open [simp]: "db_get mem_rocks k memdb_open = None"
  by (simp add: mem_rocks_def get_impl_newest) (simp add: memdb_open_def)

datatype db_update = Put_Key string string | Delete_Key string

fun apply_update :: "'db db_ops \<Rightarrow> db_update \<Rightarrow> 'db \<Rightarrow> bool \<times> 'db" where
  "apply_update D (Put_Key k v) d = db_put D k v d"
| "apply_update D (Delete_Key k) d = db_delete D k d"

definition run_updates :: "'db db_ops \<Rightarrow> db_update list \<Rightarrow> 'db \<Rightarrow> bool \<times> 'db" where
  "run_updates D us d =
     foldl (\<lambda>(ok, d) u. let (r, d') = apply_update D u d in (ok \<and> r, d')) (True, d) us"

fun update_map :: "(string \<Rightarrow> string option) \<Rightarrow> db_update \<Rightarrow> (string \<Rightarrow> string option)" where
  "update_map m (Put_Key k v) = m(k \<mapsto> v)"
| "update_map m (Delete_Key k) = m(k := None)"

lemma mem_rocks_succeeds [simp]:
  "fst (db_put mem_rocks k v d)" "fst (db_delete mem_rocks k d)"
  by (simp_all add: mem_rocks_def write_one_def Let_def)

lemma apply_update_mem:
  assumes "mem_ok d" "apply_update mem_rocks u d = (r, d')"
  shows "r \<and> mem_ok d' \<and>
    (\<lambda>k. db_get mem_rocks k d') = update_map (\<lambda>k. db_get mem_rocks k d) u"
proof (cases u)
  case (Put_Key k v)
  with assms have "r" "db_put mem_rocks k v d = (True, d')"
    using mem_rocks_succeeds(1) [of k v d] by auto
  with Put_Key memtable.put_ok [OF assms(1)] show ?thesis by (auto simp: fun_eq_iff)
next
  case (Delete_Key k)
  with assms have "r" "db_delete mem_rocks k d = (True, d')"
    using mem_rocks_succeeds(2) [of k d] by auto
  with Delete_Key memtable.delete_ok [OF assms(1)] show ?thesis by (auto simp: fun_eq_iff)
qed

text \<open>A database opened empty and used through \<open>Put\<close> and \<open>Delete\<close> is a map: after any
  sequence of updates \<open>Get\<close> returns for every key the value of its last \<open>Put\<close>, unless a
  \<open>Delete\<close> came after it, and every update reports success.\<close>

theorem memtable_is_map:
  "\<exists>d'. run_updates mem_rocks us memdb_open = (True, d') \<and>
     (\<lambda>k. db_get mem_rocks k d') = foldl update_map Map.empty us"
proof -
  have "\<exists>d'. run_updates mem_rocks us d = (True, d') \<and> mem_ok d' \<and>
      (\<lambda>k. db_get mem_rocks k d') = foldl update_map (\<lambda>k. db_get mem_rocks k d) us"
    if "mem_ok d" for d
  proof (induction us rule: rev_induct)
    case Nil
    then show ?case using that by (simp add: run_updates_def)
  next
    case (snoc u us)
    then obtain d1 where d1: "run_updates mem_rocks us d = (True, d1)" "mem_ok d1"
        "(\<lambda>k. db_get mem_rocks k d1) = foldl update_map (\<lambda>k. db_get mem_rocks k d) us"
      by blast
    obtain r d2 where d2: "apply_update mem_rocks u d1 = (r, d2)" by fastforce
    with apply_update_mem [OF d1(2) d2] d1 show ?case
      by (simp add: run_updates_def)
  qed
  from this [OF mem_ok_open] show ?thesis by auto
qed

text \<open>A database whose updates never fail, which the memtable is.\<close>

locale reliable_rocksdb = rocksdb +
  assumes put_succeeds: "fst (db_put D k v d)"
    and delete_succeeds: "fst (db_delete D k d)"
begin

lemma put_view:
  assumes "db_ok d" "db_put D k v d = (r, d')"
  shows "r" "db_ok d'" "(\<lambda>x. db_get D x d') = (\<lambda>x. db_get D x d)(k \<mapsto> v)"
proof -
  show r using put_succeeds [of k v d] assms(2) by simp
  with put_ok [OF assms(1)] assms(2) show "db_ok d'" "(\<lambda>x. db_get D x d') = (\<lambda>x. db_get D x d)(k \<mapsto> v)"
    by (auto simp: fun_eq_iff)
qed

end

interpretation mem_reliable: reliable_rocksdb mem_rocks mem_ok
  by unfold_locales simp_all

end
