(* ===== verification/ShardServer.thy ===== *)
theory ShardServer
  imports ShardMaster MemTable
begin

section \<open>Task 2: a shard server\<close>

text \<open>
  \<open>task2/source/server.cpp\<close>: a single-threaded server over one RocksDB instance that also
  remembers, in the vector \<open>keys\<close>, the decimal names of the keys it has stored, so that it
  can delete them when the master redistributes. The database is a parameter \<open>D\<close>; the
  contract it meets is the locale \<open>rocksdb\<close>.
\<close>

subsection \<open>The handler\<close>

record 'db shard_server =
  db :: 'db
  keys :: "string list"

definition server_start :: "'db \<Rightarrow> 'db shard_server" where
  "server_start d = \<lparr>db = d, keys = []\<rparr>"

definition bool_status :: "bool \<Rightarrow> i32" where
  "bool_status b = (if b then 1 else 0)"

definition generateMessage :: "bool \<Rightarrow> shard_msg" where
  "generateMessage status =
     empty_msg\<lparr>m_status := Some (bool_status status), m_type := Some REPLY\<rparr>"

text \<open>The key under which a \<open>PUT\<close> stores, and the one under which a \<open>GET\<close> looks: the
  latter goes through \<open>static_cast<char>\<close>.\<close>

definition put_key :: "i32 \<Rightarrow> string" where
  "put_key k = to_string (sint k)"

definition char_cast :: "i32 \<Rightarrow> 8 word" where
  "char_cast k = ucast k"

definition get_key :: "i32 \<Rightarrow> string" where
  "get_key k = to_string (sint (char_cast k))"

text \<open>\<open>assert(status.ok())\<close> after every \<open>Delete\<close> of the loop.\<close>

fun delete_all :: "'db db_ops \<Rightarrow> string list \<Rightarrow> 'db \<Rightarrow> 'db res" where
  "delete_all D [] d = Inr d"
| "delete_all D (k # ks) d =
     (case db_delete D k d of (ok, d') \<Rightarrow> if ok then delete_all D ks d' else Inl Assert_Failed)"

text \<open>One message: the reply to its sender, what is sent to the master, the new state.
  \<open>master_up\<close> says whether the master accepts the connection.\<close>

definition server_step ::
  "'db db_ops \<Rightarrow> bool \<Rightarrow> shard_msg \<Rightarrow> 'db shard_server
     \<Rightarrow> shard_msg option \<times> shard_msg option \<times> 'db shard_server res" where
  "server_step D master_up m s =
     (case type_of m of
        REORG \<Rightarrow>
          (None, None, map_sum id (\<lambda>d. s\<lparr>db := d, keys := []\<rparr>) (delete_all D (keys s) (db s)))
      | REORG_PUT \<Rightarrow>
          (let key = put_key (key_of m)
           in (None, None,
               Inr (s\<lparr>db := snd (db_put D key (c_str (value_of m)) (db s)), keys := keys s @ [key]\<rparr>)))
      | PUT \<Rightarrow>
          (let key = put_key (key_of m);
               (status, d') = db_put D key (c_str (value_of m)) (db s);
               reply = Some (generateMessage status)
           in if status then
                (if master_up then
                   (reply, Some (m\<lparr>m_type := Some MASTER_PUT\<rparr>),
                    Inr (s\<lparr>db := d', keys := keys s @ [key]\<rparr>))
                 else (reply, None, Inl (Exit 1)))
              else (reply, None, Inr (s\<lparr>db := d'\<rparr>)))
      | GET \<Rightarrow>
          (let r = db_get D (get_key (key_of m)) (db s);
               value = (case r of None \<Rightarrow> [] | Some v \<Rightarrow> v)
           in (Some ((generateMessage (r \<noteq> None))\<lparr>m_value := Some value\<rparr>), None, Inr s))
      | _ \<Rightarrow> (None, None, Inr s))"

definition server_iteration ::
  "(string \<Rightarrow> shard_msg) \<Rightarrow> 'db db_ops \<Rightarrow> bool \<Rightarrow> nat \<times> string option \<Rightarrow> 'db shard_server
     \<Rightarrow> shard_msg option \<times> shard_msg option \<times> 'db shard_server res" where
  "server_iteration parse D master_up res s =
     (if fst res = 0 then (None, None, Inr s)
      else (case parse_buffer parse (snd res) of
          Inl f \<Rightarrow> (None, None, Inl f)
        | Inr m \<Rightarrow> server_step D master_up m s))"

subsection \<open>The \<open>char\<close> cast of \<open>GET\<close>\<close>

lemma sint_char_cast: "sint (char_cast k) = signed_take_bit 7 (sint k)"
proof -
  have "sint (char_cast k) = signed_take_bit 7 (uint k)"
    unfolding char_cast_def by (subst signed_ucast_eq) simp
  moreover have "sint k = signed_take_bit 31 (uint k)" by (simp add: sint_uint)
  ultimately show ?thesis by simp
qed

lemma char_cast_exact: "sint (char_cast k) = sint k \<longleftrightarrow> - 128 \<le> sint k \<and> sint k \<le> 127"
  unfolding sint_char_cast using signed_take_bit_int_eq_self_iff [of 7 "sint k"] by auto

lemma char_cast_range: "- 128 \<le> sint (char_cast k) \<and> sint (char_cast k) \<le> 127"
  using sint_range_size [of "char_cast k"] by (auto simp: word_size)

lemma get_key_eq [simp]: "get_key k' = put_key k \<longleftrightarrow> sint (char_cast k') = sint k"
  by (simp add: get_key_def put_key_def)

subsection \<open>The database and the key list\<close>

lemma server_step_GET:
  "type_of m = GET \<Longrightarrow> server_step D up m s =
     (Some ((generateMessage (db_get D (get_key (key_of m)) (db s) \<noteq> None))
        \<lparr>m_value := Some (case db_get D (get_key (key_of m)) (db s) of None \<Rightarrow> [] | Some v \<Rightarrow> v)\<rparr>),
      None, Inr s)"
  by (simp add: server_step_def Let_def)

lemma status_get_reply [simp]:
  "status_of ((generateMessage b)\<lparr>m_value := x\<rparr>) = bool_status b"
  "status_of (generateMessage b) = bool_status b"
  "value_of ((generateMessage b)\<lparr>m_value := Some y\<rparr>) = y"
  by (simp_all add: getter_defs generateMessage_def empty_msg_def)

lemma bool_status_zero [simp]: "bool_status b = 0 \<longleftrightarrow> \<not> b" "bool_status b \<noteq> 0 \<longleftrightarrow> b"
  by (simp_all add: bool_status_def)

text \<open>What \<open>keys\<close> says of a database that held \<open>old\<close> when the server opened it and has been written
  under the keys \<open>K\<close> since: of those it has all that are still there, and the others are as they were.\<close>

definition tracked ::
  "'db db_ops \<Rightarrow> (string \<Rightarrow> string option) \<Rightarrow> string set \<Rightarrow> 'db shard_server \<Rightarrow> bool" where
  "tracked D old K s \<longleftrightarrow> set (keys s) \<subseteq> K \<and>
     (\<forall>x. if x \<in> K then db_get D x (db s) \<noteq> None \<longrightarrow> x \<in> set (keys s) else db_get D x (db s) = old x)"

definition stored_keys :: "shard_msg list \<Rightarrow> string set" where
  "stored_keys ms = (\<lambda>m. put_key (key_of m)) ` {m \<in> set ms. type_of m \<in> {PUT, REORG_PUT}}"

lemma stored_keys_simps [simp]:
  "stored_keys [] = {}"
  "stored_keys (ms @ [m]) =
     (if type_of m \<in> {PUT, REORG_PUT} then insert (put_key (key_of m)) (stored_keys ms) else stored_keys ms)"
  by (auto simp: stored_keys_def)

lemma tracked_start: "tracked D (\<lambda>x. db_get D x d) {} (server_start d)"
  by (simp add: tracked_def server_start_def)

context rocksdb
begin

text \<open>A server that may have written any key knows all that is there.\<close>

abbreviation server_ok :: "'db shard_server \<Rightarrow> bool" where
  "server_ok s \<equiv> db_ok (db s) \<and> tracked D (\<lambda>_. None) UNIV s"

lemma delete_all_get:
  "db_ok d \<Longrightarrow> delete_all D ks d = Inr d' \<Longrightarrow>
     db_ok d' \<and> db_get D x d' = (if x \<in> set ks then None else db_get D x d)"
proof (induction ks arbitrary: d)
  case Nil
  then show ?case by simp
next
  case (Cons k ks)
  then obtain d1 where d1: "db_delete D k d = (True, d1)" "delete_all D ks d1 = Inr d'"
    by (auto split: prod.splits if_splits)
  with delete_ok [OF Cons.prems(1) d1(1)] Cons.IH [of d1] show ?case by simp
qed

lemma put_tracked:
  assumes "db_ok (db s)" "tracked D old K s" "db_put D k v (db s) = (r, d')"
  shows "r \<or> K = UNIV \<Longrightarrow> db_ok d' \<and> tracked D old (insert k K) (s\<lparr>db := d', keys := keys s @ [k]\<rparr>)"
    and "\<not> r \<Longrightarrow> db_ok d' \<and> tracked D old K (s\<lparr>db := d'\<rparr>)"
  using assms put_ok [OF assms(1), of k v d'] put_fail [OF assms(1), of k v d']
  by (cases r; auto simp: tracked_def split: if_splits)+

lemma reorg_tracked:
  assumes "db_ok (db s)" "tracked D old K s" "delete_all D (keys s) (db s) = Inr d'"
  shows "db_ok d'" "tracked D old K (s\<lparr>db := d', keys := []\<rparr>)"
    and "db_get D x d' = (if x \<in> K then None else old x)"
  using assms delete_all_get [OF assms(1,3)] by (auto simp: tracked_def split: if_splits)

lemma server_step_tracked:
  assumes "db_ok (db s)" "tracked D old K s" "server_step D up m s = (r, f, Inr s')"
    and "K = UNIV \<or> (\<forall>k v. fst (db_put D k v (db s)))"
  shows "db_ok (db s') \<and>
    tracked D old (if type_of m \<in> {PUT, REORG_PUT} then insert (put_key (key_of m)) K else K) s'"
proof (cases "type_of m")
  case REORG
  with assms obtain d' where "delete_all D (keys s) (db s) = Inr d'" "s' = s\<lparr>db := d', keys := []\<rparr>"
    by (cases "delete_all D (keys s) (db s)") (auto simp: server_step_def)
  with reorg_tracked [OF assms(1,2)] REORG show ?thesis by simp
next
  case REORG_PUT
  let ?k = "put_key (key_of m)" and ?v = "c_str (value_of m)"
  obtain b d' where b: "db_put D ?k ?v (db s) = (b, d')" by fastforce
  with assms(4) have "b \<or> K = UNIV" by (metis fst_conv)
  with put_tracked(1) [OF assms(1,2) b] b REORG_PUT assms(3) show ?thesis
    by (auto simp: server_step_def Let_def)
next
  case PUT
  let ?k = "put_key (key_of m)" and ?v = "c_str (value_of m)"
  obtain b d' where b: "db_put D ?k ?v (db s) = (b, d')" by fastforce
  with assms(4) have "b \<or> K = UNIV" by (metis fst_conv)
  with put_tracked [OF assms(1,2) b] b PUT assms(3) show ?thesis
    by (auto simp: server_step_def Let_def insert_absorb split: if_splits)
qed (use assms in \<open>auto simp: server_step_def Let_def\<close>)

lemma server_step_ok:
  "server_ok s \<Longrightarrow> server_step D up m s = (r, f, Inr s') \<Longrightarrow> server_ok s'"
  using server_step_tracked [of s "\<lambda>_. None" UNIV up m r f s'] by (simp split: if_splits)

lemma reorg_empties:
  "server_ok s \<Longrightarrow> type_of m = REORG \<Longrightarrow> server_step D up m s = (r, f, Inr s') \<Longrightarrow>
     keys s' = [] \<and> db_get D x (db s') = None"
  using reorg_tracked(3) [of s "\<lambda>_. None" UNIV "db s'" x]
  by (cases "delete_all D (keys s) (db s)") (auto simp: server_step_def)

lemma put_then_get:
  assumes "db_ok (db s)" "db_put D (put_key k) (c_str v) (db s) = (True, d')"
  shows "server_step D True (put_msg PUT k v) s =
      (Some (generateMessage True), Some (put_msg MASTER_PUT k v),
       Inr (s\<lparr>db := d', keys := keys s @ [put_key k]\<rparr>))"
    and "db_get D (get_key k') d' =
      (if sint (char_cast k') = sint k then Some (c_str v) else db_get D (get_key k') (db s))"
  using assms put_ok [of "db s" "put_key k" "c_str v" d']
  by (simp_all add: server_step_def Let_def put_msg_def key_msg_def type_of_def key_of_def value_of_def)

end

text \<open>The states of a server that was started on the database \<open>d0\<close>, which an earlier run may have
  left at its path, and has handled the messages \<open>ms\<close>.\<close>

inductive server_reach :: "memdb \<Rightarrow> shard_msg list \<Rightarrow> memdb shard_server \<Rightarrow> bool" where
  server_start: "mem_ok d0 \<Longrightarrow> server_reach d0 [] (server_start d0)"
| server_next: "server_reach d0 ms s \<Longrightarrow> server_step mem_rocks up m s = (r, f, Inr s') \<Longrightarrow>
    server_reach d0 (ms @ [m]) s'"

lemma server_reach_tracked:
  "server_reach d0 ms s \<Longrightarrow>
     mem_ok (db s) \<and> tracked mem_rocks (\<lambda>x. db_get mem_rocks x d0) (stored_keys ms) s"
proof (induction rule: server_reach.induct)
  case (server_start d0)
  then show ?case using tracked_start [of mem_rocks d0] by (simp add: server_start_def)
next
  case (server_next d0 ms s up m r f s')
  note inv = server_next(3)
  from memtable.server_step_tracked [OF conjunct1 [OF inv] conjunct2 [OF inv] server_next(2)]
  show ?case by simp
qed

text \<open>C24: what a \<open>REORG\<close> leaves. Every key that the server has stored since it was started and that
  still has a value is in the vector \<open>keys\<close>, so the \<open>REORG\<close> deletes exactly what this run has
  stored: a database that was opened empty is empty, but the keys that an earlier run left in
  \<open>/tmp/testdb<port>\<close> and that this run has not stored keep the values they had when it was opened.\<close>

theorem server_reorg_deletes:
  assumes "server_reach d0 ms s" "type_of m = REORG"
  shows "(\<forall>x\<in>stored_keys ms. db_get mem_rocks x (db s) \<noteq> None \<longrightarrow> x \<in> set (keys s)) \<and>
    (\<exists>s'. server_step mem_rocks up m s = (None, None, Inr s') \<and> keys s' = [] \<and>
      (\<forall>x. db_get mem_rocks x (db s') = (if x \<in> stored_keys ms then None else db_get mem_rocks x d0)))"
proof
  note inv = server_reach_tracked [OF assms(1)]
  show "\<forall>x\<in>stored_keys ms. db_get mem_rocks x (db s) \<noteq> None \<longrightarrow> x \<in> set (keys s)"
    using inv by (auto simp: tracked_def split: if_splits)
  have "\<exists>d'. delete_all mem_rocks ks d = Inr d'" for ks d
  proof (induction ks arbitrary: d)
    case (Cons k ks)
    obtain r d1 where d1: "db_delete mem_rocks k d = (r, d1)" by fastforce
    with mem_rocks_succeeds(2) [of k d] have r by (simp del: mem_rocks_succeeds)
    with d1 Cons.IH [of d1] show ?case by simp
  qed simp
  then obtain d' where d': "delete_all mem_rocks (keys s) (db s) = Inr d'" by blast
  with assms(2) have "server_step mem_rocks up m s = (None, None, Inr (s\<lparr>db := d', keys := []\<rparr>))"
    by (simp add: server_step_def)
  with memtable.reorg_tracked(3) [OF conjunct1 [OF inv] conjunct2 [OF inv] d']
  show "\<exists>s'. server_step mem_rocks up m s = (None, None, Inr s') \<and> keys s' = [] \<and>
      (\<forall>x. db_get mem_rocks x (db s') = (if x \<in> stored_keys ms then None else db_get mem_rocks x d0))"
    by simp
qed

text \<open>An earlier run has left key 1; this one stores key 4.\<close>

theorem server_reorg_deletes_witness:
  "\<exists>d0 s s'. db_get mem_rocks (put_key 1) d0 = Some ''old'' \<and>
    db_get mem_rocks (put_key 4) (db s) = Some ''new'' \<and>
    server_step mem_rocks True (empty_msg\<lparr>m_type := Some REORG\<rparr>) s = (None, None, Inr s') \<and>
    db_get mem_rocks (put_key 4) (db s') = None \<and> db_get mem_rocks (put_key 1) (db s') = Some ''old''"
proof -
  define d0 where "d0 = snd (db_put mem_rocks (put_key 1) ''old'' memdb_open)"
  have p: "db_put mem_rocks k v d = (True, snd (db_put mem_rocks k v d))" for k v d
    by (simp add: prod_eq_iff)
  note d0 = memtable.put_ok [OF mem_ok_open p [of "put_key 1" "''old''" memdb_open], folded d0_def]
  define d1 where "d1 = snd (db_put mem_rocks (put_key 4) (c_str ''new'') d0)"
  note d1 = memtable.put_ok [OF conjunct1 [OF d0] p [of "put_key 4" "c_str ''new''" d0], folded d1_def]
  have start: "server_reach d0 [] (server_start d0)" by (rule server_start) (use d0 in blast)
  have "server_step mem_rocks True (put_msg PUT 4 ''new'') (server_start d0) =
      (Some (generateMessage True), Some (put_msg MASTER_PUT 4 ''new''),
       Inr ((server_start d0)\<lparr>db := d1, keys := [put_key 4]\<rparr>))"
    using memtable.put_then_get(1) [of "server_start d0" 4 "''new''" d1] d0 p
    by (simp add: server_start_def d1_def)
  from server_next [OF start this]
  have reach: "server_reach d0 [put_msg PUT 4 ''new''] ((server_start d0)\<lparr>db := d1, keys := [put_key 4]\<rparr>)"
    by simp
  have k: "stored_keys [put_msg PUT 4 ''new''] = {put_key 4}" "put_key 1 \<noteq> put_key 4"
    by (auto simp: stored_keys_def put_msg_def key_msg_def type_of_def key_of_def put_key_def)
  obtain s' where "server_step mem_rocks True (empty_msg\<lparr>m_type := Some REORG\<rparr>)
        ((server_start d0)\<lparr>db := d1, keys := [put_key 4]\<rparr>) = (None, None, Inr s')"
    "\<forall>x. db_get mem_rocks x (db s') = (if x \<in> {put_key 4} then None else db_get mem_rocks x d0)"
    using server_reorg_deletes [OF reach, of "empty_msg\<lparr>m_type := Some REORG\<rparr>" True] k(1)
    by (auto simp: type_of_def)
  with k(2) d0 d1 show ?thesis
    by (intro exI [of _ d0] exI [of _ "(server_start d0)\<lparr>db := d1, keys := [put_key 4]\<rparr>"] exI [of _ s'])
       simp
qed

lemma put_get_lemma:
  assumes "server_reach d0 ms s"
  shows "\<exists>s'. server_step mem_rocks True (put_msg PUT k v) s =
      (Some (generateMessage True), Some (put_msg MASTER_PUT k v), Inr s') \<and>
    (\<forall>k'. fst (server_step mem_rocks up (key_msg GET k') s') =
       (if sint (char_cast k') = sint k
        then Some ((generateMessage True)\<lparr>m_value := Some (c_str v)\<rparr>)
        else fst (server_step mem_rocks up (key_msg GET k') s)))"
proof -
  obtain d' where d': "db_put mem_rocks (put_key k) (c_str v) (db s) = (True, d')"
    using mem_rocks_succeeds(1) [of "put_key k" "c_str v" "db s"]
    by (cases "db_put mem_rocks (put_key k) (c_str v) (db s)") auto
  note ok = conjunct1 [OF server_reach_tracked [OF assms]]
  note put = memtable.put_then_get [OF ok d']
  show ?thesis
    by (intro exI conjI, rule put(1)) (simp add: server_step_GET put(2))
qed

text \<open>C20: on whatever database a server was started, what a \<open>PUT\<close> of key \<open>k\<close> changes for a later \<open>GET\<close> of key \<open>k'\<close>: the \<open>GET\<close>
  succeeds with the value (up to its first NUL) exactly when the low eight bits of \<open>k'\<close>, read
  as a signed \<open>char\<close>, are the number \<open>k\<close>; otherwise its answer is what it was before. So a key
  outside \<open>-128 .. 127\<close> can be stored and never read back, not even under its own name. The
  server acknowledges the \<open>PUT\<close> and forwards the whole message to the master.\<close>

theorem put_get:
  assumes "server_reach d0 ms s"
  shows "\<exists>s'. server_step mem_rocks True (put_msg PUT k v) s =
      (Some (generateMessage True), Some (put_msg MASTER_PUT k v), Inr s') \<and>
    (\<forall>k'. fst (server_step mem_rocks up (key_msg GET k') s') =
       (if sint (char_cast k') = sint k
        then Some ((generateMessage True)\<lparr>m_value := Some (c_str v)\<rparr>)
        else fst (server_step mem_rocks up (key_msg GET k') s))) \<and>
    (sint (char_cast k) = sint k \<longleftrightarrow> - 128 \<le> sint k \<and> sint k \<le> 127)"
  using put_get_lemma [OF assms] char_cast_exact by blast

theorem put_get_witness:
  "\<exists>s'. server_step mem_rocks True (put_msg PUT 65 ''v'') (server_start memdb_open) =
      (Some (generateMessage True), Some (put_msg MASTER_PUT 65 ''v''), Inr s') \<and>
    fst (server_step mem_rocks True (key_msg GET 321) s') =
      Some ((generateMessage True)\<lparr>m_value := Some ''v''\<rparr>)"
proof -
  have "sint (char_cast 321) = sint (65 :: i32)" by (simp add: sint_char_cast)
  with put_get [OF server_start [OF mem_ok_open], of 65 "''v''" True] show ?thesis by auto
qed

end
