(* ===== verification/ShardClient.thy ===== *)
theory ShardClient
  imports ShardServer
begin

section \<open>Task 2: the client\<close>

text \<open>
  \<open>task2/source/client.cpp\<close>: the client asks the master for the port of the server of its
  key, then sends its request to that server. Everything outside the process is the
  parameter \<open>ask\<close>, which threads a world of any type: \<open>ask port m w\<close> connects to \<open>port\<close>,
  sends \<open>m\<close> and waits in \<open>secure_recv\<close> for the answer.
\<close>

subsection \<open>The program\<close>

text \<open>The connection is refused, the peer keeps it open and never answers, or \<open>secure_recv\<close>
  returns a pair.\<close>

datatype answer = Refused | Silence | Answer "nat \<times> string option"

record client_args =
  operation :: string
  ckey :: i32
  cvalue :: string
  master_port :: i32

definition arg_int :: "string \<Rightarrow> i32" where
  "arg_int s = word_of_int (atoi s)"

definition client_parse_args :: "string list \<Rightarrow> client_args option" where
  "client_parse_args argv =
     (if length argv < 11 then None
      else Some \<lparr>operation = argv ! 4, ckey = arg_int (argv ! 6), cvalue = argv ! 8,
                 master_port = arg_int (argv ! 10)\<rparr>)"

text \<open>The request to the server: with an operation that is neither \<open>GET\<close> nor \<open>PUT\<close> its
  type stays unset.\<close>

definition request_msg :: "client_args \<Rightarrow> shard_msg" where
  "request_msg a =
     (let m3 = empty_msg\<lparr>m_key := Some (ckey a)\<rparr>
      in if operation a = ''GET'' then m3\<lparr>m_type := Some GET\<rparr>
         else if operation a = ''PUT'' then m3\<lparr>m_type := Some PUT, m_value := Some (cvalue a)\<rparr>
         else m3)"

text \<open>\<open>None\<close>: the client waits for ever. \<open>Inr c\<close>: \<open>main\<close> returns \<open>c\<close>.\<close>

definition client_run ::
  "(string \<Rightarrow> shard_msg) \<Rightarrow> (i32 \<Rightarrow> shard_msg \<Rightarrow> 'w \<Rightarrow> answer \<times> 'w) \<Rightarrow> client_args \<Rightarrow> 'w
     \<Rightarrow> int res option \<times> 'w" where
  "client_run parse ask a w =
     (case ask (master_port a) (key_msg GET (ckey a)) w of
        (Refused, w1) \<Rightarrow> (Some (Inl (Exit 1)), w1)
      | (Silence, w1) \<Rightarrow> (None, w1)
      | (Answer res, w1) \<Rightarrow>
          (if fst res = 0 then (Some (Inr 2), w1)
           else (case parse_buffer parse (snd res) of
               Inl f \<Rightarrow> (Some (Inl f), w1)
             | Inr m2 \<Rightarrow>
                 (case ask (port_of m2) (request_msg a) w1 of
                    (Refused, w2) \<Rightarrow> (Some (Inl (Exit 1)), w2)
                  | (Silence, w2) \<Rightarrow> (None, w2)
                  | (Answer res2, w2) \<Rightarrow>
                      (if fst res2 = 0 then (Some (Inr 2), w2)
                       else (case parse_buffer parse (snd res2) of
                           Inl f \<Rightarrow> (Some (Inl f), w2)
                         | Inr m4 \<Rightarrow>
                             (Some (Inr (if status_of m4 \<noteq> 0 then 0 else 2)), w2)))))))"

definition client_main ::
  "(string \<Rightarrow> shard_msg) \<Rightarrow> (i32 \<Rightarrow> shard_msg \<Rightarrow> 'w \<Rightarrow> answer \<times> 'w) \<Rightarrow> string list \<Rightarrow> 'w
     \<Rightarrow> int res option \<times> 'w" where
  "client_main parse ask argv w =
     (case client_parse_args argv of
        None \<Rightarrow> (Some (Inr 1), w)
      | Some a \<Rightarrow> client_run parse ask a w)"

subsection \<open>Its exit codes\<close>

text \<open>The exit code of the client, whatever the world does. It is 0 exactly when master
  and server both answered and the status of the server's answer is not zero; 2 when one of
  them closed the connection without an answer or the status is zero; 1 when a connection is
  refused. The buffer of an answer that is not empty is never the null pointer, so the
  client runs into no fault.\<close>

theorem client_exit_codes:
  assumes buffers: "\<And>p m w n b w'. ask p m w = (Answer (n, b), w') \<Longrightarrow> n \<noteq> 0 \<Longrightarrow> b \<noteq> None"
    and run: "client_run parse ask a w = (Some r, w')"
  shows "r \<in> {Inr 0, Inr 2, Inl (Exit 1)} \<and>
    (r = Inr 0 \<longleftrightarrow>
      (\<exists>n buf w1 n2 buf2 w2.
         ask (master_port a) (key_msg GET (ckey a)) w = (Answer (n, Some buf), w1) \<and> n \<noteq> 0 \<and>
         ask (port_of (parse (c_str buf))) (request_msg a) w1 = (Answer (n2, Some buf2), w2) \<and>
         n2 \<noteq> 0 \<and> status_of (parse (c_str buf2)) \<noteq> 0))"
proof (cases "ask (master_port a) (key_msg GET (ckey a)) w")
  case (Pair x w1)
  have buf: "n = 0 \<or> b \<noteq> None" if "ask p m w = (Answer (n, b), w')" for p m w n b w'
    using buffers [OF that] by blast
  show ?thesis
  proof (cases "\<exists>n buf. x = Answer (n, Some buf) \<and> n \<noteq> 0")
    case False
    with Pair buf [of "master_port a" "key_msg GET (ckey a)" w] run show ?thesis
      by (cases x) (auto simp: client_run_def split: if_splits)
  next
    case True
    then obtain n buf where x: "x = Answer (n, Some buf)" "n \<noteq> 0" by blast
    obtain y w2 where y: "ask (port_of (parse (c_str buf))) (request_msg a) w1 = (y, w2)"
      by fastforce
    show ?thesis
    proof (cases "\<exists>n buf. y = Answer (n, Some buf) \<and> n \<noteq> 0")
      case False
      with Pair x y buf [of "port_of (parse (c_str buf))" "request_msg a" w1] run
      show ?thesis by (cases y) (auto simp: client_run_def parse_buffer_def split: if_splits)
    next
      case True
      with Pair x y run show ?thesis
        by (auto simp: client_run_def parse_buffer_def split: if_splits)
    qed
  qed
qed

definition ok_ask :: "i32 \<Rightarrow> shard_msg \<Rightarrow> nat \<Rightarrow> answer \<times> nat" where
  "ok_ask p m w = (Answer (received ''y''), Suc w)"

theorem client_exit_codes_witness:
  "client_run (\<lambda>_. empty_msg\<lparr>m_status := Some 1\<rparr>) ok_ask
     \<lparr>operation = ''GET'', ckey = 5, cvalue = [], master_port = 1025\<rparr> 0 = (Some (Inr 0), 2) \<and>
   (\<exists>n buf w1. ok_ask 1025 (key_msg GET 5) 0 = (Answer (n, Some buf), w1) \<and> n \<noteq> 0)"
proof -
  let ?a = "\<lparr>operation = ''GET'', ckey = 5, cvalue = [], master_port = 1025\<rparr> :: client_args"
  have run: "client_run (\<lambda>_. empty_msg\<lparr>m_status := Some 1\<rparr>) ok_ask ?a 0 = (Some (Inr 0), 2)"
    by (simp add: client_run_def ok_ask_def status_of_def)
  with client_exit_codes [OF _ run] show ?thesis
    by (auto simp: ok_ask_def received_def)
qed

end
