(* ===== verification/ShardSystem.thy ===== *)
theory ShardSystem
  imports ShardClient
begin

section \<open>Task 2: the whole system\<close>

text \<open>
  Master, servers and clients together. A message travels as its serialised bytes and is
  handled by the accept loop of its receiver as \<open>secure_recv\<close> hands it over; the steps of
  one request are taken without another request between them. A process that has exited is
  gone from the cluster, and a connection to it is refused.
\<close>

subsection \<open>The cluster\<close>

record 'db cluster =
  the_master :: "master option"
  servers :: "i32 \<rightharpoonup> 'db shard_server"

definition cluster_init :: "'db cluster" where
  "cluster_init = \<lparr>the_master = Some master_init, servers = Map.empty\<rparr>"

text \<open>What the handlers are given besides the messages: the generated serialiser and parser,
  the database.\<close>

record 'db env =
  ser :: "shard_msg \<Rightarrow> string"
  parse :: "string \<Rightarrow> shard_msg"
  rocks :: "'db db_ops"

text \<open>A message that a process sends to a server without waiting for an answer.\<close>

definition deliver ::
  "'db env \<Rightarrow> i32 \<times> shard_msg \<Rightarrow> (i32 \<rightharpoonup> 'db shard_server) \<Rightarrow> (i32 \<rightharpoonup> 'db shard_server)" where
  "deliver E pm sv =
     (case sv (fst pm) of
        None \<Rightarrow> sv
      | Some s \<Rightarrow>
          (case server_iteration (parse E) (rocks E) True (received (ser E (snd pm))) s of
             (_, _, Inl f) \<Rightarrow> sv(fst pm := None)
           | (_, _, Inr s') \<Rightarrow> sv(fst pm \<mapsto> s')))"

definition deliver_all ::
  "'db env \<Rightarrow> sends \<Rightarrow> (i32 \<rightharpoonup> 'db shard_server) \<Rightarrow> (i32 \<rightharpoonup> 'db shard_server)" where
  "deliver_all E ss sv = fold (deliver E) ss sv"

text \<open>The master handles one message; \<open>None\<close> as the reply means that it sends none.\<close>

definition to_master ::
  "'db env \<Rightarrow> shard_msg \<Rightarrow> 'db cluster \<Rightarrow> shard_msg option \<times> 'db cluster" where
  "to_master E m c =
     (case the_master c of
        None \<Rightarrow> (None, c)
      | Some st \<Rightarrow>
          (case master_iteration (parse E) (\<lambda>p. servers c p \<noteq> None) (received (ser E m)) st of
             (ss, reply, r) \<Rightarrow>
               (reply, \<lparr>the_master = (case r of Inl _ \<Rightarrow> None | Inr st' \<Rightarrow> Some st'),
                        servers = deliver_all E ss (servers c)\<rparr>)))"

text \<open>The world of a client: \<open>mport\<close> is the port of the master. The master keeps the
  connection open when it has no answer; a server, or the exit of a process, closes it.\<close>

definition cluster_ask ::
  "'db env \<Rightarrow> i32 \<Rightarrow> i32 \<Rightarrow> shard_msg \<Rightarrow> 'db cluster \<Rightarrow> answer \<times> 'db cluster" where
  "cluster_ask E mport p m c =
     (if p = mport then
        (if the_master c = None then (Refused, c)
         else (case to_master E m c of
             (Some reply, c') \<Rightarrow> (Answer (received (ser E reply)), c')
           | (None, c') \<Rightarrow> ((if the_master c' = None then Answer (0, None) else Silence), c')))
      else (case servers c p of
          None \<Rightarrow> (Refused, c)
        | Some s \<Rightarrow>
            (case server_iteration (parse E) (rocks E) (the_master c \<noteq> None) (received (ser E m)) s of
               (reply, fwd, r) \<Rightarrow>
                 (let c' = c\<lparr>servers := (servers c)
                              (p := (case r of Inl _ \<Rightarrow> None | Inr s' \<Rightarrow> Some s'))\<rparr>;
                      c'' = (case fwd of None \<Rightarrow> c' | Some x \<Rightarrow> snd (to_master E x c'))
                  in (Answer (case reply of None \<Rightarrow> (0, None) | Some x \<Rightarrow> received (ser E x)), c'')))))"

text \<open>A server starts on the empty database \<open>d\<close>: it reports to the master and only then
  opens its socket. \<open>early\<close> says that the socket was open in time for the master's
  connections.\<close>

definition join :: "'db env \<Rightarrow> 'db \<Rightarrow> bool \<Rightarrow> i32 \<Rightarrow> 'db cluster \<Rightarrow> 'db cluster" where
  "join E d early p c =
     (if the_master c = None then c
      else (let new = c\<lparr>servers := (servers c)(p \<mapsto> server_start d)\<rparr>
            in if early then snd (to_master E (port_msg SERVER p) new)
               else (let c' = snd (to_master E (port_msg SERVER p) c)
                     in c'\<lparr>servers := (servers c')(p \<mapsto> server_start d)\<rparr>)))"

subsection \<open>A database whose updates succeed\<close>

context reliable_rocksdb
begin

lemma delete_all_succeeds: "\<exists>d'. delete_all D ks d = Inr d'"
proof (induction ks arbitrary: d)
  case (Cons k ks)
  with delete_succeeds [of k d] show ?case by (cases "db_delete D k d") auto
qed simp

lemma reorg_step:
  assumes "server_ok s" "type_of m = REORG"
  shows "\<exists>s'. server_step D up m s = (None, None, Inr s') \<and> server_ok s' \<and>
    (\<forall>x. db_get D x (db s') = None)"
proof -
  obtain d' where "delete_all D (keys s) (db s) = Inr d'" using delete_all_succeeds by blast
  then have s': "server_step D up m s = (None, None, Inr (s\<lparr>db := d', keys := []\<rparr>))"
    using assms(2) by (simp add: server_step_def)
  with reorg_empties [OF assms s'] server_step_ok [OF assms(1) s'] show ?thesis by blast
qed

lemma put_step:
  assumes "server_ok s"
  shows "\<exists>s'. server_ok s' \<and>
      (\<forall>x. db_get D x (db s') = (if x = put_key k then Some (c_str v) else db_get D x (db s))) \<and>
      server_step D up (put_msg REORG_PUT k v) s = (None, None, Inr s') \<and>
      server_step D True (put_msg PUT k v) s =
        (Some (generateMessage True), Some (put_msg MASTER_PUT k v), Inr s')"
proof -
  obtain d' where d': "db_put D (put_key k) (c_str v) (db s) = (True, d')"
    using put_succeeds [of "put_key k" "c_str v" "db s"]
    by (cases "db_put D (put_key k) (c_str v) (db s)") auto
  show ?thesis
    using d' put_tracked(1) [OF conjunct1 [OF assms] conjunct2 [OF assms] d']
      put_ok [OF conjunct1 [OF assms] d'] put_then_get(1) [OF conjunct1 [OF assms] d']
    by (intro exI [of _ "s\<lparr>db := d', keys := keys s @ [put_key k]\<rparr>"])
       (simp add: server_step_def Let_def)
qed

end

subsection \<open>Messages that arrive as they were sent\<close>

definition clean :: "'db env \<Rightarrow> shard_msg \<Rightarrow> bool" where
  "clean E m \<longleftrightarrow> ser E m \<noteq> [] \<and> NUL \<notin> set (ser E m) \<and> length (ser E m) < 2 ^ 32 \<and>
     parse E (ser E m) = m"

lemma clean_iteration [simp]:
  assumes "clean E m"
  shows "server_iteration (parse E) D up (received (ser E m)) s = server_step D up m s"
    and "master_iteration (parse E) con (received (ser E m)) st = master_step con m st"
  using assms by (simp_all add: clean_def server_iteration_def master_iteration_def)

text \<open>A reply whose status arrives as it was meant, whatever becomes of its other fields.\<close>

definition answers :: "'db env \<Rightarrow> shard_msg \<Rightarrow> bool \<Rightarrow> bool" where
  "answers E m b \<longleftrightarrow> ser E m \<noteq> [] \<and> (status_of (parse E (c_str (ser E m))) \<noteq> 0) = b"

text \<open>The contents of the servers: what a \<open>Get\<close> of a key returns at a port.\<close>

definition view ::
  "'db db_ops \<Rightarrow> (i32 \<rightharpoonup> 'db shard_server) \<Rightarrow> i32 \<Rightarrow> string \<Rightarrow> string option" where
  "view D sv p x = (case sv p of None \<Rightarrow> None | Some s \<Rightarrow> db_get D x (db s))"

abbreviation reorg_msg :: shard_msg where
  "reorg_msg \<equiv> empty_msg\<lparr>m_type := Some REORG\<rparr>"

text \<open>A message of the second loop of a redistribution, and what it does to the contents.\<close>

definition put_send :: "(int \<Rightarrow> i32) \<Rightarrow> int \<times> string \<Rightarrow> i32 \<times> shard_msg" where
  "put_send f kv = (f (fst kv), put_msg REORG_PUT (word_of_int (fst kv)) (snd kv))"

definition place ::
  "(int \<Rightarrow> i32) \<Rightarrow> int \<times> string \<Rightarrow> (i32 \<Rightarrow> string \<Rightarrow> string option) \<Rightarrow> (i32 \<Rightarrow> string \<Rightarrow> string option)"
  where
  "place f kv vw = (let p = f (fst kv)
     in vw(p := (vw p)(put_key (word_of_int (fst kv)) \<mapsto> c_str (snd kv))))"

lemma place_all:
  assumes "distinct (map fst kvs)" "\<forall>k\<in>fst ` set kvs. 0 \<le> k \<and> k < 2 ^ 31"
  shows "fold (place f) kvs vw q (to_string k) =
    (if f k = q \<and> map_of kvs k \<noteq> None then map_option c_str (map_of kvs k) else vw q (to_string k))"
  using assms
proof (induction kvs arbitrary: vw)
  case Nil
  then show ?case by simp
next
  case (Cons kv kvs)
  obtain j v where kv: "kv = (j, v)" by (cases kv)
  with Cons.prems sint_small [of j] have j: "put_key (word_of_int j) = to_string j"
    by (simp add: put_key_def)
  from Cons.prems kv have "map_of kvs j = None" by (auto simp: map_of_eq_None_iff)
  with Cons kv j show ?case by (auto simp: place_def Let_def)
qed

context reliable_rocksdb
begin

abbreviation all_ok :: "(i32 \<rightharpoonup> 'a shard_server) \<Rightarrow> bool" where
  "all_ok sv \<equiv> \<forall>p s. sv p = Some s \<longrightarrow> server_ok s"

lemma deliver_reorg:
  assumes "rocks E = D" "clean E reorg_msg" "all_ok sv" "p \<in> dom sv"
  shows "all_ok (deliver E (p, reorg_msg) sv)" "dom (deliver E (p, reorg_msg) sv) = dom sv"
    "view D (deliver E (p, reorg_msg) sv) = (view D sv)(p := \<lambda>_. None)"
proof -
  obtain s where s: "sv p = Some s" "server_ok s" using assms(3,4) by blast
  from reorg_step [OF s(2), of reorg_msg True] obtain s' where
    s': "server_step D True reorg_msg s = (None, None, Inr s')" "server_ok s'"
      "\<forall>x. db_get D x (db s') = None" by auto
  then have "deliver E (p, reorg_msg) sv = sv(p \<mapsto> s')"
    using s assms(1,2) by (simp add: deliver_def)
  with s s' assms(3) show "all_ok (deliver E (p, reorg_msg) sv)"
      "dom (deliver E (p, reorg_msg) sv) = dom sv"
      "view D (deliver E (p, reorg_msg) sv) = (view D sv)(p := \<lambda>_. None)"
    by (auto simp: view_def fun_eq_iff split: if_splits)
qed

lemma deliver_put:
  assumes "rocks E = D" "clean E (put_msg REORG_PUT k v)" "all_ok sv" "p \<in> dom sv"
  shows "all_ok (deliver E (p, put_msg REORG_PUT k v) sv)"
    "dom (deliver E (p, put_msg REORG_PUT k v) sv) = dom sv"
    "view D (deliver E (p, put_msg REORG_PUT k v) sv) =
       (view D sv)(p := (view D sv p)(put_key k \<mapsto> c_str v))"
proof -
  let ?m = "put_msg REORG_PUT k v"
  obtain s where s: "sv p = Some s" "server_ok s" using assms(3,4) by blast
  from put_step [OF s(2), of k v True] obtain s' where
    s': "server_step D True ?m s = (None, None, Inr s')" "server_ok s'"
      "\<forall>x. db_get D x (db s') = (if x = put_key k then Some (c_str v) else db_get D x (db s))"
    by blast
  then have "deliver E (p, ?m) sv = sv(p \<mapsto> s')"
    using s assms(1,2) by (simp add: deliver_def)
  with s s' assms(3) show "all_ok (deliver E (p, ?m) sv)" "dom (deliver E (p, ?m) sv) = dom sv"
      "view D (deliver E (p, ?m) sv) = (view D sv)(p := (view D sv p)(put_key k \<mapsto> c_str v))"
    by (auto simp: view_def fun_eq_iff split: if_splits)
qed

lemma deliver_reorgs:
  assumes "rocks E = D" "clean E reorg_msg"
  shows "all_ok sv \<Longrightarrow> set ps \<subseteq> dom sv \<Longrightarrow>
    all_ok (deliver_all E (map (\<lambda>p. (p, reorg_msg)) ps) sv) \<and>
    dom (deliver_all E (map (\<lambda>p. (p, reorg_msg)) ps) sv) = dom sv \<and>
    view D (deliver_all E (map (\<lambda>p. (p, reorg_msg)) ps) sv) =
      (\<lambda>q. if q \<in> set ps then \<lambda>_. None else view D sv q)"
proof (induction ps arbitrary: sv)
  case Nil
  then show ?case by (simp add: deliver_all_def)
next
  case (Cons p ps)
  have p: "p \<in> dom sv" using Cons.prems(2) by simp
  let ?sv = "deliver E (p, reorg_msg) sv"
  note d = deliver_reorg [OF assms Cons.prems(1) p]
  from Cons.IH [OF d(1)] Cons.prems(2) d(2)
  have "all_ok (deliver_all E (map (\<lambda>p. (p, reorg_msg)) ps) ?sv) \<and>
      dom (deliver_all E (map (\<lambda>p. (p, reorg_msg)) ps) ?sv) = dom sv \<and>
      view D (deliver_all E (map (\<lambda>p. (p, reorg_msg)) ps) ?sv) =
        (\<lambda>q. if q \<in> set ps then \<lambda>_. None else view D ?sv q)" by simp
  then show ?case unfolding d(3) by (simp add: deliver_all_def fun_eq_iff)
qed

lemma deliver_puts:
  assumes "rocks E = D"
  shows "all_ok sv \<Longrightarrow>
    (\<forall>kv\<in>set kvs. f (fst kv) \<in> dom sv \<and> clean E (snd (put_send f kv))) \<Longrightarrow>
    all_ok (deliver_all E (map (put_send f) kvs) sv) \<and>
    dom (deliver_all E (map (put_send f) kvs) sv) = dom sv \<and>
    view D (deliver_all E (map (put_send f) kvs) sv) = fold (place f) kvs (view D sv)"
proof (induction kvs arbitrary: sv)
  case Nil
  then show ?case by (simp add: deliver_all_def)
next
  case (Cons kv kvs)
  obtain k v where kv: "kv = (k, v)" by (cases kv)
  with Cons.prems(2) have "clean E (put_msg REORG_PUT (word_of_int k) v)" "f k \<in> dom sv"
    by (auto simp: put_send_def)
  note d = deliver_put [OF assms this(1) Cons.prems(1) this(2)]
  have "all_ok (deliver E (put_send f kv) sv)" "dom (deliver E (put_send f kv) sv) = dom sv"
    "view D (deliver E (put_send f kv) sv) = place f kv (view D sv)"
    using d by (simp_all add: kv put_send_def place_def Let_def)
  with Cons.prems(2) Cons.IH [of "deliver E (put_send f kv) sv"]
  show ?case by (simp add: deliver_all_def)
qed

end

subsection \<open>What a redistribution sends and does\<close>

definition server_port :: "master \<Rightarrow> int \<Rightarrow> i32" where
  "server_port st k = the (map_of (server_port_map st) (k mod num_servers st + 1))"

abbreviation ports :: "master \<Rightarrow> i32 set" where
  "ports st \<equiv> snd ` set (server_port_map st)"

lemma send_reorg_all:
  "snd ` set m \<subseteq> {p. con p} \<Longrightarrow> send_reorg con m = (map (\<lambda>p. (p, reorg_msg)) (map snd m), Inr ())"
  by (induction m) auto

lemma send_puts_all:
  assumes "master_ok st" "0 < num_servers st" "ports st \<subseteq> {p. con p}"
  shows "\<forall>k\<in>fst ` set kv. 0 \<le> k \<Longrightarrow>
    send_puts con st kv = (map (put_send (server_port st)) kv, Inr ())"
proof (induction kv)
  case (Cons kv kvs)
  obtain k v where kv: "kv = (k, v)" by (cases kv)
  with Cons.prems have "0 \<le> k" by simp
  with assms(1,2) obtain p where p: "shard_port st k = Inr p"
    "map_of (server_port_map st) (k mod num_servers st + 1) = Some p" by (rule shard_port_total)
  then have "p \<in> ports st" by (force dest: map_of_SomeD)
  with p have "server_port st k = p" "con p" using assms(3) by (auto simp: server_port_def)
  with p Cons kv show ?case by (simp add: put_send_def)
qed simp

lemma redistribute_all:
  assumes "master_ok st" "0 < num_servers st" "ports st \<subseteq> {p. con p}"
    and "\<forall>k\<in>fst ` set (kv_map st). 0 \<le> k"
  shows "redistribute con st =
    (map (\<lambda>p. (p, reorg_msg)) (map snd (server_port_map st)) @
       map (put_send (server_port st)) (kv_map st), Inr st)"
  using assms send_reorg_all [OF assms(3)]
  by (simp add: redistribute_def send_puts_all del: map_map)

lemma server_port_in:
  assumes "master_ok st" "0 < num_servers st" "0 \<le> k"
  shows "server_port st k \<in> ports st"
proof -
  from assms obtain p where "map_of (server_port_map st) (k mod num_servers st + 1) = Some p"
    by (rule shard_port_total)
  then show ?thesis by (force simp: server_port_def dest: map_of_SomeD)
qed

lemma deliver_all_append [simp]:
  "deliver_all E (xs @ ys) sv = deliver_all E ys (deliver_all E xs sv)"
  by (simp add: deliver_all_def)

context reliable_rocksdb
begin

lemma redistribution:
  assumes E: "rocks E = D" "clean E reorg_msg"
    and st: "master_ok st" "0 < num_servers st"
    and kv: "\<forall>(k, v)\<in>set (kv_map st). 0 \<le> k \<and> k < 2 ^ 31 \<and>
               clean E (put_msg REORG_PUT (word_of_int k) v)"
    and sv: "all_ok sv" "ports st \<subseteq> dom sv"
  shows "\<exists>ss. redistribute (\<lambda>p. sv p \<noteq> None) st = (ss, Inr st) \<and>
    all_ok (deliver_all E ss sv) \<and> dom (deliver_all E ss sv) = dom sv \<and>
    (\<forall>q k. q \<in> ports st \<longrightarrow>
       view D (deliver_all E ss sv) q (to_string k) =
         (if q = server_port st k then map_option c_str (map_of (kv_map st) k) else None))"
proof -
  let ?rs = "map (\<lambda>p. (p, reorg_msg)) (map snd (server_port_map st))"
  let ?ps = "map (put_send (server_port st)) (kv_map st)"
  have k0: "\<forall>k\<in>fst ` set (kv_map st). 0 \<le> k \<and> k < 2 ^ 31" using kv by fastforce
  then have red: "redistribute (\<lambda>p. sv p \<noteq> None) st = (?rs @ ?ps, Inr st)"
    using st sv(2) by (intro redistribute_all) auto
  have "set (map snd (server_port_map st)) \<subseteq> dom sv" using sv(2) by simp
  note r = deliver_reorgs [OF E sv(1) this]
  have "\<forall>x\<in>set (kv_map st). server_port st (fst x) \<in> dom (deliver_all E ?rs sv) \<and>
      clean E (snd (put_send (server_port st) x))"
    using kv r sv(2) server_port_in [OF st] by (fastforce simp: put_send_def)
  with r have p: "all_ok (deliver_all E ?ps (deliver_all E ?rs sv)) \<and>
      dom (deliver_all E ?ps (deliver_all E ?rs sv)) = dom (deliver_all E ?rs sv) \<and>
      view D (deliver_all E ?ps (deliver_all E ?rs sv)) =
        fold (place (server_port st)) (kv_map st) (view D (deliver_all E ?rs sv))"
    by (intro deliver_puts [OF E(1)]) auto
  have "distinct (map fst (kv_map st))"
    using st(1) by (auto simp: master_ok_def intro: smap_ok_distinct)
  note view = place_all [OF this k0]
  have "view D (deliver_all E (?rs @ ?ps) sv) q (to_string k) =
      (if q = server_port st k then map_option c_str (map_of (kv_map st) k) else None)"
    if "q \<in> ports st" for q k
  proof -
    have "view D (deliver_all E (?rs @ ?ps) sv) =
        fold (place (server_port st)) (kv_map st)
          (\<lambda>q. if q \<in> ports st then \<lambda>_. None else view D sv q)"
      using p r by (simp del: map_map)
    then show ?thesis using that by (simp only: view) auto
  qed
  with red p r show ?thesis by (intro exI [of _ "?rs @ ?ps"]) (simp del: map_map)
qed

end

subsection \<open>Runs of the system\<close>

text \<open>A server joins and is ready in time; a client stores or reads a key.\<close>

datatype event = Join i32 | Put_Req i32 string | Get_Req i32

definition put_args :: "i32 \<Rightarrow> i32 \<Rightarrow> string \<Rightarrow> client_args" where
  "put_args mport k v = \<lparr>operation = ''PUT'', ckey = k, cvalue = v, master_port = mport\<rparr>"

definition get_args :: "i32 \<Rightarrow> i32 \<Rightarrow> client_args" where
  "get_args mport k = \<lparr>operation = ''GET'', ckey = k, cvalue = [], master_port = mport\<rparr>"

definition run_client ::
  "'db env \<Rightarrow> i32 \<Rightarrow> client_args \<Rightarrow> 'db cluster \<Rightarrow> int res option \<times> 'db cluster" where
  "run_client E mport a c = client_run (parse E) (cluster_ask E mport) a c"

fun apply_event :: "'db env \<Rightarrow> 'db \<Rightarrow> i32 \<Rightarrow> event \<Rightarrow> 'db cluster \<Rightarrow> 'db cluster" where
  "apply_event E d mport (Join p) c = join E d True p c"
| "apply_event E d mport (Put_Req k v) c = snd (run_client E mport (put_args mport k v) c)"
| "apply_event E d mport (Get_Req k) c = snd (run_client E mport (get_args mport k) c)"

definition run_events :: "'db env \<Rightarrow> 'db \<Rightarrow> i32 \<Rightarrow> event list \<Rightarrow> 'db cluster" where
  "run_events E d mport es = fold (apply_event E d mport) es cluster_init"

text \<open>The ports in the order of joining, and the first value ever stored under each key.\<close>

fun joined :: "event list \<Rightarrow> i32 list" where
  "joined [] = []"
| "joined (Join p # es) = p # joined es"
| "joined (_ # es) = joined es"

fun note_put :: "event \<Rightarrow> (i32 \<rightharpoonup> string) \<Rightarrow> (i32 \<rightharpoonup> string)" where
  "note_put (Put_Req k v) m = (if m k = None then m(k \<mapsto> v) else m)"
| "note_put _ m = m"

definition first_puts :: "event list \<Rightarrow> i32 \<rightharpoonup> string" where
  "first_puts es = fold note_put es Map.empty"

text \<open>Runs without the requests that stop the master, and the messages of a run.\<close>

fun valid :: "i32 \<Rightarrow> nat \<Rightarrow> event list \<Rightarrow> bool" where
  "valid mport n [] \<longleftrightarrow> True"
| "valid mport n (Join p # es) \<longleftrightarrow> p \<noteq> mport \<and> valid mport (Suc n) es"
| "valid mport n (Put_Req k v # es) \<longleftrightarrow> 0 < n \<and> 0 \<le> sint k \<and> NUL \<notin> set v \<and> valid mport n es"
| "valid mport n (Get_Req k # es) \<longleftrightarrow> 0 < n \<and> 0 \<le> sint k \<and> valid mport n es"

fun event_msgs :: "event \<Rightarrow> shard_msg list" where
  "event_msgs (Join p) = [port_msg SERVER p, port_msg REPLY p]"
| "event_msgs (Put_Req k v) =
     [key_msg GET k, put_msg PUT k v, put_msg MASTER_PUT k v, put_msg REORG_PUT k v]"
| "event_msgs (Get_Req k) = [key_msg GET k]"

definition run_msgs :: "event list \<Rightarrow> shard_msg list" where
  "run_msgs es = reorg_msg # generateMessage True # concat (map event_msgs es)"

lemma joined_append [simp]: "joined (xs @ ys) = joined xs @ joined ys"
  by (induction xs rule: joined.induct) auto

lemma valid_append [simp]:
  "valid mport n (xs @ ys) \<longleftrightarrow> valid mport n xs \<and> valid mport (n + length (joined xs)) ys"
  by (induction mport n xs rule: valid.induct) auto

lemma run_events_snoc [simp]:
  "run_events E d mport (es @ [ev]) = apply_event E d mport ev (run_events E d mport es)"
  by (simp add: run_events_def)

lemma first_puts_snoc [simp]: "first_puts (es @ [ev]) = note_put ev (first_puts es)"
  by (simp add: first_puts_def)

lemma valid_puts:
  "valid mport n es \<Longrightarrow> Put_Req k v \<in> set es \<Longrightarrow> 0 \<le> sint k \<and> NUL \<notin> set v"
  by (induction mport n es rule: valid.induct) auto

lemma valid_joins: "valid mport n es \<Longrightarrow> mport \<notin> set (joined es)"
  by (induction mport n es rule: valid.induct) auto

definition enum_ports :: "i32 list \<Rightarrow> (int \<times> i32) list" where
  "enum_ports ps = map (\<lambda>i. (int i + 1, ps ! i)) [0..<length ps]"

lemma enum_ports_snoc [simp]:
  "enum_ports (ps @ [p]) = enum_ports ps @ [(int (length ps) + 1, p)]"
  by (auto simp: enum_ports_def nth_append)

lemma snd_enum_ports [simp]: "map snd (enum_ports ps) = ps"
  by (simp add: enum_ports_def comp_def map_nth)

lemma ports_enum [simp]: "snd ` set (enum_ports ps) = set ps"
  by (metis list.set_map snd_enum_ports)

lemma map_of_enum_ports: "i < length ps \<Longrightarrow> map_of (enum_ports ps) (int i + 1) = Some (ps ! i)"
proof (induction ps arbitrary: i rule: rev_induct)
  case (snoc p ps)
  have "map_of (enum_ports ps) (int (length ps) + 1) = None"
    by (auto simp: enum_ports_def map_of_eq_None_iff)
  with snoc show ?case by (cases "i = length ps") (auto simp: map_add_Some_iff nth_append)
qed simp

lemma smap_insert_last:
  "\<forall>a\<in>fst ` set m. a < k \<Longrightarrow> smap_insert k v m = m @ [(k, v)]"
  by (induction k v m rule: smap_insert.induct) auto

subsection \<open>The invariant of a run\<close>

text \<open>The master knows exactly the servers that joined and the first value of every key.\<close>

definition knows :: "event list \<Rightarrow> master \<Rightarrow> bool" where
  "knows es st \<longleftrightarrow> master_ok st \<and> num_servers st = int (length (joined es)) \<and>
     server_port_map st = enum_ports (joined es) \<and>
     (\<forall>k. map_of (kv_map st) (sint k) = first_puts es k) \<and>
     (\<forall>(i, v)\<in>set (kv_map st). \<exists>k. i = sint k \<and> Put_Req k v \<in> set es)"

lemma knowsD:
  assumes "knows es st"
  shows "master_ok st" "num_servers st = int (length (joined es))" "ports st = set (joined es)"
  using assms by (simp_all add: knows_def)

lemma knows_init [simp]: "knows [] master_init"
  using master_init_ok by (simp add: knows_def master_init_def enum_ports_def first_puts_def)

lemma knows_get [simp]: "knows (es @ [Get_Req k]) st \<longleftrightarrow> knows es st"
  by (simp add: knows_def)

lemma knows_join:
  assumes "knows es st"
  shows "knows (es @ [Join p]) (st\<lparr>num_servers := num_servers st + 1,
     server_port_map := smap_insert (num_servers st + 1) p (server_port_map st)\<rparr>)"
proof -
  from assms have st: "master_ok st" "num_servers st = int (length (joined es))"
    "server_port_map st = enum_ports (joined es)" by (simp_all add: knows_def)
  have "smap_insert (int (length (joined es)) + 1) p (enum_ports (joined es)) =
      enum_ports (joined es @ [p])"
    by (subst smap_insert_last) (auto simp: enum_ports_def nth_append)
  with join_ok [OF st(1), of p] assms st(2,3) show ?thesis
    by (simp add: knows_def)
qed

lemma knows_put:
  assumes "knows es st"
  shows "knows (es @ [Put_Req k v]) (st\<lparr>kv_map := smap_insert (sint k) v (kv_map st)\<rparr>)"
proof -
  have ok: "master_ok st" "smap_ok (kv_map st)"
    using assms unfolding knows_def master_ok_def by blast+
  have "map_of (smap_insert (sint k) v (kv_map st)) (sint j) =
      note_put (Put_Req k v) (first_puts es) j" for j
    using assms by (auto simp: knows_def map_of_smap_insert [OF ok(2)] dest: signed_word_eqI)
  moreover have "\<forall>(i, w)\<in>set (smap_insert (sint k) v (kv_map st)).
      \<exists>j. i = sint j \<and> Put_Req j w \<in> set (es @ [Put_Req k v])"
    using assms set_smap_insert [of "sint k" v "kv_map st"] by (fastforce simp: knows_def)
  moreover have "master_ok (st\<lparr>kv_map := smap_insert (sint k) v (kv_map st)\<rparr>)"
    using ok smap_ok_insert by (auto simp: master_ok_def)
  ultimately show ?thesis using assms by (simp add: knows_def)
qed

lemma knows_port:
  assumes "knows es st" "0 < num_servers st" "0 \<le> k"
  shows "server_port st k = joined es ! nat (k mod int (length (joined es)))"
    "shard_port st k = Inr (server_port st k)"
    "server_port st k \<in> set (joined es)"
proof -
  let ?n = "int (length (joined es))"
  have st: "master_ok st" "num_servers st = ?n" "server_port_map st = enum_ports (joined es)"
    using assms(1) by (simp_all add: knows_def)
  have "nat (k mod ?n) < length (joined es)" using assms(2) st(2) by (simp add: nat_less_iff)
  from map_of_enum_ports [OF this] show "server_port st k = joined es ! nat (k mod ?n)"
    using assms(2) st by (simp add: server_port_def)
  from shard_port_total [OF st(1) assms(2,3)] show "shard_port st k = Inr (server_port st k)"
    by (metis option.sel server_port_def)
  show "server_port st k \<in> set (joined es)"
    using server_port_in [OF st(1) assms(2,3)] st(3) by simp
qed

lemma to_master_quiet:
  assumes "the_master c = Some st" "clean E m"
    and "master_step (\<lambda>p. servers c p \<noteq> None) m st = ([], r, Inr st')"
  shows "to_master E m c = (r, c\<lparr>the_master := Some st'\<rparr>)"
  using assms by (simp add: to_master_def deliver_all_def)

context reliable_rocksdb
begin

text \<open>The invariant: the master is alive and knows, every server that joined is alive, its
  key list complete.\<close>

abbreviation run_inv :: "event list \<Rightarrow> 'a cluster \<Rightarrow> bool" where
  "run_inv es c \<equiv> (\<exists>st. the_master c = Some st \<and> knows es st) \<and>
     dom (servers c) = set (joined es) \<and> all_ok (servers c)"

lemma ask_master_get:
  assumes "the_master c = Some st" "knows es st" "0 < num_servers st" "0 \<le> sint k"
    and "clean E (key_msg GET k)"
  shows "cluster_ask E mport mport (key_msg GET k) c =
    (Answer (received (ser E (port_msg REPLY (server_port st (sint k))))), c)"
proof -
  have "master_step (\<lambda>p. servers c p \<noteq> None) (key_msg GET k) st =
      ([], Some (port_msg REPLY (server_port st (sint k))), Inr st)"
    using knows_port(2) [OF assms(2-4)] by (simp add: master_step_def)
  from to_master_quiet [OF assms(1,5) this] have
    "to_master E (key_msg GET k) c =
      (Some (port_msg REPLY (server_port st (sint k))), c\<lparr>the_master := Some st\<rparr>)" .
  with assms(1) show ?thesis by (simp add: cluster_ask_def)
qed

lemma request_args [simp]:
  "request_msg (put_args mport k v) = put_msg PUT k v" "request_msg (get_args mport k) = key_msg GET k"
  "ckey (put_args mport k v) = k" "ckey (get_args mport k) = k"
  "client_args.master_port (put_args mport k v) = mport" "client_args.master_port (get_args mport k) = mport"
  by (simp_all add: request_msg_def put_args_def get_args_def put_msg_def key_msg_def empty_msg_def)

lemma ask_server_put:
  assumes "rocks E = D" "the_master c = Some st" "p \<noteq> mport" "servers c p = Some s" "server_ok s"
    and "clean E (put_msg PUT k v)" "clean E (put_msg MASTER_PUT k v)"
  shows "\<exists>s'. server_ok s' \<and>
    (\<forall>x. db_get D x (db s') = (if x = put_key k then Some (c_str v) else db_get D x (db s))) \<and>
    cluster_ask E mport p (put_msg PUT k v) c =
      (Answer (received (ser E (generateMessage True))),
       \<lparr>the_master = Some (st\<lparr>kv_map := smap_insert (sint k) v (kv_map st)\<rparr>),
        servers = (servers c)(p \<mapsto> s')\<rparr>)"
proof -
  from put_step [OF assms(5), of k v True] obtain s' where s': "server_ok s'"
    "\<forall>x. db_get D x (db s') = (if x = put_key k then Some (c_str v) else db_get D x (db s))"
    "server_step D True (put_msg PUT k v) s =
      (Some (generateMessage True), Some (put_msg MASTER_PUT k v), Inr s')" by blast
  let ?c = "c\<lparr>servers := (servers c)(p \<mapsto> s')\<rparr>"
  have "to_master E (put_msg MASTER_PUT k v) ?c =
      (None, ?c\<lparr>the_master := Some (st\<lparr>kv_map := smap_insert (sint k) v (kv_map st)\<rparr>)\<rparr>)"
    using assms(2,7) by (intro to_master_quiet) (auto simp: master_step_def)
  with s'(3) assms(1-4,6) have "cluster_ask E mport p (put_msg PUT k v) c =
      (Answer (received (ser E (generateMessage True))),
       \<lparr>the_master = Some (st\<lparr>kv_map := smap_insert (sint k) v (kv_map st)\<rparr>),
        servers = (servers c)(p \<mapsto> s')\<rparr>)"
    by (simp add: cluster_ask_def)
  with s' show ?thesis by blast
qed

lemma run_put:
  assumes "rocks E = D" "run_inv es c" "valid mport 0 (es @ [Put_Req k v])"
    and "\<forall>m\<in>set (run_msgs (es @ [Put_Req k v])). clean E m"
  shows "fst (run_client E mport (put_args mport k v) c) = Some (Inr 0)"
    and "run_inv (es @ [Put_Req k v]) (snd (run_client E mport (put_args mport k v) c))"
proof -
  obtain st where st: "the_master c = Some st" "knows es st" using assms(2) by blast
  have n: "0 < num_servers st" "0 \<le> sint k" using assms(3) st(2) by (auto simp: knows_def)
  have cl: "clean E (key_msg GET k)" "clean E (put_msg PUT k v)" "clean E (put_msg MASTER_PUT k v)"
    "clean E (generateMessage True)" using assms(4) by (auto simp: run_msgs_def)
  let ?p = "server_port st (sint k)"
  have p: "?p \<in> set (joined es)" by (rule knows_port(3) [OF st(2) n])
  then have "port_msg REPLY ?p \<in> set (run_msgs es)"
    unfolding run_msgs_def by (induction es rule: joined.induct) auto
  then have cp: "clean E (port_msg REPLY ?p)" using assms(4) by (auto simp: run_msgs_def)
  have mp: "?p \<noteq> mport" using p valid_joins [of mport 0 es] assms(3) by auto
  obtain s where s: "servers c ?p = Some s" "server_ok s" using p assms(2) by blast
  note g = ask_master_get [OF st n cl(1)]
  from ask_server_put [OF assms(1) st(1) mp s cl(2,3)] obtain s' where s': "server_ok s'"
    "cluster_ask E mport ?p (put_msg PUT k v) c =
      (Answer (received (ser E (generateMessage True))),
       \<lparr>the_master = Some (st\<lparr>kv_map := smap_insert (sint k) v (kv_map st)\<rparr>),
        servers = (servers c)(?p \<mapsto> s')\<rparr>)" by blast
  have "run_client E mport (put_args mport k v) c = (Some (Inr 0),
      \<lparr>the_master = Some (st\<lparr>kv_map := smap_insert (sint k) v (kv_map st)\<rparr>),
       servers = (servers c)(?p \<mapsto> s')\<rparr>)"
    using g s'(2) cp cl(4) by (simp add: run_client_def client_run_def clean_def)
  with s'(1) assms(2) p knows_put [OF st(2), of k v]
  show "fst (run_client E mport (put_args mport k v) c) = Some (Inr 0)"
    "run_inv (es @ [Put_Req k v]) (snd (run_client E mport (put_args mport k v) c))" by auto
qed

lemma run_get:
  assumes "rocks E = D" "run_inv es c" "valid mport 0 (es @ [Get_Req k])"
    and "\<forall>m\<in>set (run_msgs (es @ [Get_Req k])). clean E m"
  shows "snd (run_client E mport (get_args mport k) c) = c"
    and "\<exists>st. the_master c = Some st \<and> knows es st \<and>
      (let r = view D (servers c) (server_port st (sint k)) (get_key k);
           reply = (generateMessage (r \<noteq> None))\<lparr>m_value := Some (case r of None \<Rightarrow> [] | Some v \<Rightarrow> v)\<rparr>
       in answers E reply (r \<noteq> None) \<longrightarrow>
          fst (run_client E mport (get_args mport k) c) = Some (Inr (if r = None then 2 else 0)))"
proof -
  obtain st where st: "the_master c = Some st" "knows es st" using assms(2) by blast
  have n: "0 < num_servers st" "0 \<le> sint k" using assms(3) st(2) by (auto simp: knows_def)
  have cl: "clean E (key_msg GET k)" using assms(4) by (auto simp: run_msgs_def)
  let ?p = "server_port st (sint k)"
  have p: "?p \<in> set (joined es)" by (rule knows_port(3) [OF st(2) n])
  then have "port_msg REPLY ?p \<in> set (run_msgs es)"
    unfolding run_msgs_def by (induction es rule: joined.induct) auto
  then have cp: "clean E (port_msg REPLY ?p)" using assms(4) by (auto simp: run_msgs_def)
  have mp: "?p \<noteq> mport" using p valid_joins [of mport 0 es] assms(3) by auto
  obtain s where s: "servers c ?p = Some s" "server_ok s" using p assms(2) by blast
  let ?r = "db_get D (get_key k) (db s)"
  let ?reply = "(generateMessage (?r \<noteq> None))\<lparr>m_value := Some (case ?r of None \<Rightarrow> [] | Some v \<Rightarrow> v)\<rparr>"
  have upd: "(servers c)(?p \<mapsto> s) = servers c" using s(1) by (simp add: fun_upd_idem)
  have a: "cluster_ask E mport ?p (key_msg GET k) c = (Answer (received (ser E ?reply)), c)"
    using mp s cl assms(1) st(1) upd by (simp add: cluster_ask_def server_step_GET)
  note g = ask_master_get [OF st n cl]
  have run: "run_client E mport (get_args mport k) c =
      (if ser E ?reply = [] then (Some (Inr 2), c)
       else (Some (Inr (if status_of (parse E (c_str (ser E ?reply))) \<noteq> 0 then 0 else 2)), c))"
    using g a cp by (simp add: run_client_def client_run_def clean_def)
  then show "snd (run_client E mport (get_args mport k) c) = c" by (simp split: if_splits)
  from run s(1) st show "\<exists>st. the_master c = Some st \<and> knows es st \<and>
      (let r = view D (servers c) (server_port st (sint k)) (get_key k);
           reply = (generateMessage (r \<noteq> None))\<lparr>m_value := Some (case r of None \<Rightarrow> [] | Some v \<Rightarrow> v)\<rparr>
       in answers E reply (r \<noteq> None) \<longrightarrow>
          fst (run_client E mport (get_args mport k) c) = Some (Inr (if r = None then 2 else 0)))"
    by (intro exI [of _ st]) (simp add: view_def Let_def answers_def)
qed

lemma first_puts_clean:
  assumes "valid mport 0 es" "knows es st"
  shows "map_option c_str (first_puts es k) = first_puts es k"
proof (cases "first_puts es k")
  case (Some v)
  with assms(2) have "map_of (kv_map st) (sint k) = Some v" by (simp add: knows_def)
  then have "(sint k, v) \<in> set (kv_map st)" by (rule map_of_SomeD)
  with assms(2) obtain j where "Put_Req j v \<in> set es" unfolding knows_def by fastforce
  with valid_puts [OF assms(1)] Some show ?thesis by auto
qed simp

lemma first_puts_negative:
  assumes "valid mport 0 es" "knows es st" "sint k < 0"
  shows "first_puts es k = None"
proof (cases "first_puts es k")
  case (Some v)
  with assms(2) have "map_of (kv_map st) (sint k) = Some v" by (simp add: knows_def)
  then have "(sint k, v) \<in> set (kv_map st)" by (rule map_of_SomeD)
  with assms(2) obtain j where "sint k = sint j" "Put_Req j v \<in> set es" unfolding knows_def by fastforce
  with valid_puts [OF assms(1)] assms(3) show ?thesis by force
qed simp

lemma run_join:
  assumes "rocks E = D" "db_ok d" "\<forall>x. db_get D x d = None"
    and inv: "run_inv es c" and v: "valid mport 0 (es @ [Join p])"
    and cl: "\<forall>m\<in>set (run_msgs (es @ [Join p])). clean E m"
  shows "run_inv (es @ [Join p]) (join E d True p c) \<and>
    (2 \<le> length (joined es) \<longrightarrow>
      (\<forall>q k. q \<in> set (joined es @ [p]) \<longrightarrow>
        view D (servers (join E d True p c)) q (put_key k) =
          (if q = (joined es @ [p]) ! nat (sint k mod (int (length (joined es)) + 1))
           then first_puts es k else None)))"
proof -
  obtain st where st: "the_master c = Some st" "knows es st" using inv by blast
  let ?st = "st\<lparr>num_servers := num_servers st + 1,
      server_port_map := smap_insert (num_servers st + 1) p (server_port_map st)\<rparr>"
  let ?c = "c\<lparr>servers := (servers c)(p \<mapsto> server_start d)\<rparr>"
  note k = knows_join [OF st(2), of p]
  have n: "num_servers st = int (length (joined es))" using st(2) by (simp add: knows_def)
  have m: "clean E (port_msg SERVER p)" "clean E reorg_msg" using cl by (auto simp: run_msgs_def)
  have ok: "all_ok (servers ?c)" "dom (servers ?c) = set (joined es @ [p])"
    using inv assms(2,3) by (auto simp: server_start_def tracked_def split: if_splits)
  have j: "join E d True p c = snd (to_master E (port_msg SERVER p) ?c)"
    using st(1) by (simp add: join_def)
  show ?thesis
  proof (cases "2 \<le> length (joined es)")
    case False
    with n have "master_step (\<lambda>q. servers ?c q \<noteq> None) (port_msg SERVER p) st = ([], None, Inr ?st)"
      by (simp add: master_step_def Let_def)
    with to_master_quiet [of ?c st E "port_msg SERVER p" None ?st] st(1) m(1)
    have "join E d True p c = ?c\<lparr>the_master := Some ?st\<rparr>" by (simp add: j)
    with False k ok show ?thesis by auto
  next
    case True
    have kst: "master_ok ?st" "0 < num_servers ?st" "ports ?st = set (joined es @ [p])"
      using knowsD [OF k] n by simp_all
    have kv: "\<forall>(i, v)\<in>set (kv_map ?st). 0 \<le> i \<and> i < 2 ^ 31 \<and>
        clean E (put_msg REORG_PUT (word_of_int i) v)"
    proof (clarsimp)
      fix i w assume "(i, w) \<in> set (kv_map st)"
      with st(2) obtain x where x: "i = sint x" "Put_Req x w \<in> set es"
        unfolding knows_def by fastforce
      then have "put_msg REORG_PUT x w \<in> set (run_msgs es)" by (force simp: run_msgs_def)
      with cl have "clean E (put_msg REORG_PUT x w)" by (auto simp: run_msgs_def)
      moreover have "0 \<le> sint x" using valid_puts [of mport 0 es] v x(2) by auto
      ultimately show "0 \<le> i \<and> i < 2147483648 \<and> clean E (put_msg REORG_PUT (word_of_int i) w)"
        using x(1) sint_lt [of x] by simp
    qed
    have ps: "ports ?st \<subseteq> dom (servers ?c)" using ok(2) kst(3) by simp
    from redistribution [OF assms(1) m(2) kst(1,2) kv ok(1) ps] obtain ss where
      ss: "redistribute (\<lambda>q. servers ?c q \<noteq> None) ?st = (ss, Inr ?st)"
        "all_ok (deliver_all E ss (servers ?c))" "dom (deliver_all E ss (servers ?c)) = dom (servers ?c)"
        "\<And>q i. q \<in> ports ?st \<Longrightarrow>
          view D (deliver_all E ss (servers ?c)) q (to_string i) =
            (if q = server_port ?st i then map_option c_str (map_of (kv_map ?st) i) else None)"
      by blast
    have "master_step (\<lambda>q. servers ?c q \<noteq> None) (port_msg SERVER p) st = (ss, None, Inr ?st)"
      using ss(1) True n by (simp add: master_step_def Let_def)
    then have j': "join E d True p c =
        \<lparr>the_master = Some ?st, servers = deliver_all E ss (servers ?c)\<rparr>"
      using st(1) m(1) by (simp add: j to_master_def)
    have "view D (servers (join E d True p c)) q (put_key x) =
        (if q = (joined es @ [p]) ! nat (sint x mod (int (length (joined es)) + 1))
         then first_puts es x else None)" if "q \<in> set (joined es @ [p])" for q x
    proof -
      have "q \<in> ports ?st" using that kst(3) by simp
      note v' = ss(4) [OF this, of "sint x"]
      have m: "map_option c_str (map_of (kv_map ?st) (sint x)) = first_puts es x"
        using first_puts_clean [of mport es st x] v st(2) by (simp add: knows_def)
      show ?thesis
      proof (cases "0 \<le> sint x")
        case True
        have "server_port ?st (sint x) =
            (joined es @ [p]) ! nat (sint x mod (int (length (joined es)) + 1))"
          using knows_port(1) [OF k kst(2) True] by (simp add: add.commute)
        with v' m show ?thesis by (simp add: j' put_key_def)
      next
        case False
        with first_puts_negative [of mport es st x] v st(2) v' m show ?thesis
          by (simp add: j' put_key_def)
      qed
    qed
    with k ss(2,3) ok(2) show ?thesis by (simp add: j')
  qed
qed

end

lemma run_inv_all:
  assumes "rocks E = mem_rocks"
  shows "valid mport 0 es \<Longrightarrow> \<forall>m\<in>set (run_msgs es). clean E m \<Longrightarrow>
    mem_reliable.run_inv es (run_events E memdb_open mport es)"
proof (induction es rule: rev_induct)
  case Nil
  show ?case by (simp add: run_events_def cluster_init_def)
next
  case (snoc ev es)
  have "valid mport 0 es" "\<forall>m\<in>set (run_msgs es). clean E m"
    using snoc.prems by (auto simp: run_msgs_def)
  note inv = snoc.IH [OF this]
  show ?case
  proof (cases ev)
    case (Join p)
    with mem_reliable.run_join [OF assms mem_ok_open _ inv, of mport p] snoc.prems show ?thesis
      by simp
  next
    case (Put_Req k v)
    with mem_reliable.run_put(2) [OF assms inv, of mport k v] snoc.prems show ?thesis by simp
  next
    case (Get_Req k)
    with mem_reliable.run_get(1) [OF assms inv, of mport k] snoc.prems inv show ?thesis by simp
  qed
qed

lemma redistribution_view:
  assumes "rocks E = mem_rocks" "valid mport 0 (es @ [Join p])"
    and "\<forall>m\<in>set (run_msgs (es @ [Join p])). clean E m"
    and "2 \<le> length (joined es)" "q \<in> set (joined es @ [p])"
  shows "view mem_rocks (servers (run_events E memdb_open mport (es @ [Join p]))) q (put_key k) =
    (if q = (joined es @ [p]) ! nat (sint k mod (int (length (joined es)) + 1))
     then first_puts es k else None)"
proof -
  have "valid mport 0 es" "\<forall>m\<in>set (run_msgs es). clean E m"
    using assms(2,3) by (auto simp: run_msgs_def)
  note inv = run_inv_all [OF assms(1) this]
  note run_join = mem_reliable.run_join [OF assms(1) mem_ok_open allI [OF get_open] inv assms(2,3)]
  show ?thesis
    using mp [OF conjunct2 [OF run_join] assms(4)] assms(5)
    unfolding run_events_snoc apply_event.simps by blast
qed

subsection \<open>Properties of the system\<close>

text \<open>C2: what a redistribution leaves. After any run in which every server was ready in time,
  a further join that makes at least three servers leaves all of them with exactly their
  shard: under a key that is not negative, server number \<open>key mod n + 1\<close> has the FIRST value
  a client ever stored there (the master keeps only that one), and no other server has any.\<close>

theorem redistribution_first_values:
  assumes "rocks E = mem_rocks" "valid mport 0 (es @ [Join p])"
    and "\<forall>m\<in>set (run_msgs (es @ [Join p])). clean E m"
    and "2 \<le> length (joined es)" "q \<in> set (joined es @ [p])" "0 \<le> sint k"
  shows "view mem_rocks (servers (run_events E memdb_open mport (es @ [Join p]))) q (put_key k) =
    (if q = (joined es @ [p]) ! nat (sint k mod (int (length (joined es)) + 1))
     then first_puts es k else None)"
  using assms(1-5) by (rule redistribution_view)

text \<open>A codec for the messages of a given list: a message is sent as its position.\<close>

definition table_env :: "shard_msg list \<Rightarrow> memdb env" where
  "table_env ms =
     \<lparr>ser = \<lambda>m. [char_of (Suc (length (takeWhile (\<lambda>x. x \<noteq> m) ms)))],
      parse = \<lambda>s. ms ! (of_char (hd s) - 1), rocks = mem_rocks\<rparr>"

lemma table_env_clean:
  assumes "length ms < 255" "m \<in> set ms"
  shows "clean (table_env ms) m"
proof -
  let ?i = "length (takeWhile (\<lambda>x. x \<noteq> m) ms)"
  have lt: "?i < length ms"
    using assms(2) by (induction ms) auto
  then have "ms ! ?i = m" using nth_length_takeWhile by fastforce
  moreover have code: "of_char (char_of (Suc ?i)) = Suc ?i" using lt assms(1) by simp
  moreover have "char_of (Suc ?i) \<noteq> NUL"
  proof
    assume "char_of (Suc ?i) = NUL"
    then have "of_char (char_of (Suc ?i)) = (0 :: nat)" by simp
    with code show False by simp
  qed
  ultimately show ?thesis by (simp add: clean_def table_env_def)
qed

lemma table_env_rocks [simp]: "rocks (table_env ms) = mem_rocks"
  by (simp add: table_env_def)

definition overwritten_run :: "event list" where
  "overwritten_run = [Join 1026, Join 1027, Put_Req 4 ''old'', Put_Req 4 ''new'']"

theorem redistribution_first_values_witness:
  "view mem_rocks (servers (run_events (table_env (run_msgs (overwritten_run @ [Join 1028])))
       memdb_open 1025 (overwritten_run @ [Join 1028]))) 1027 (put_key 4) = Some ''old''"
proof -
  let ?ms = "run_msgs (overwritten_run @ [Join 1028])"
  have "\<forall>m\<in>set ?ms. clean (table_env ?ms) m"
    by (intro ballI table_env_clean) (simp_all add: run_msgs_def overwritten_run_def)
  from redistribution_first_values [OF table_env_rocks _ this, of 1025 1027 4] show ?thesis
    by (simp add: overwritten_run_def first_puts_def)
qed







lemma send_reorg_fail:
  "snd ` set m \<subseteq> {p. con p} \<Longrightarrow> \<not> con p \<Longrightarrow>
    send_reorg con (m @ [(i, p)]) = (map (\<lambda>p. (p, reorg_msg)) (map snd m), Inl (Exit 1))"
  by (induction m) auto

text \<open>C39: the start-up race. A server reports to the master before it opens its socket; when
  the master is faster, from the third server on, it has told the earlier servers to delete
  everything before its connection to the new one fails: the master exits and no server that
  had joined has any key left.\<close>

theorem late_server_loses_everything:
  assumes "rocks E = mem_rocks" "valid mport 0 (es @ [Join p])"
    and "\<forall>m\<in>set (run_msgs (es @ [Join p])). clean E m"
    and "2 \<le> length (joined es)" "p \<notin> set (joined es)"
  shows "the_master (join E memdb_open False p (run_events E memdb_open mport es)) = None \<and>
    (\<forall>q\<in>set (joined es). \<forall>x.
      view mem_rocks (servers (join E memdb_open False p (run_events E memdb_open mport es))) q x = None)"
proof -
  let ?c = "run_events E memdb_open mport es" and ?rs = "map (\<lambda>p. (p, reorg_msg)) (joined es)"
  have v: "valid mport 0 es" "\<forall>m\<in>set (run_msgs es). clean E m"
    and m: "clean E (port_msg SERVER p)" "clean E reorg_msg"
    using assms(2,3) by (auto simp: run_msgs_def)
  note inv = run_inv_all [OF assms(1) v]
  then obtain st where st: "the_master ?c = Some st" "knows es st" by blast
  have n: "num_servers st = int (length (joined es))" by (rule knowsD(2) [OF st(2)])
  have con: "snd ` set (enum_ports (joined es)) \<subseteq> {q. servers ?c q \<noteq> None}" "servers ?c p = None"
    using inv assms(5) by auto
  have "smap_insert (num_servers st + 1) p (server_port_map st) =
      enum_ports (joined es) @ [(num_servers st + 1, p)]"
    using knows_join [OF st(2), of p] n by (simp add: knows_def)
  then have "master_step (\<lambda>q. servers ?c q \<noteq> None) (port_msg SERVER p) st = (?rs, None, Inl (Exit 1))"
    using assms(4) n send_reorg_fail [OF con(1), of p] con(2)
    by (simp add: master_step_def Let_def redistribute_def)
  then have j: "join E memdb_open False p ?c = \<lparr>the_master = None,
      servers = (deliver_all E ?rs (servers ?c))(p \<mapsto> server_start memdb_open)\<rparr>"
    using st(1) m(1) by (simp add: join_def to_master_def)
  have "set (joined es) \<subseteq> dom (servers ?c)" using inv by simp
  with mem_reliable.deliver_reorgs [OF assms(1) m(2) _ this] inv
  have "view mem_rocks (deliver_all E ?rs (servers ?c)) q = (\<lambda>_. None)" if "q \<in> set (joined es)" for q
    using that by auto
  with assms(5) show ?thesis by (auto simp: j view_def fun_eq_iff)
qed

theorem late_server_loses_everything_witness:
  "the_master (join (table_env (run_msgs (overwritten_run @ [Join 1028]))) memdb_open False 1028
    (run_events (table_env (run_msgs (overwritten_run @ [Join 1028]))) memdb_open 1025 overwritten_run)) = None"
proof -
  let ?ms = "run_msgs (overwritten_run @ [Join 1028])"
  have "\<forall>m\<in>set ?ms. clean (table_env ?ms) m"
    by (intro ballI table_env_clean) (simp_all add: run_msgs_def overwritten_run_def)
  from late_server_loses_everything [OF table_env_rocks _ this, of 1025] show ?thesis
    by (simp add: overwritten_run_def)
qed

end
