(* ===== verification/ReplFraming.thy ===== *)
theory ReplFraming
  imports Framing "HOL-Library.Monad_Syntax"
begin

section \<open>Task 3: the framing layer at the level of buffers\<close>

text \<open>
  \<open>task3/source/server.cpp\<close> and \<open>client.cpp\<close> carry their own copies of the framing code.
  Here they are modelled closer to the machine than in \<open>Framing\<close>: the server's copy with its
  buffers, offsets and the return values of \<open>recv\<close>; the client's copy against an arbitrary
  environment that answers every call, where a loop that never ends is the value \<open>None\<close> of a
  \<open>partial_function\<close>. The theorems show that both compute what \<open>Framing\<close> does.
\<close>

subsection \<open>Byte order on any platform\<close>

text \<open>The three branches of the conditional compilation: little-endian with the compiler's
  builtin, little-endian without it, big-endian.\<close>

datatype platform = Little_GNU | Little_Portable | Big

text \<open>What \<open>memcpy\<close> makes of four bytes on a big-endian machine.\<close>

definition be_word :: "string \<Rightarrow> u32" where
  "be_word b = of_bytes (word_of_nat (of_char (b ! 3))) (word_of_nat (of_char (b ! 2)))
     (word_of_nat (of_char (b ! 1))) (word_of_nat (of_char (b ! 0)))"

definition be_bytes :: "u32 \<Rightarrow> string" where
  "be_bytes w = map (\<lambda>i. char_of (unat (byte_at w i))) [3, 2, 1, 0]"

text \<open>A \<open>char\<close> is signed: it is sign-extended before the mask.\<close>

definition char_int :: "char \<Rightarrow> i32" where
  "char_int c = scast (word_of_nat (of_char c) :: 8 word)"

definition svr_convert_byte_array_to_int :: "platform \<Rightarrow> string \<Rightarrow> u32" where
  "svr_convert_byte_array_to_int pf b =
     (case pf of
        Little_GNU \<Rightarrow> bswap32 (le_word b)
      | Little_Portable \<Rightarrow>
          push_bit 24 (char_int (b ! 0)) OR push_bit 16 (char_int (b ! 1) AND 0xFF)
          OR push_bit 8 (char_int (b ! 2) AND 0xFF) OR (char_int (b ! 3) AND 0xFF)
      | Big \<Rightarrow> be_word b)"

definition svr_convert_int_to_byte_array :: "platform \<Rightarrow> u32 \<Rightarrow> string" where
  "svr_convert_int_to_byte_array pf sz =
     (case pf of
        Little_GNU \<Rightarrow> le_bytes (bswap32 sz)
      | Little_Portable \<Rightarrow>
          map (\<lambda>s. char_of (unat (drop_bit s sz AND 0xFF))) [24, 16, 8, 0]
      | Big \<Rightarrow> be_bytes sz)"

lemma mask_FF: "(0xFF :: u32) = mask 8"
  by (simp add: mask_eq_exp_minus_1)

lemma ucast_char:
  "(word_of_nat (of_char c) :: u32) = ucast (word_of_nat (of_char c) :: 8 word)"
proof (rule word_unat_eq_iff [THEN iffD2])
  have c: "of_char c < (256 :: nat)" by simp
  then have "take_bit 8 (of_char c) = (of_char c :: nat)"
    by (auto intro!: take_bit_nat_eq_self)
  moreover have "of_char c < (2 ^ 32 :: nat)" by (rule less_trans [OF c]) simp
  ultimately show "unat (word_of_nat (of_char c) :: u32) =
      unat (ucast (word_of_nat (of_char c) :: 8 word) :: u32)"
    by (simp add: unat_of_nat unsigned_ucast_eq take_bit_eq_mod)
qed

lemma char_int_mask: "char_int c AND 0xFF = word_of_nat (of_char c)"
  unfolding ucast_char char_int_def mask_FF
proof (rule bit_word_eqI)
  let ?b = "word_of_nat (of_char c) :: 8 word"
  fix n assume n: "n < LENGTH(32)"
  show "bit ((scast ?b :: u32) AND mask 8) n = bit (ucast ?b :: u32) n"
  proof (cases "n < 8")
    case True
    with n show ?thesis
      by (simp add: bit_and_iff bit_mask_iff bit_signed_iff bit_unsigned_iff min_def)
         (auto simp: le_less)
  next
    case False
    with n bit_imp_le_length [of ?b n] show ?thesis
      by (auto simp: bit_and_iff bit_mask_iff bit_signed_iff bit_unsigned_iff)
  qed
qed

lemma char_int_shift: "push_bit 24 (char_int c) = push_bit 24 (word_of_nat (of_char c))"
  unfolding ucast_char char_int_def
proof (rule bit_word_eqI)
  let ?b = "word_of_nat (of_char c) :: 8 word"
  fix n assume n: "n < LENGTH(32)"
  then show "bit (push_bit 24 (scast ?b) :: u32) n = bit (push_bit 24 (ucast ?b) :: u32) n"
    by (cases "n = 31") (auto simp: bit_push_bit_iff bit_signed_iff bit_unsigned_iff min_def)
qed

lemma char_byte: "byte_at (word_of_nat (of_char c)) 0 = word_of_nat (of_char c)"
  unfolding ucast_char byte_at_def
  by (rule bit_word_eqI) (auto simp: bit_simps dest: bit_imp_le_length)

lemma bswap_le_word: "bswap32 (le_word b) = be_word b"
proof -
  have le: "le_word b = of_bytes
      (byte_at (word_of_nat (of_char (b ! 0))) 0) (byte_at (word_of_nat (of_char (b ! 1))) 0)
      (byte_at (word_of_nat (of_char (b ! 2))) 0) (byte_at (word_of_nat (of_char (b ! 3))) 0)"
    by (simp only: le_word_def char_byte)
  show ?thesis
    by (subst le, simp only: bswap32_def bytes_simps) (simp only: char_byte be_word_def)
qed

lemma svr_convert_eq:
  "svr_convert_byte_array_to_int pf b = convert_byte_array_to_int b \<and>
   svr_convert_int_to_byte_array pf w = convert_int_to_byte_array w"
proof
  have p: "push_bit 24 (char_int (b ! 0)) OR push_bit 16 (char_int (b ! 1) AND 0xFF)
      OR push_bit 8 (char_int (b ! 2) AND 0xFF) OR (char_int (b ! 3) AND 0xFF) = be_word b"
    by (simp only: char_int_mask char_int_shift be_word_def of_bytes_def) (simp only: ac_simps)
  show "svr_convert_byte_array_to_int pf b = convert_byte_array_to_int b"
    by (cases pf) (simp_all only: svr_convert_byte_array_to_int_def convert_byte_array_to_int_def
        bswap_le_word p platform.case)
  have "le_bytes (bswap32 w) = be_bytes w"
    by (simp only: le_bytes_def be_bytes_def bswap32_def list.map bytes_simps)
  moreover have "map (\<lambda>s. char_of (unat (drop_bit s w AND 0xFF))) [24, 16, 8, 0] = be_bytes w"
    by (simp add: mask_FF be_bytes_def byte_at_def take_bit_eq_mask)
  ultimately show "svr_convert_int_to_byte_array pf w = convert_int_to_byte_array w"
    by (cases pf) (simp_all add: svr_convert_int_to_byte_array_def convert_int_to_byte_array_def)
qed

subsection \<open>The server's copy: buffers and offsets\<close>

text \<open>What \<open>recv\<close> does to the memory at \<open>buffer + pos\<close>.\<close>

definition write_at :: "nat \<Rightarrow> string \<Rightarrow> string \<Rightarrow> string" where
  "write_at pos bs buf = take pos buf @ bs @ drop (pos + length bs) buf"

lemma length_write_at [simp]: "pos + length bs \<le> length buf \<Longrightarrow> length (write_at pos bs buf) = length buf"
  by (simp add: write_at_def)

lemma take_write_at [simp]:
  "pos + length bs \<le> length buf \<Longrightarrow> take (pos + length bs) (write_at pos bs buf) = take pos buf @ bs"
  by (simp add: write_at_def)

lemma drop_write_at [simp]:
  "pos + length bs \<le> n \<Longrightarrow> n \<le> length buf \<Longrightarrow> drop n (write_at pos bs buf) = drop n buf"
  by (simp add: write_at_def)

text \<open>\<open>recv_bytes_now\<close> is the return value of \<open>recv\<close>.\<close>

function svr_read_n ::
  "string \<Rightarrow> nat \<Rightarrow> nat \<Rightarrow> nat \<Rightarrow> recv_res list \<Rightarrow> ((nat \<times> string) \<times> recv_res list) option" where
  "svr_read_n buffer n bytes_read retries evs =
     (if bytes_read < n then
        (let bytes_left = n - bytes_read in
         case read_call bytes_left evs of
           None \<Rightarrow> None
         | Some ((bytes_read_now, bs), es) \<Rightarrow>
             (if bytes_read_now = 0 then
                (if max_retries \<le> retries then Some ((bytes_read, buffer), es)
                 else svr_read_n buffer n bytes_read (Suc retries) es)
              else if bytes_read_now > 0 then
                svr_read_n (write_at bytes_read bs buffer) n (bytes_read + nat bytes_read_now) 0 es
              else svr_read_n buffer n bytes_read retries es))
      else Some ((bytes_read, buffer), evs))"
  by pat_completeness auto
termination
  by (relation "measure (\<lambda>(_, _, _, _, evs). events_size evs)")
     (auto dest!: read_call_decreases)

declare svr_read_n.simps [simp del]

lemma read_call_bytes:
  "read_call k evs = Some ((r, bs), es) \<Longrightarrow> 0 < k \<Longrightarrow>
    (r = -1 \<and> bs = [] \<and> evs = Err # es) \<or> (r = int (length bs) \<and> length bs \<le> k)"
  by (induction k evs rule: read_call.induct) (auto split: if_splits)

lemma read_n_call:
  assumes "length acc < n"
  shows "read_n n r acc evs =
    (case read_call (n - length acc) evs of
       None \<Rightarrow> None
     | Some ((now, bs), es) \<Rightarrow>
         (if now = 0 then (if max_retries \<le> r then Some (acc, es) else read_n n (Suc r) acc es)
          else if now > 0 then read_n n 0 (acc @ bs) es
          else read_n n r acc es))"
proof (cases evs)
  case Nil
  with assms show ?thesis by (simp add: read_n.simps)
next
  case (Cons e es)
  with assms show ?thesis
    by (cases e; cases "e = Got []") (auto simp: read_n_Data)
qed

text \<open>The number of bytes read and the filled part of the buffer are what \<open>read_n\<close> computes;
  the rest of the buffer keeps its contents.\<close>

lemma read_n_length:
  "read_n n r acc evs = Some (acc', es) \<Longrightarrow> length acc \<le> n \<Longrightarrow>
    length acc \<le> length acc' \<and> length acc' \<le> n"
proof (induction "events_size evs" arbitrary: r acc evs rule: less_induct)
  case less
  show ?case
  proof (cases "length acc < n")
    case True
    with less.prems obtain now bs es1 where
      rc: "read_call (n - length acc) evs = Some ((now, bs), es1)"
      by (auto simp: read_n_call split: option.splits)
    have "events_size es1 < events_size evs" using rc True by (auto dest: read_call_decreases)
    note IH = less.hyps [OF this]
    have fit: "length acc + length bs \<le> n" using read_call_bytes [OF rc] True by auto
    with True less.prems rc IH [of "Suc r" acc] IH [of 0 "acc @ bs"] IH [of r acc]
    show ?thesis by (simp add: read_n_call [OF True] split: if_splits)
  qed (use less.prems in simp)
qed

lemma svr_read_n_refines:
  "b \<le> n \<Longrightarrow> n \<le> length buf \<Longrightarrow> svr_read_n buf n b r evs =
    map_option (\<lambda>(acc, es). ((length acc, acc @ drop (length acc) buf), es))
      (read_n n r (take b buf) evs)"
proof (induction buf n b r evs rule: svr_read_n.induct)
  case (1 buf n b r evs)
  show ?case
  proof (cases "b < n")
    case False
    with 1(4,5) show ?thesis by (simp add: svr_read_n.simps)
  next
    case True
    with 1(4,5) have len: "length (take b buf) = b" by simp
    show ?thesis
    proof (cases "read_call (n - b) evs")
      case None
      with True len show ?thesis by (simp add: svr_read_n.simps read_n_call)
    next
      case (Some x)
      then obtain now bs es where rc: "read_call (n - b) evs = Some ((now, bs), es)"
        by (cases x) auto
      note IH = 1(1-3) [OF True refl rc refl refl]
      from read_call_bytes [OF rc] True consider
        "now = 0" "bs = []" | "now = int (length bs)" "bs \<noteq> []" "length bs \<le> n - b" | "now = -1"
        by (cases "bs = []") auto
      then show ?thesis
      proof cases
        case 1
        with True rc len IH(1) \<open>b \<le> n\<close> \<open>n \<le> length buf\<close> show ?thesis
          by (subst svr_read_n.simps) (simp add: read_n_call)
      next
        case 2
        let ?buf = "write_at b bs buf"
        have fit: "b + length bs \<le> length buf" using 2(3) True \<open>n \<le> length buf\<close> by simp
        have "svr_read_n ?buf n (b + length bs) 0 es =
            map_option (\<lambda>(acc, es). ((length acc, acc @ drop (length acc) ?buf), es))
              (read_n n 0 (take b buf @ bs) es)"
          using IH(2) 2 True \<open>n \<le> length buf\<close> fit by simp
        also have "\<dots> = map_option (\<lambda>(acc, es). ((length acc, acc @ drop (length acc) buf), es))
              (read_n n 0 (take b buf @ bs) es)"
        proof (cases "read_n n 0 (take b buf @ bs) es")
          case (Some y)
          obtain acc es2 where y: "y = (acc, es2)" by (cases y)
          with read_n_length [of n 0 "take b buf @ bs" es acc es2] Some 2(3) True len
          have "b + length bs \<le> length acc" "length acc \<le> n" by auto
          with Some y \<open>n \<le> length buf\<close> show ?thesis by simp
        qed simp
        finally show ?thesis
          using 2 True rc len by (subst svr_read_n.simps) (simp add: read_n_call)
      next
        case 3
        with True rc len IH(3) \<open>b \<le> n\<close> \<open>n \<le> length buf\<close> show ?thesis
          by (subst svr_read_n.simps) (simp add: read_n_call)
      qed
    qed
  qed
qed

text \<open>\<open>dlen\<close> is an uninitialised array of four bytes, \<open>buf\<close> is zeroed by \<open>make_unique\<close>.\<close>

definition svr_destruct_message :: "platform \<Rightarrow> string \<Rightarrow> nat \<Rightarrow> u32 option" where
  "svr_destruct_message pf msg bytes =
     (if bytes < 4 then None else Some (svr_convert_byte_array_to_int pf msg))"

definition svr_secure_recv ::
  "platform \<Rightarrow> string \<Rightarrow> recv_res list \<Rightarrow> ((nat \<times> string option) \<times> recv_res list) option" where
  "svr_secure_recv pf dlen evs =
     (case svr_read_n dlen length_size_field 0 0 evs of
        None \<Rightarrow> None
      | Some ((byte_read, dlen'), es) \<Rightarrow>
          (if byte_read \<noteq> length_size_field then Some ((0, None), es)
           else (case svr_destruct_message pf dlen' length_size_field of
               None \<Rightarrow> Some ((0, None), es)
             | Some w \<Rightarrow>
                 (let actual_msg_size = unat w;
                      buf = (replicate (actual_msg_size + 1) NUL)[actual_msg_size := NUL]
                  in case svr_read_n buf actual_msg_size 0 0 es of
                       None \<Rightarrow> None
                     | Some ((byte_read, buf'), es') \<Rightarrow>
                         (if byte_read \<noteq> actual_msg_size then Some ((0, None), es')
                          else Some ((actual_msg_size, Some buf'), es'))))))"

lemma svr_destruct_message_eq: "svr_destruct_message pf msg n = destruct_message msg n"
  using svr_convert_eq [of pf msg] by (simp add: svr_destruct_message_def destruct_message_def)

lemma svr_secure_recv_eq:
  assumes "length dlen = 4"
  shows "svr_secure_recv pf dlen evs = secure_recv evs"
proof (cases "read_n length_size_field 0 [] evs")
  case None
  with assms svr_read_n_refines [of 0 4 dlen 0 evs] show ?thesis
    by (simp add: svr_secure_recv_def secure_recv_def length_size_field_def)
next
  case (Some x)
  then obtain acc es where acc: "read_n 4 0 [] evs = Some (acc, es)"
    by (cases x) (auto simp: length_size_field_def)
  with assms svr_read_n_refines [of 0 4 dlen 0 evs] have
    hdr: "svr_read_n dlen 4 0 0 evs = Some ((length acc, acc @ drop (length acc) dlen), es)" by simp
  show ?thesis
  proof (cases "length acc = 4")
    case False
    with acc hdr show ?thesis
      by (simp add: svr_secure_recv_def secure_recv_def length_size_field_def)
  next
    case True
    let ?n = "unat (convert_byte_array_to_int acc)"
    have buf: "(replicate (?n + 1) NUL)[?n := NUL] = replicate (?n + 1) NUL"
      by (rule list_update_same_conv [THEN iffD2]) (simp_all del: replicate_Suc)
    have "svr_read_n (replicate (?n + 1) NUL) ?n 0 0 es =
        map_option (\<lambda>(acc, es). ((length acc, acc @ replicate (?n + 1 - length acc) NUL), es))
          (read_n ?n 0 [] es)"
      using svr_read_n_refines [of 0 ?n "replicate (?n + 1) NUL" 0 es]
      by (simp del: replicate_Suc)
    moreover have "replicate (Suc 0) NUL = [NUL]" by simp
    ultimately show ?thesis
      using acc hdr True assms buf
      by (cases "read_n ?n 0 [] es")
         (auto simp: svr_secure_recv_def secure_recv_def length_size_field_def
            svr_destruct_message_eq destruct_message_def Let_def simp del: replicate_Suc)
  qed
qed

text \<open>Sending: \<open>tmp\<close> is an offset into \<open>data\<close>.\<close>

fun svr_send_loop ::
  "string \<Rightarrow> nat \<Rightarrow> nat \<Rightarrow> nat \<Rightarrow> send_res list \<Rightarrow> (nat option \<times> string) option" where
  "svr_send_loop data len tmp remaining_bytes rs =
     (if remaining_bytes > 0 then
        (case rs of
           [] \<Rightarrow> None
         | Send_Err # _ \<Rightarrow> Some (None, [])
         | Sent k # rs' \<Rightarrow>
             (let bytes = min k remaining_bytes in
              map_option (\<lambda>(r, out). (r, take bytes (drop tmp data) @ out))
                (svr_send_loop data len (tmp + bytes) (remaining_bytes - bytes) rs')))
      else Some (Some len, []))"

declare svr_send_loop.simps [simp del]

definition svr_secure_send :: "string \<Rightarrow> nat \<Rightarrow> send_res list \<Rightarrow> (nat option \<times> string) option" where
  "svr_secure_send data len rs = svr_send_loop data len 0 len rs"

lemma svr_send_loop_eq:
  "tmp + n \<le> length data \<Longrightarrow>
    svr_send_loop data len tmp n rs = secure_send_loop len (take n (drop tmp data)) rs"
proof (induction rs arbitrary: tmp n)
  case Nil
  then show ?case
    by (cases "n = 0") (auto simp: svr_send_loop.simps secure_send_loop_step)
next
  case (Cons x rs)
  show ?case
  proof (cases "n = 0")
    case True
    then show ?thesis by (simp add: svr_send_loop.simps)
  next
    case n: False
    then have ne: "take n (drop tmp data) \<noteq> []" using Cons.prems by auto
    show ?thesis
    proof (cases x)
      case Send_Err
      with n ne show ?thesis by (simp add: svr_send_loop.simps secure_send_loop_step)
    next
      case (Sent k)
      let ?k = "min k n"
      have "drop k (take n (drop tmp data)) = take (n - ?k) (drop (tmp + ?k) data)"
        by (cases "k \<le> n") (simp_all add: drop_take add.commute)
      moreover have "take k (take n (drop tmp data)) = take ?k (drop tmp data)" by simp
      ultimately show ?thesis
        using Sent n ne Cons.IH [of "tmp + ?k" "n - ?k"] Cons.prems
        by (subst svr_send_loop.simps) (simp add: secure_send_loop_step Let_def)
    qed
  qed
qed

definition svr_construct_message :: "platform \<Rightarrow> string \<Rightarrow> string \<Rightarrow> nat \<Rightarrow> string" where
  "svr_construct_message pf dst payload payload_size =
     write_at length_size_field (take payload_size payload)
       (write_at 0 (svr_convert_int_to_byte_array pf (word_of_nat payload_size)) dst)"

text \<open>Both overloads of \<open>sendWrapper\<close>; \<open>make_unique\<close> zeroes the buffer.\<close>

definition svr_sendWrapper ::
  "platform \<Rightarrow> ('m \<Rightarrow> string) \<Rightarrow> 'm \<Rightarrow> send_res list \<Rightarrow> (nat option \<times> string) option" where
  "svr_sendWrapper pf ser m rs =
     (let buffer = ser m;
          msg_size = length buffer;
          buf = replicate (msg_size + length_size_field) NUL
      in svr_secure_send (svr_construct_message pf buf buffer msg_size)
           (msg_size + length_size_field) rs)"

lemma svr_sendWrapper_eq: "svr_sendWrapper pf ser m rs = secure_send (frame (ser m)) rs"
proof -
  let ?b = "ser m"
  have "svr_construct_message pf (replicate (length ?b + 4) NUL) ?b (length ?b) = frame ?b"
    by (simp add: svr_construct_message_def svr_convert_eq write_at_def construct_message_def
        length_size_field_def)
  then show ?thesis
    using svr_send_loop_eq [of 0 "length ?b + 4" "frame ?b" "length ?b + 4" rs]
    by (simp add: svr_sendWrapper_def svr_secure_send_def secure_send_def length_size_field_def
        Let_def)
qed

subsection \<open>The client's copy: any environment\<close>

text \<open>The conversions are the same text as the server's.\<close>

definition clt_convert_byte_array_to_int :: "platform \<Rightarrow> string \<Rightarrow> u32" where
  "clt_convert_byte_array_to_int pf b =
     (case pf of
        Little_GNU \<Rightarrow> bswap32 (le_word b)
      | Little_Portable \<Rightarrow>
          push_bit 24 (char_int (b ! 0)) OR push_bit 16 (char_int (b ! 1) AND 0xFF)
          OR push_bit 8 (char_int (b ! 2) AND 0xFF) OR (char_int (b ! 3) AND 0xFF)
      | Big \<Rightarrow> be_word b)"

definition clt_convert_int_to_byte_array :: "platform \<Rightarrow> u32 \<Rightarrow> string" where
  "clt_convert_int_to_byte_array pf sz =
     (case pf of
        Little_GNU \<Rightarrow> le_bytes (bswap32 sz)
      | Little_Portable \<Rightarrow>
          map (\<lambda>s. char_of (unat (drop_bit s sz AND 0xFF))) [24, 16, 8, 0]
      | Big \<Rightarrow> be_bytes sz)"

lemma clt_convert_eq:
  "clt_convert_byte_array_to_int pf b = convert_byte_array_to_int b"
  "clt_convert_int_to_byte_array pf w = convert_int_to_byte_array w"
  using svr_convert_eq [of pf b w]
  by (simp_all only: clt_convert_byte_array_to_int_def clt_convert_int_to_byte_array_def
      svr_convert_byte_array_to_int_def svr_convert_int_to_byte_array_def)

text \<open>The environment is a function of its state and the number of bytes asked for. The loop
  of \<open>read_n\<close> is \<open>None\<close> exactly when it never returns.\<close>

partial_function (option) clt_read_n ::
  "('s \<Rightarrow> nat \<Rightarrow> (int \<times> string) \<times> 's) \<Rightarrow> nat \<Rightarrow> nat \<Rightarrow> string \<Rightarrow> 's \<Rightarrow> (string \<times> 's) option" where
  "clt_read_n recv n retries acc s =
     (if length acc < n then
        (case recv s (n - length acc) of
           ((bytes_read_now, bs), s') \<Rightarrow>
             (if bytes_read_now = 0 then
                (if max_retries \<le> retries then Some (acc, s')
                 else clt_read_n recv n (Suc retries) acc s')
              else if bytes_read_now > 0 then clt_read_n recv n 0 (acc @ bs) s'
              else clt_read_n recv n retries acc s'))
      else Some (acc, s))"

definition clt_destruct_message :: "platform \<Rightarrow> string \<Rightarrow> nat \<Rightarrow> u32 option" where
  "clt_destruct_message pf msg bytes =
     (if bytes < 4 then None else Some (clt_convert_byte_array_to_int pf msg))"

definition clt_secure_recv ::
  "platform \<Rightarrow> ('s \<Rightarrow> nat \<Rightarrow> (int \<times> string) \<times> 's) \<Rightarrow> 's \<Rightarrow> ((nat \<times> string option) \<times> 's) option" where
  "clt_secure_recv pf recv s =
     do {
       (dlen, s1) \<leftarrow> clt_read_n recv length_size_field 0 [] s;
       if length dlen \<noteq> length_size_field then Some ((0, None), s1)
       else (case clt_destruct_message pf dlen length_size_field of
           None \<Rightarrow> Some ((0, None), s1)
         | Some w \<Rightarrow>
             do {
               (buf, s2) \<leftarrow> clt_read_n recv (unat w) 0 [] s1;
               if length buf \<noteq> unat w then Some ((0, None), s2)
               else Some ((unat w, Some (buf @ [NUL])), s2)
             })
     }"

lemma clt_destruct_message_eq: "clt_destruct_message pf msg n = destruct_message msg n"
  by (simp add: clt_destruct_message_def destruct_message_def clt_convert_eq)

text \<open>The environment that answers from a list of results and, when they are used up, with
  errors for ever.\<close>

definition list_recv :: "recv_res list \<Rightarrow> nat \<Rightarrow> (int \<times> string) \<times> recv_res list" where
  "list_recv evs k = (case read_call k evs of None \<Rightarrow> ((-1, []), []) | Some x \<Rightarrow> x)"

text \<open>Only errors from now on: \<open>read_n\<close> does not return.\<close>

lemma clt_read_n_errors:
  assumes "\<And>s k. s \<in> S \<Longrightarrow> fst (fst (recv s k)) < 0 \<and> snd (recv s k) \<in> S"
    and "s \<in> S" "length acc < n"
  shows "clt_read_n recv n r acc s = None"
proof (cases "clt_read_n recv n r acc s")
  case (Some y)
  have "(\<forall>s k. s \<in> S \<longrightarrow> fst (fst (recv s k)) < 0 \<and> snd (recv s k) \<in> S) \<longrightarrow> s \<in> S \<longrightarrow> n \<le> length acc"
  proof (rule clt_read_n.raw_induct [where P = "\<lambda>recv n r acc s y.
        (\<forall>s k. s \<in> S \<longrightarrow> fst (fst (recv s k)) < 0 \<and> snd (recv s k) \<in> S) \<longrightarrow> s \<in> S \<longrightarrow> n \<le> length acc", OF _ Some])
    fix f and recv :: "'a \<Rightarrow> nat \<Rightarrow> (int \<times> string) \<times> 'a" and n r :: nat and acc :: string and s y
    assume IH: "\<And>recv n r acc s y. f recv n r acc s = Some y \<Longrightarrow>
        (\<forall>s k. s \<in> S \<longrightarrow> fst (fst (recv s k)) < 0 \<and> snd (recv s k) \<in> S) \<longrightarrow> s \<in> S \<longrightarrow> n \<le> length acc"
      and step: "(if length acc < n then
        (case recv s (n - length acc) of
           ((bytes_read_now, bs), s') \<Rightarrow>
             (if bytes_read_now = 0 then
                (if max_retries \<le> r then Some (acc, s') else f recv n (Suc r) acc s')
              else if bytes_read_now > 0 then f recv n 0 (acc @ bs) s'
              else f recv n r acc s'))
      else Some (acc, s)) = Some y"
    obtain now bs s' where r: "recv s (n - length acc) = ((now, bs), s')" by (metis surj_pair)
    show "(\<forall>s k. s \<in> S \<longrightarrow> fst (fst (recv s k)) < 0 \<and> snd (recv s k) \<in> S) \<longrightarrow> s \<in> S \<longrightarrow> n \<le> length acc"
    proof (intro impI)
      assume a: "\<forall>s k. s \<in> S \<longrightarrow> fst (fst (recv s k)) < 0 \<and> snd (recv s k) \<in> S" "s \<in> S"
      with r have "now < 0 \<and> s' \<in> S" by (metis fst_conv snd_conv)
      with step r a(1) IH [of recv n r acc s' y] show "n \<le> length acc"
        by (auto split: if_splits)
    qed
  qed
  with assms show ?thesis by force
qed simp

lemma clt_read_n_list: "clt_read_n list_recv n r acc evs = read_n n r acc evs"
proof (induction "events_size evs" arbitrary: r acc evs rule: less_induct)
  case less
  show ?case
  proof (cases "length acc < n")
    case False
    then show ?thesis by (simp add: clt_read_n.simps)
  next
    case True
    show ?thesis
    proof (cases "read_call (n - length acc) evs")
      case None
      then have "evs = []" by (cases evs rule: list.exhaust; cases "hd evs") (auto split: if_splits)
      moreover have "clt_read_n list_recv n r acc [] = None"
        using True by (intro clt_read_n_errors [of "{[]}"]) (auto simp: list_recv_def)
      ultimately show ?thesis using True by (simp add: read_n.simps)
    next
      case (Some x)
      then obtain now bs es where rc: "read_call (n - length acc) evs = Some ((now, bs), es)"
        by (cases x) auto
      then have "events_size es < events_size evs" using True by (auto dest: read_call_decreases)
      note IH = less.hyps [OF this]
      have "list_recv evs (n - length acc) = ((now, bs), es)" using rc by (simp add: list_recv_def)
      with True rc IH show ?thesis
        by (subst clt_read_n.simps) (simp add: read_n_call)
    qed
  qed
qed

lemma clt_secure_recv_list: "clt_secure_recv pf list_recv evs = secure_recv evs"
  by (simp add: clt_secure_recv_def secure_recv_def clt_read_n_list clt_destruct_message_eq
      cong: if_cong split: option.split prod.split)

text \<open>Sending: the environment says how much it takes, or -1.\<close>

partial_function (option) clt_send_loop ::
  "('s \<Rightarrow> string \<Rightarrow> int \<times> 's) \<Rightarrow> nat \<Rightarrow> string \<Rightarrow> 's \<Rightarrow> (nat option \<times> 's) option" where
  "clt_send_loop send len tmp s =
     (if length tmp > 0 then
        (case send s tmp of
           (bytes, s') \<Rightarrow>
             (if bytes < 0 then Some (None, s')
              else clt_send_loop send len (drop (nat bytes) tmp) s'))
      else Some (Some len, s))"

definition clt_secure_send ::
  "('s \<Rightarrow> string \<Rightarrow> int \<times> 's) \<Rightarrow> string \<Rightarrow> 's \<Rightarrow> (nat option \<times> 's) option" where
  "clt_secure_send send data s = clt_send_loop send (length data) data s"

definition clt_construct_message :: "platform \<Rightarrow> string \<Rightarrow> string \<Rightarrow> nat \<Rightarrow> string" where
  "clt_construct_message pf dst payload payload_size =
     write_at length_size_field (take payload_size payload)
       (write_at 0 (clt_convert_int_to_byte_array pf (word_of_nat payload_size)) dst)"

definition clt_sendWrapper ::
  "platform \<Rightarrow> ('s \<Rightarrow> string \<Rightarrow> int \<times> 's) \<Rightarrow> ('m \<Rightarrow> string) \<Rightarrow> 'm \<Rightarrow> 's
     \<Rightarrow> (nat option \<times> 's) option" where
  "clt_sendWrapper pf send ser m s =
     (let buffer = ser m;
          msg_size = length buffer;
          buf = replicate (msg_size + length_size_field) NUL
      in clt_secure_send send (clt_construct_message pf buf buffer msg_size) s)"

lemma clt_sendWrapper_frame:
  "clt_sendWrapper pf send ser m s = clt_send_loop send (length (frame (ser m))) (frame (ser m)) s"
  by (simp add: clt_sendWrapper_def clt_secure_send_def clt_construct_message_def clt_convert_eq
      write_at_def construct_message_def length_size_field_def Let_def)

text \<open>The kernel that answers from a list of results, failures included, and keeps what it has
  taken; when they are used up it takes nothing for ever.\<close>

definition list_send ::
  "send_res list \<times> string \<Rightarrow> string \<Rightarrow> int \<times> send_res list \<times> string" where
  "list_send s tmp =
     (case s of
        ([], out) \<Rightarrow> (0, ([], out))
      | (Send_Err # rs, out) \<Rightarrow> (-1, (rs, out))
      | (Sent k # rs, out) \<Rightarrow>
          (let k' = min k (length tmp) in (int k', (rs, out @ take k' tmp))))"

lemma list_send_simps [simp]:
  "list_send ([], out) tmp = (0, ([], out))"
  "list_send (Send_Err # rs, out) tmp = (-1, (rs, out))"
  "list_send (Sent k # rs, out) tmp =
     (int (min k (length tmp)), (rs, out @ take (min k (length tmp)) tmp))"
  by (simp_all add: list_send_def Let_def)

text \<open>Nothing taken from now on: the loop does not return.\<close>

lemma clt_send_loop_stuck:
  assumes "tmp \<noteq> []"
  shows "clt_send_loop list_send len tmp ([], out) = None"
proof (cases "clt_send_loop list_send len tmp ([], out)")
  case (Some y)
  have "send = list_send \<longrightarrow> fst s = [] \<longrightarrow> tmp = []"
    if "clt_send_loop send len tmp s = Some y"
    for send :: "send_res list \<times> string \<Rightarrow> string \<Rightarrow> int \<times> send_res list \<times> string" and len tmp s y
  proof (rule clt_send_loop.raw_induct [where P = "\<lambda>send len tmp s y.
        send = list_send \<longrightarrow> fst s = [] \<longrightarrow> tmp = []", OF _ that])
    fix f and send :: "send_res list \<times> string \<Rightarrow> string \<Rightarrow> int \<times> send_res list \<times> string"
      and len tmp s y
    assume IH: "\<And>send len tmp s y. f send len tmp s = Some y \<Longrightarrow>
        send = list_send \<longrightarrow> fst s = [] \<longrightarrow> tmp = []"
      and step: "(if length tmp > 0 then
        (case send s tmp of
           (bytes, s') \<Rightarrow>
             (if bytes < 0 then Some (None, s') else f send len (drop (nat bytes) tmp) s'))
      else Some (Some len, s)) = Some y"
    show "send = list_send \<longrightarrow> fst s = [] \<longrightarrow> tmp = []"
    proof (intro impI)
      assume send: "send = list_send" and s: "fst s = []"
      then have "list_send s tmp = (0, s)" by (cases s) simp
      with step send have "tmp = [] \<or> f send len tmp s = Some y" by (auto split: if_splits)
      with IH send s show "tmp = []" by blast
    qed
  qed
  with Some assms show ?thesis by fastforce
qed

lemma clt_send_loop_list:
  "map_option (\<lambda>(r, s). (r, snd s)) (clt_send_loop list_send len tmp (rs, out)) =
   map_option (\<lambda>(r, sent). (r, out @ sent)) (secure_send_loop len tmp rs)"
proof (induction rs arbitrary: tmp out)
  case Nil
  show ?case
  proof (cases "tmp = []")
    case True
    then show ?thesis by (simp add: clt_send_loop.simps)
  next
    case False
    then show ?thesis by (simp add: clt_send_loop_stuck secure_send_loop_step)
  qed
next
  case (Cons x rs)
  show ?case
  proof (cases "tmp = []")
    case True
    then show ?thesis by (simp add: clt_send_loop.simps)
  next
    case ne: False
    show ?thesis
    proof (cases x)
      case Send_Err
      with ne show ?thesis
        by (subst clt_send_loop.simps) (simp add: secure_send_loop_step)
    next
      case (Sent k)
      let ?k = "min k (length tmp)"
      have "drop ?k tmp = drop k tmp" "take ?k tmp = take k tmp" by (auto simp: min_def)
      with Sent ne Cons.IH [of "drop k tmp" "out @ take k tmp"] show ?thesis
        by (subst clt_send_loop.simps)
           (simp add: secure_send_loop_step option.map_comp comp_def split_def)
    qed
  qed
qed

text \<open>A kernel that takes between one byte and everything, and keeps what it has taken.\<close>

definition takes :: "(nat \<Rightarrow> string \<Rightarrow> nat) \<Rightarrow> nat \<times> string \<Rightarrow> string \<Rightarrow> int \<times> nat \<times> string" where
  "takes amount s tmp =
     (case s of (i, out) \<Rightarrow>
        (let k = max 1 (min (amount i tmp) (length tmp)) in (int k, (Suc i, out @ take k tmp))))"

lemma clt_send_loop_takes:
  "\<exists>i'. clt_send_loop (takes amount) len tmp (i, out) = Some (Some len, (i', out @ tmp))"
proof (induction "length tmp" arbitrary: tmp i out rule: less_induct)
  case less
  show ?case
  proof (cases "tmp = []")
    case True
    then show ?thesis by (simp add: clt_send_loop.simps)
  next
    case False
    let ?k = "max 1 (min (amount i tmp) (length tmp))"
    have "length (drop ?k tmp) < length tmp" using False by simp
    from less.hyps [OF this, of "Suc i" "out @ take ?k tmp"] False show ?thesis
      by (subst clt_send_loop.simps) (simp add: takes_def Let_def)
  qed
qed

text \<open>The three branches of the byte-order code agree: on every platform the header of a
  length is the same four bytes, and the same four bytes are read as the same length.\<close>

theorem byte_order_portable:
  "svr_convert_byte_array_to_int pf b = convert_byte_array_to_int b \<and>
   svr_convert_int_to_byte_array pf w = convert_int_to_byte_array w"
  by (rule svr_convert_eq)

text \<open>C18: on every platform the server's copy of the framing code, with its buffers, offsets
  and return values, computes what the abstract \<open>secure_recv\<close> and \<open>secure_send\<close> do, whatever
  the uninitialised header buffer holds.\<close>

theorem server_framing_refines:
  assumes "length dlen = 4"
  shows "svr_secure_recv pf dlen evs = secure_recv evs \<and>
    svr_sendWrapper pf ser m rs = secure_send (frame (ser m)) rs"
  by (intro conjI svr_secure_recv_eq [OF assms] svr_sendWrapper_eq)

theorem server_framing_refines_witness:
  "svr_secure_recv Little_Portable ''junk'' [Got (frame ''key''), Err] =
     secure_recv [Got (frame ''key''), Err]"
  using conjunct1 [OF server_framing_refines [of "''junk''" Little_Portable]] by simp

text \<open>C19: the client's copy, too, receives and sends what the abstract one does, on every platform:
  it never returns exactly when the abstract one waits for ever, and a \<open>send\<close> that fails makes
  it report a failure, with as much of the frame on the wire as the kernel took before. With a
  kernel whose \<open>send\<close> takes at least one byte per call, however many, the whole frame goes
  out.\<close>

theorem client_framing_refines:
  "clt_secure_recv pf list_recv evs = secure_recv evs \<and>
   map_option (\<lambda>(r, s). (r, snd s)) (clt_sendWrapper pf list_send ser m (rs, [])) =
     secure_send (frame (ser m)) rs \<and>
   (\<exists>i. clt_sendWrapper pf (takes amount) ser m (0, []) =
      Some (Some (length (frame (ser m))), (i, frame (ser m))))"
  using clt_secure_recv_list clt_send_loop_takes [of amount "length (frame (ser m))" "frame (ser m)" 0 "[]"]
    clt_send_loop_list [of "length (frame (ser m))" "frame (ser m)" rs "[]"]
  by (simp add: clt_sendWrapper_frame secure_send_def option.map_ident split_def)

end
