(* ===== verification/ReplServer.thy ===== *)
theory ReplServer
  imports ReplFraming MemTable
begin

section \<open>Task 3: the servers of the replicated store\<close>

text \<open>
  \<open>task3/source/server.cpp\<close> and the messages of \<open>kvs.proto\<close> and \<open>raft.proto\<close>: the handlers
  of the leader and of a follower, the joining of the servers at start-up, and the file
  descriptors the loops use up. A field of a message that is not set reads as its default, an
  enum as its first constant.
\<close>

subsection \<open>Messages\<close>

datatype kvs_op = PUT | GET | DIRECT_GET

datatype kvs_status = OK | NO_KEY | ERROR | NOT_LEADER

datatype raft_op = E_PUT | E_GET | E_DIRECT_GET

record client_msg =
  c_id :: "i32 option"
  c_type :: "kvs_op option"
  c_key :: "string option"
  c_value :: "string option"

record server_response =
  r_id :: "i32 option"
  r_status :: "kvs_status option"
  r_value :: "string option"

record raft_entry =
  e_id :: "i32 option"
  e_type :: "raft_op option"
  e_key :: "string option"
  e_value :: "string option"

record append_entries =
  a_term :: "64 word option"
  a_leaderID :: "64 word option"
  a_prevLogIndex :: "64 word option"
  a_prevLogTerm :: "64 word option"
  a_entries :: "raft_entry list"
  a_leaderCommit :: "64 word option"

definition field :: "'a \<Rightarrow> 'a option \<Rightarrow> 'a" where
  "field d x = (case x of None \<Rightarrow> d | Some y \<Rightarrow> y)"

lemma field_simps [simp]: "field d None = d" "field d (Some x) = x"
  by (simp_all add: field_def)

definition empty_response :: server_response where
  "empty_response = \<lparr>r_id = None, r_status = None, r_value = None\<rparr>"

subsection \<open>The global variables\<close>

record raft_vars =
  cur_term :: i32
  leaderID :: i32
  prevLogIndex :: i32
  prevLogTerm :: i32
  leaderCommit :: i32

definition raft_init :: raft_vars where
  "raft_init = \<lparr>cur_term = 1, leaderID = 1, prevLogIndex = 1, prevLogTerm = 1, leaderCommit = 1\<rparr>"

definition construct_append_entry_message :: "raft_vars \<Rightarrow> client_msg \<Rightarrow> append_entries" where
  "construct_append_entry_message g m =
     \<lparr>a_term = Some (scast (cur_term g)), a_leaderID = Some (scast (leaderID g)),
      a_prevLogIndex = Some (scast (prevLogIndex g)), a_prevLogTerm = Some (scast (prevLogTerm g)),
      a_entries =
        [\<lparr>e_id = Some (field 0 (c_id m)),
          e_type = Some (case field PUT (c_type m) of
            GET \<Rightarrow> E_GET | PUT \<Rightarrow> E_PUT | DIRECT_GET \<Rightarrow> E_DIRECT_GET),
          e_key = Some (field [] (c_key m)), e_value = Some (field [] (c_value m))\<rparr>],
      a_leaderCommit = Some (scast (leaderCommit g))\<rparr>"

subsection \<open>The handlers\<close>

definition handle_get :: "'db db_ops \<Rightarrow> 'db \<Rightarrow> client_msg \<Rightarrow> server_response" where
  "handle_get D d m =
     (let resp = empty_response\<lparr>r_id := Some (field 0 (c_id m))\<rparr>
      in case db_get D (c_str (field [] (c_key m))) d of
           Some value \<Rightarrow> resp\<lparr>r_status := Some OK, r_value := Some value\<rparr>
         | None \<Rightarrow> resp\<lparr>r_status := Some NO_KEY\<rparr>)"

text \<open>The leader on one message: what it sends to which port, its reply, its database. A
  follower it cannot connect to is skipped: \<open>secure_send\<close> on descriptor \<open>-1\<close> fails and
  nobody looks at the result.\<close>

definition leader_step ::
  "'db db_ops \<Rightarrow> raft_vars \<Rightarrow> int list \<Rightarrow> int \<Rightarrow> (int \<Rightarrow> bool) \<Rightarrow> client_msg \<Rightarrow> 'db
     \<Rightarrow> (int \<times> append_entries) list \<times> server_response option \<times> 'db" where
  "leader_step D g allPorts myPort up m d =
     (case field PUT (c_type m) of
        PUT \<Rightarrow>
          (let req = construct_append_entry_message g m;
               sent = map (\<lambda>p. (p, req)) (filter (\<lambda>p. p \<noteq> myPort \<and> up p) allPorts);
               (status, d') = db_put D (c_str (field [] (c_key m))) (c_str (field [] (c_value m))) d
           in (sent,
               Some (empty_response\<lparr>r_status := Some (if status then OK else ERROR),
                                    r_id := Some (field 0 (c_id m))\<rparr>), d'))
      | GET \<Rightarrow> ([], Some (handle_get D d m), d)
      | DIRECT_GET \<Rightarrow> ([], Some (handle_get D d m), d))"

text \<open>A follower on one \<open>AppendEntries\<close> message, and on one message of a client.\<close>

fun apply_entries :: "'db db_ops \<Rightarrow> raft_entry list \<Rightarrow> 'db \<Rightarrow> 'db" where
  "apply_entries D [] d = d"
| "apply_entries D (e # es) d =
     apply_entries D es
       (if field E_PUT (e_type e) = E_PUT
        then snd (db_put D (c_str (field [] (e_key e))) (c_str (field [] (e_value e))) d)
        else d)"

definition follower_client_step ::
  "'db db_ops \<Rightarrow> 'db \<Rightarrow> client_msg \<Rightarrow> server_response option" where
  "follower_client_step D d m =
     (if field PUT (c_type m) = DIRECT_GET then Some (handle_get D d m) else None)"

text \<open>The bodies of the three accept loops, on what \<open>secure_recv\<close> returned: none of them looks
  at the byte count before it parses.\<close>

definition leader_iteration ::
  "(string \<Rightarrow> client_msg) \<Rightarrow> 'db db_ops \<Rightarrow> raft_vars \<Rightarrow> int list \<Rightarrow> int \<Rightarrow> (int \<Rightarrow> bool)
     \<Rightarrow> nat \<times> string option \<Rightarrow> 'db
     \<Rightarrow> ((int \<times> append_entries) list \<times> server_response option \<times> 'db) res" where
  "leader_iteration parse D g allPorts myPort up res d =
     map_sum id (\<lambda>m. leader_step D g allPorts myPort up m d) (parse_buffer parse (snd res))"

definition follower_iteration ::
  "(string \<Rightarrow> append_entries) \<Rightarrow> 'db db_ops \<Rightarrow> nat \<times> string option \<Rightarrow> 'db \<Rightarrow> 'db res" where
  "follower_iteration parse D res d =
     map_sum id (\<lambda>req. apply_entries D (a_entries req) d) (parse_buffer parse (snd res))"

definition follower_thread_iteration ::
  "(string \<Rightarrow> client_msg) \<Rightarrow> 'db db_ops \<Rightarrow> nat \<times> string option \<Rightarrow> 'db
     \<Rightarrow> server_response option res" where
  "follower_thread_iteration parse D res d =
     map_sum id (follower_client_step D d) (parse_buffer parse (snd res))"

subsection \<open>File descriptors\<close>

text \<open>No accept loop closes the connection of its client, and the leader does not close the
  sockets it opens to the followers. \<open>limit\<close> is the number of descriptors the process may
  have open; beyond it \<open>accept\<close> and \<open>socket\<close> return -1, and every \<open>recv\<close> on -1 fails.\<close>

record 'db leader =
  l_db :: 'db
  l_fds :: nat

definition fd_events :: "bool \<Rightarrow> recv_res list \<Rightarrow> recv_res list" where
  "fd_events ok evs = (if ok then evs else map (\<lambda>_. Err) evs)"

definition leader_conn ::
  "(string \<Rightarrow> client_msg) \<Rightarrow> 'db db_ops \<Rightarrow> raft_vars \<Rightarrow> int list \<Rightarrow> int \<Rightarrow> (int \<Rightarrow> bool) \<Rightarrow> nat
     \<Rightarrow> recv_res list \<Rightarrow> 'db leader
     \<Rightarrow> ((int \<times> append_entries) list \<times> server_response option \<times> 'db leader) res option" where
  "leader_conn parse D g allPorts myPort up limit evs st =
     (let ok = l_fds st < limit;
          fds = (if ok then Suc (l_fds st) else l_fds st)
      in case secure_recv (fd_events ok evs) of
           None \<Rightarrow> None
         | Some (res, _) \<Rightarrow>
             (case parse_buffer parse (snd res) of
                Inl f \<Rightarrow> Some (Inl f)
              | Inr m \<Rightarrow>
                  (let opened = (if field PUT (c_type m) = PUT
                         then take (limit - fds) (filter (\<lambda>p. p \<noteq> myPort) allPorts) else [])
                   in case leader_step D g allPorts myPort (\<lambda>p. p \<in> set opened \<and> up p) m (l_db st) of
                        (sent, reply, d') \<Rightarrow>
                          Some (Inr (sent, reply, \<lparr>l_db = d', l_fds = fds + length opened\<rparr>)))))"

fun leader_run ::
  "(string \<Rightarrow> client_msg) \<Rightarrow> 'db db_ops \<Rightarrow> raft_vars \<Rightarrow> int list \<Rightarrow> int \<Rightarrow> (int \<Rightarrow> bool) \<Rightarrow> nat
     \<Rightarrow> recv_res list list \<Rightarrow> 'db leader \<Rightarrow> (server_response option list \<times> 'db leader) res option" where
  "leader_run parse D g allPorts myPort up limit [] st = Some (Inr ([], st))"
| "leader_run parse D g allPorts myPort up limit (c # cs) st =
     (case leader_conn parse D g allPorts myPort up limit c st of
        None \<Rightarrow> None
      | Some (Inl f) \<Rightarrow> Some (Inl f)
      | Some (Inr (_, reply, st')) \<Rightarrow>
          map_option (map_sum id (\<lambda>(rs, st''). (reply # rs, st'')))
            (leader_run parse D g allPorts myPort up limit cs st'))"

lemma fd_events_exhausted: "secure_recv (fd_events False evs) = None"
  using secure_recv_only_errors [of "length evs"] by (simp add: fd_events_def map_replicate_const)

lemma leader_conn_fds:
  assumes "leader_conn parse D g allPorts myPort up limit evs st = Some (Inr (sent, reply, st'))"
  shows "l_fds st < limit \<and> l_fds st < l_fds st'"
proof (cases "l_fds st < limit")
  case True
  with assms show ?thesis
    by (auto simp: leader_conn_def Let_def split: option.splits sum.splits prod.splits)
next
  case False
  with assms show ?thesis by (simp add: leader_conn_def fd_events_exhausted)
qed

lemma leader_run_fds:
  "leader_run parse D g allPorts myPort up limit cs st = Some (Inr (rs, st')) \<Longrightarrow> cs \<noteq> [] \<Longrightarrow>
    l_fds st + length cs \<le> limit"
proof (induction cs arbitrary: st rs)
  case (Cons c cs)
  then obtain sent reply st1 rs1 where
    step: "leader_conn parse D g allPorts myPort up limit c st = Some (Inr (sent, reply, st1))"
      "leader_run parse D g allPorts myPort up limit cs st1 = Some (Inr (rs1, st'))"
    by (auto simp: map_res_iff split: option.splits sum.splits prod.splits)
  from leader_conn_fds [OF step(1)] Cons.IH [OF step(2)] show ?case
    by (cases "cs = []") auto
qed simp

subsection \<open>Joining\<close>

definition hello :: "i32 \<Rightarrow> server_response" where
  "hello my_server_id = empty_response\<lparr>r_id := Some my_server_id, r_status := Some OK\<rparr>"

text \<open>The first loop: \<open>conn p\<close> is what \<open>connect_socket(p)\<close> returns. The result: the ports that
  were greeted, and \<open>port_socket_map\<close>.\<close>

fun connect_others ::
  "(int \<Rightarrow> int) \<Rightarrow> int \<Rightarrow> int list \<Rightarrow> (int, int) smap \<Rightarrow> int list \<times> (int, int) smap" where
  "connect_others conn myPort [] psm = ([], psm)"
| "connect_others conn myPort (p # ps) psm =
     (if p \<noteq> myPort then
        (case connect_others conn myPort ps (smap_assign p (conn p) psm) of
           (greeted, psm') \<Rightarrow> (if conn p \<ge> 0 then p # greeted else greeted, psm'))
      else connect_others conn myPort ps psm)"

text \<open>Printing through \<open>operator[]\<close> inserts 0 for a port that is not in the map.\<close>

definition print_ports :: "int list \<Rightarrow> (int, int) smap \<Rightarrow> (int, int) smap" where
  "print_ports allPorts psm = foldl (\<lambda>psm p. smap_insert p 0 psm) psm allPorts"

text \<open>The second loop: \<open>n\<close> connections are accepted, each a descriptor and what
  \<open>secure_recv\<close> returns on it; fewer than that is waiting for ever.\<close>

fun receive_joins ::
  "(string \<Rightarrow> server_response) \<Rightarrow> int list \<Rightarrow> nat \<Rightarrow> (int \<times> nat \<times> string option) list
     \<Rightarrow> (int, int) smap \<Rightarrow> (int, int) smap res option" where
  "receive_joins parse allPorts 0 arrivals psm = Some (Inr psm)"
| "receive_joins parse allPorts (Suc n) [] psm = None"
| "receive_joins parse allPorts (Suc n) ((fd, res) # arrivals) psm =
     (case parse_buffer parse (snd res) of
        Inl f \<Rightarrow> Some (Inl f)
      | Inr svr_resp \<Rightarrow>
          (let i = sint (field 0 (r_id svr_resp)) in
           if 0 \<le> i \<and> i < int (length allPorts)
           then receive_joins parse allPorts n arrivals
                  (smap_assign (allPorts ! nat i) fd psm)
           else Some (Inl Out_Of_Range)))"

definition join_phase ::
  "(string \<Rightarrow> server_response) \<Rightarrow> (int \<Rightarrow> int) \<Rightarrow> int list \<Rightarrow> nat
     \<Rightarrow> (int \<times> nat \<times> string option) list \<Rightarrow> int list \<times> (int, int) smap res option" where
  "join_phase parse conn allPorts my_server_id arrivals =
     (if length allPorts \<le> my_server_id then ([], Some (Inl Out_Of_Range))
      else (let myPort = allPorts ! my_server_id in
        case connect_others conn myPort allPorts [] of
          (greeted, psm) \<Rightarrow>
            (let need = length allPorts - length greeted - 1;
                 psm' = print_ports allPorts psm
             in (greeted,
                 map_option (map_sum id (print_ports allPorts))
                   (receive_joins parse allPorts need arrivals psm')))))"

lemma connect_others_eq:
  "connect_others conn myPort ps psm =
    (filter (\<lambda>p. p \<noteq> myPort \<and> conn p \<ge> 0) ps,
     foldl (\<lambda>m p. smap_assign p (conn p) m) psm (filter (\<lambda>p. p \<noteq> myPort) ps))"
  by (induction ps arbitrary: psm) auto

text \<open>Every port of \<open>Q\<close> is in the map with a descriptor that is not negative.\<close>

definition connected :: "int set \<Rightarrow> (int, int) smap \<Rightarrow> bool" where
  "connected Q psm \<longleftrightarrow> smap_ok psm \<and> (\<forall>q\<in>Q. \<exists>fd\<ge>0. map_of psm q = Some fd)"

lemma connected_assign:
  "connected Q psm \<Longrightarrow> 0 \<le> fd \<Longrightarrow> connected (insert p Q) (smap_assign p fd psm)"
  by (auto simp: connected_def map_of_smap_assign smap_ok_assign)

lemma connected_insert: "connected Q psm \<Longrightarrow> connected Q (smap_insert p 0 psm)"
  by (auto simp: connected_def map_of_smap_insert smap_ok_insert)

lemma connected_print: "connected Q psm \<Longrightarrow> connected Q (print_ports ps psm)"
  unfolding print_ports_def by (induction ps arbitrary: psm) (auto dest: connected_insert)

lemma connected_connect:
  "smap_ok psm \<Longrightarrow> distinct ps \<Longrightarrow>
    smap_ok (foldl (\<lambda>m p. smap_assign p (conn p) m) psm ps) \<and>
    (\<forall>q. map_of (foldl (\<lambda>m p. smap_assign p (conn p) m) psm ps) q =
       (if q \<in> set ps then Some (conn q) else map_of psm q))"
  by (induction ps arbitrary: psm) (auto simp: smap_ok_assign map_of_smap_assign)

text \<open>A message that arrives as it was sent.\<close>

definition arrives :: "('m \<Rightarrow> string) \<Rightarrow> (string \<Rightarrow> 'm) \<Rightarrow> 'm \<Rightarrow> bool" where
  "arrives ser parse m \<longleftrightarrow> NUL \<notin> set (ser m) \<and> length (ser m) < 2 ^ 32 \<and> parse (ser m) = m"

lemma arrives_parse [simp]: "arrives ser parse m \<Longrightarrow> parse (c_str (ser m)) = m"
  by (simp add: arrives_def)

lemma r_id_hello [simp]: "r_id (hello i) = Some i"
  by (simp add: hello_def)

text \<open>A greeting whose id is read back from the C string of its bytes, in which a field that is not
  there reads as 0. The greeting of server 0 is the bytes \<open>08 00 10 01\<close> on the wire: its C string ends
  after the first byte and the parse fails with the id unset, which reads as the 0 that was sent.\<close>

definition greets :: "(server_response \<Rightarrow> string) \<Rightarrow> (string \<Rightarrow> server_response) \<Rightarrow> nat \<Rightarrow> bool" where
  "greets ser parse i \<longleftrightarrow> length (ser (hello (word_of_nat i))) < 2 ^ 32 \<and>
     field 0 (r_id (parse (c_str (ser (hello (word_of_nat i)))))) = word_of_nat i"

lemma arrives_greets: "arrives ser parse (hello (word_of_nat i)) \<Longrightarrow> greets ser parse i"
  by (simp add: greets_def) (simp add: arrives_def)

lemma receive_joins_connected:
  assumes "\<forall>i\<in>set ids. i < length allPorts \<and> greets ser parse i"
    and "length allPorts < 2 ^ 31"
  shows "length fds = length ids \<Longrightarrow> \<forall>fd\<in>set fds. 0 \<le> fd \<Longrightarrow> connected Q psm \<Longrightarrow>
    \<exists>psm'. receive_joins parse allPorts (length ids)
        (map (\<lambda>(fd, i). (fd, received (ser (hello (word_of_nat i))))) (zip fds ids)) psm =
      Some (Inr psm') \<and> connected (Q \<union> (!) allPorts ` set ids) psm'"
  using assms(1)
proof (induction ids arbitrary: fds Q psm)
  case Nil
  then show ?case by simp
next
  case (Cons i ids)
  then obtain fd fds' where fds: "fds = fd # fds'" by (cases fds) auto
  have i: "sint (word_of_int (int i) :: i32) = int i"
    using Cons.prems(4) assms(2) by (intro sint_small) auto
  from Cons.prems fds connected_assign [OF Cons.prems(3), of fd "allPorts ! i"]
  have "connected (insert (allPorts ! i) Q) (smap_assign (allPorts ! i) fd psm)" by simp
  with Cons.IH [of fds' "insert (allPorts ! i) Q" "smap_assign (allPorts ! i) fd psm"]
    Cons.prems fds i show ?case
    by (simp add: Let_def greets_def)
qed

text \<open>C9: the servers find each other in whatever order they start. When the servers started
  before server \<open>k\<close> accept its connections and those started after it connect to it, server
  \<open>k\<close> greets exactly the former, waits for exactly the latter, and ends up with an open
  connection to every other server. Of a greeting only the id has to survive the wire and the
  C string, which it does of every server, server 0 included.\<close>

theorem join_complete:
  assumes "distinct allPorts" "length allPorts < 2 ^ 31"
    and order: "distinct (before @ k # after)" "set (before @ k # after) = {..<length allPorts}"
    and conn: "\<forall>i<length allPorts. conn (allPorts ! i) \<ge> 0 \<longleftrightarrow> i \<in> set before"
    and arrivals: "length fds = length after" "\<forall>fd\<in>set fds. 0 \<le> fd"
      "\<forall>i\<in>set after. greets ser parse i"
  shows "\<exists>psm. join_phase parse conn allPorts k
      (map (\<lambda>(fd, i). (fd, received (ser (hello (word_of_nat i))))) (zip fds after)) =
        (filter (\<lambda>p. p \<in> (!) allPorts ` set before) allPorts, Some (Inr psm)) \<and>
    (\<forall>i<length allPorts. i \<noteq> k \<longrightarrow> (\<exists>fd\<ge>0. map_of psm (allPorts ! i) = Some fd))"
proof -
  let ?my = "allPorts ! k" and ?n = "length allPorts"
  have k: "k < ?n" and kb: "k \<notin> set before" using order by auto
  have eq: "allPorts ! i = allPorts ! j \<longleftrightarrow> i = j" if "i < ?n" "j < ?n" for i j
    using that assms(1) nth_eq_iff_index_eq by blast
  have bn: "i < ?n" if "i \<in> set before" for i using that order(2) by auto
  have g: "filter (\<lambda>p. p \<noteq> ?my \<and> conn p \<ge> 0) allPorts =
      filter (\<lambda>p. p \<in> (!) allPorts ` set before) allPorts"
  proof (rule filter_cong [OF refl])
    fix p assume "p \<in> set allPorts"
    then obtain i where i: "i < ?n" "p = allPorts ! i" by (auto simp: in_set_conv_nth)
    have "p \<in> (!) allPorts ` set before \<longleftrightarrow> i \<in> set before"
      using i eq [OF i(1) bn] by (auto simp: image_iff)
    with i eq [OF i(1) k] conn kb show
      "(p \<noteq> ?my \<and> conn p \<ge> 0) = (p \<in> (!) allPorts ` set before)" by auto
  qed
  let ?gr = "filter (\<lambda>p. p \<in> (!) allPorts ` set before) allPorts"
  let ?psm = "foldl (\<lambda>m p. smap_assign p (conn p) m) [] (filter (\<lambda>p. p \<noteq> ?my) allPorts)"
  have "set ?gr = (!) allPorts ` set before" using bn by auto
  then have "length ?gr = card ((!) allPorts ` set before)"
    using assms(1) by (metis distinct_card distinct_filter)
  also have "\<dots> = length before"
  proof -
    have "inj_on ((!) allPorts) (set before)"
      using bn by (intro inj_on_nth [OF assms(1)]) auto
    then show ?thesis using order(1) by (simp add: card_image distinct_card)
  qed
  finally have "?n - length ?gr - 1 = length after"
    using distinct_card [OF order(1)] order(2) by simp
  moreover have "connected ((!) allPorts ` set before) ?psm"
  proof -
    have "\<exists>fd\<ge>0. map_of ?psm (allPorts ! i) = Some fd" if "i \<in> set before" for i
    proof -
      have "i < ?n" "i \<noteq> k" using that order kb by auto
      then show ?thesis
        using connected_connect [of "[]" "filter (\<lambda>p. p \<noteq> ?my) allPorts" conn] assms(1) conn that
          eq [OF _ k] by auto
    qed
    then show ?thesis
      using connected_connect [of "[]" "filter (\<lambda>p. p \<noteq> ?my) allPorts" conn] assms(1)
      by (auto simp: connected_def)
  qed
  from receive_joins_connected [OF _ assms(2) arrivals(1,2) connected_print [OF this], of ser parse allPorts]
    arrivals(3) order(2)
  obtain psm where psm: "receive_joins parse allPorts (length after)
      (map (\<lambda>(fd, i). (fd, received (ser (hello (word_of_nat i))))) (zip fds after))
        (print_ports allPorts ?psm) = Some (Inr psm)"
    "connected ((!) allPorts ` set before \<union> (!) allPorts ` set after) psm" by auto
  have rest: "i \<in> set before \<or> i \<in> set after" if "i < ?n" "i \<noteq> k" for i
    using order(2) that by auto
  have "\<forall>i<?n. i \<noteq> k \<longrightarrow> (\<exists>fd\<ge>0. map_of (print_ports allPorts psm) (allPorts ! i) = Some fd)"
    using connected_print [OF psm(2), of allPorts] rest unfolding connected_def by blast
  with psm(1) calculation k show ?thesis
    by (simp add: join_phase_def connect_others_eq g Let_def)
qed

text \<open>The wire format of a greeting with an id below 128, for the witness: the tag and the value of
  \<open>id\<close>, the tag and the value of \<open>status\<close>. What is cut short leaves its field unset.\<close>

definition id_ser :: "server_response \<Rightarrow> string" where
  "id_ser m = [CHR 0x08, char_of (unat (field 0 (r_id m))), CHR 0x10, CHR 0x01]"

definition id_parse :: "string \<Rightarrow> server_response" where
  "id_parse s = (if length s < 2 then empty_response
     else if length s < 4 then empty_response\<lparr>r_id := Some (word_of_nat (of_char (s ! 1)))\<rparr>
     else hello (word_of_nat (of_char (s ! 1))))"

theorem join_complete_witness:
  "\<exists>psm. join_phase id_parse (\<lambda>p. if p = 1027 then 5 else -1) [1025, 1026, 1027, 1028] 1
      [(7, received (id_ser (hello 0))), (8, received (id_ser (hello 3)))] = ([1027], Some (Inr psm)) \<and>
    (\<exists>fd\<ge>0. map_of psm 1025 = Some fd)"
proof -
  let ?ps = "[1025, 1026, 1027, 1028] :: int list" and ?conn = "\<lambda>p :: int. if p = 1027 then 5 else (-1 :: int)"
  have order: "set ([2] @ 1 # [0, 3]) = {..<length ?ps}" by auto
  have conn: "\<forall>i<length ?ps. ?conn (?ps ! i) \<ge> 0 \<longleftrightarrow> i \<in> set [2]"
    by (auto simp: less_Suc_eq)
  have msg: "\<forall>i\<in>set [0, 3]. greets id_ser id_parse i"
    by (simp add: greets_def id_ser_def id_parse_def char_of_def bit_0 c_str_def hello_def
        empty_response_def)
  have "\<exists>psm. join_phase id_parse ?conn ?ps 1
      (map (\<lambda>(fd, i). (fd, received (id_ser (hello (word_of_nat i))))) (zip [7, 8] [0, 3])) =
        (filter (\<lambda>p. p \<in> (!) ?ps ` set [2]) ?ps, Some (Inr psm)) \<and>
    (\<forall>i<length ?ps. i \<noteq> 1 \<longrightarrow> (\<exists>fd\<ge>0. map_of psm (?ps ! i) = Some fd))"
    by (rule join_complete [OF _ _ _ order conn _ _ msg]) simp_all
  then obtain psm where psm: "join_phase id_parse ?conn ?ps 1
        [(7, received (id_ser (hello 0))), (8, received (id_ser (hello 3)))] = ([1027], Some (Inr psm))"
    "\<forall>i<length ?ps. i \<noteq> 1 \<longrightarrow> (\<exists>fd\<ge>0. map_of psm (?ps ! i) = Some fd)" by auto
  from psm(2) [rule_format, of 0] psm(1) show ?thesis by auto
qed

text \<open>No connection is ever closed, so a leader that may have \<open>limit\<close> descriptors open
  serves at most \<open>limit\<close> connections less those it had open at the start; after that every
  further one makes it wait for ever in \<open>secure_recv(-1)\<close>.\<close>

theorem leader_descriptors:
  assumes "cs \<noteq> []" "limit < l_fds st + length cs"
  shows "\<nexists>rs st'. leader_run parse D g allPorts myPort up limit cs st = Some (Inr (rs, st'))"
  using leader_run_fds [OF _ assms(1)] assms(2) by fastforce

theorem leader_descriptors_witness:
  "\<nexists>rs st'. leader_run (\<lambda>s. \<lparr>c_id = Some 1, c_type = Some GET, c_key = Some s, c_value = None\<rparr>)
     mem_rocks raft_init [1025] 1025 (\<lambda>_. True) 5 (replicate 3 [Got (frame ''k'')])
     \<lparr>l_db = memdb_open, l_fds = 3\<rparr> = Some (Inr (rs, st'))"
  by (rule leader_descriptors) simp_all

text \<open>A peer that closes in the middle of a message kills the server, whichever loop it
  talks to: \<open>secure_recv\<close> returns the null pointer, and the loop makes a \<open>std::string\<close> of it.\<close>

theorem truncated_message_kills:
  assumes "recv_bytes evs = take k (frame p)" "k < length (frame p)" "zero_reads evs \<le> max_retries"
    and "length p < 2 ^ 32"
  shows "\<exists>res evs'. secure_recv (evs @ closed_peer) = Some (res, evs') \<and>
    leader_iteration cparse D g allPorts myPort up res d = Inl Null_Deref \<and>
    follower_iteration aparse D res d = Inl Null_Deref \<and>
    follower_thread_iteration cparse D res d = Inl Null_Deref"
  using secure_recv_truncated [OF assms]
  by (auto simp: leader_iteration_def follower_iteration_def follower_thread_iteration_def
      parse_buffer_def)

theorem truncated_message_kills_witness:
  "\<exists>res evs'. secure_recv ([Got [NUL, NUL]] @ closed_peer) = Some (res, evs') \<and>
    follower_thread_iteration (\<lambda>s. \<lparr>c_id = Some 1, c_type = Some GET, c_key = Some s, c_value = None\<rparr>)
      mem_rocks res memdb_open = Inl Null_Deref"
proof -
  have "recv_bytes [Got [NUL, NUL]] = take 2 (frame ''k'')"
    by (simp add: construct_message_def convert_int_big_endian)
  moreover have "2 < length (frame ''k'')" unfolding length_frame by simp
  moreover have "zero_reads [Got [NUL, NUL]] \<le> max_retries" by simp
  moreover have "length ''k'' < 2 ^ 32" by simp
  ultimately show ?thesis
    using truncated_message_kills [of "[Got [NUL, NUL]]" 2 "''k''"
        "\<lambda>s. \<lparr>c_id = Some 1, c_type = Some GET, c_key = Some s, c_value = None\<rparr>"
        mem_rocks _ _ _ _ memdb_open] by blast
qed

end
