(* ===== verification/ReplSystem.thy ===== *)
theory ReplSystem
  imports ReplServer
begin

section \<open>Task 3: the client, and the replicated store as a whole\<close>

text \<open>
  \<open>task3/source/client.cpp\<close> and the composition of leader, followers and clients. The
  options are what \<open>cxxopts\<close> has parsed; the network is a function from the port and the
  request to what the successive \<open>recv\<close> calls on the client's descriptor return.
\<close>

subsection \<open>The client\<close>

record client_opts =
  o_help :: bool
  o_port :: "16 word option"
  o_operation :: "string option"
  o_key :: "string option"
  o_value :: "string option"

text \<open>The checks of \<open>main\<close>: an exit code, or operation, key, value and port.\<close>

definition clt_check :: "client_opts \<Rightarrow> int + string \<times> string \<times> string \<times> 16 word" where
  "clt_check opts =
     (if o_help opts then Inl 0
      else case o_port opts of None \<Rightarrow> Inl 1 | Some port \<Rightarrow>
        (case o_operation opts of None \<Rightarrow> Inl 1 | Some operation \<Rightarrow>
           (if operation \<notin> {''GET'', ''PUT'', ''DIRECT_GET''} then Inl 1
            else case o_key opts of None \<Rightarrow> Inl 1 | Some key \<Rightarrow>
              (case o_value opts of
                 None \<Rightarrow> (if operation = ''PUT'' then Inl 1 else Inr (operation, key, [], port))
               | Some value \<Rightarrow> Inr (operation, key, value, port)))))"

definition clt_request :: "string \<Rightarrow> string \<Rightarrow> string \<Rightarrow> client_msg" where
  "clt_request operation key value =
     (let req = \<lparr>c_id = None, c_type = None, c_key = None, c_value = None\<rparr>;
          req = (if operation = ''GET'' then req\<lparr>c_type := Some GET\<rparr>
                 else if operation = ''PUT'' then req\<lparr>c_type := Some PUT, c_value := Some value\<rparr>
                 else if operation = ''DIRECT_GET'' then req\<lparr>c_type := Some DIRECT_GET\<rparr>
                 else req)
      in req\<lparr>c_id := Some 1, c_key := Some key\<rparr>)"

text \<open>The exit code and what is printed; \<open>None\<close> if \<open>secure_recv\<close> never returns.\<close>

definition clt_main ::
  "(string \<Rightarrow> server_response) \<Rightarrow> (16 word \<Rightarrow> client_msg \<Rightarrow> recv_res list) \<Rightarrow> client_opts
     \<Rightarrow> (int \<times> string) res option" where
  "clt_main parse net opts =
     (case clt_check opts of
        Inl code \<Rightarrow> Some (Inr (code, []))
      | Inr (operation, key, value, port) \<Rightarrow>
          (case clt_secure_recv Little_GNU list_recv (net port (clt_request operation key value)) of
             None \<Rightarrow> None
           | Some (res, _) \<Rightarrow>
               (let ret = (if fst res = 0 then 4 else 0) in
                case parse_buffer parse (snd res) of
                  Inl f \<Rightarrow> Some (Inl f)
                | Inr resp \<Rightarrow>
                    (let ret = (case field OK (r_status resp) of
                           NOT_LEADER \<Rightarrow> 2 | NO_KEY \<Rightarrow> 3 | OK \<Rightarrow> ret | ERROR \<Rightarrow> ret);
                         out = (if operation \<in> {''GET'', ''DIRECT_GET''}
                                then c_str (field [] (r_value resp)) @ [CHR 0x0A] else [])
                     in Some (Inr (ret, out))))))"

text \<open>A whole reply arrives, in any segments.\<close>

lemma clt_main_reply:
  assumes "clt_check opts = Inr (operation, key, value, port)"
    and "recv_bytes (net port (clt_request operation key value)) = frame (rser resp) @ rest"
    and "zero_reads (net port (clt_request operation key value)) \<le> max_retries"
    and "arrives rser rparse resp" "rser resp \<noteq> []"
  shows "clt_main rparse net opts =
    Some (Inr (case field OK (r_status resp) of NOT_LEADER \<Rightarrow> 2 | NO_KEY \<Rightarrow> 3 | _ \<Rightarrow> 0,
      if operation \<in> {''GET'', ''DIRECT_GET''} then c_str (field [] (r_value resp)) @ [CHR 0x0A]
      else []))"
proof -
  have len: "length (rser resp) < 2 ^ 32" using assms(4) by (simp add: arrives_def)
  obtain evs where "secure_recv (net port (clt_request operation key value)) =
      Some ((length (rser resp), Some (rser resp @ [NUL])), evs)"
    using secure_recv_frame [OF assms(2,3) len] by blast
  with assms(1,4,5) show ?thesis
    by (auto simp: clt_main_def clt_secure_recv_list parse_buffer_def Let_def split: kvs_status.split)
qed

text \<open>The exit codes of the client for a request that passes its checks. A whole reply,
  in any segments, gives 2 for \<open>NOT_LEADER\<close>, 3 for \<open>NO_KEY\<close> and 0 for both \<open>OK\<close> and \<open>ERROR\<close>,
  and the value is printed for the reads.\<close>

theorem clt_exit_codes:
  assumes "clt_check opts = Inr (operation, key, value, port)"
    and "recv_bytes (net port (clt_request operation key value)) = frame (rser resp) @ rest"
    and "zero_reads (net port (clt_request operation key value)) \<le> max_retries"
    and "arrives rser rparse resp" "rser resp \<noteq> []"
  shows "clt_main rparse net opts =
    Some (Inr (case field OK (r_status resp) of NOT_LEADER \<Rightarrow> 2 | NO_KEY \<Rightarrow> 3 | _ \<Rightarrow> 0,
      if operation \<in> {''GET'', ''DIRECT_GET''} then c_str (field [] (r_value resp)) @ [CHR 0x0A]
      else []))"
  using assms by (rule clt_main_reply)

definition get_opts :: "string \<Rightarrow> string \<Rightarrow> client_opts" where
  "get_opts operation key =
     \<lparr>o_help = False, o_port = Some 2025, o_operation = Some operation, o_key = Some key, o_value = None\<rparr>"

definition err_ser :: "server_response \<Rightarrow> string" where
  "err_ser r = ''e''"

definition err_parse :: "string \<Rightarrow> server_response" where
  "err_parse s = empty_response\<lparr>r_status := Some ERROR\<rparr>"

theorem clt_exit_codes_witness:
  "clt_main err_parse (\<lambda>_ _. [Got (take 2 (frame ''e'')), Err, Got (drop 2 (frame ''e''))])
     (get_opts ''GET'' ''k'') = Some (Inr (0, [CHR 0x0A]))"
proof -
  let ?net = "\<lambda>_ _. [Got (take 2 (frame ''e'')), Err, Got (drop 2 (frame ''e''))]"
  let ?r = "empty_response\<lparr>r_status := Some ERROR\<rparr>"
  have "clt_check (get_opts ''GET'' ''k'') = Inr (''GET'', ''k'', [], 2025)"
    by (simp add: clt_check_def get_opts_def)
  moreover have "recv_bytes (?net 2025 (clt_request ''GET'' ''k'' [])) = frame (err_ser ?r) @ []"
    by (simp add: err_ser_def)
  moreover have "zero_reads (?net 2025 (clt_request ''GET'' ''k'' [])) \<le> max_retries"
    by (simp add: max_retries_def)
  moreover have "arrives err_ser err_parse ?r" "err_ser ?r \<noteq> []"
    by (simp_all add: arrives_def err_ser_def err_parse_def)
  ultimately show ?thesis
    using clt_exit_codes [of "get_opts ''GET'' ''k''" "''GET''" "''k''" "[]" 2025 ?net err_ser ?r "[]"
        err_parse] by (simp add: empty_response_def)
qed

lemma secure_recv_zero:
  "secure_recv evs = Some ((0, Some b), es) \<Longrightarrow> b = [NUL]"
  by (auto simp: secure_recv_def split: option.splits if_splits)

text \<open>What the client makes of a server that does not answer. When it cannot connect it
  waits for ever, since every \<open>recv\<close> on descriptor -1 fails; when the connection closes before
  the reply is complete it parses the null pointer. Its exit code for a server error, 4, is
  left for one case only: a reply of length zero.\<close>

theorem clt_failures:
  assumes "clt_check opts = Inr (operation, key, value, port)"
  shows "(net port (clt_request operation key value) = replicate n Err \<longrightarrow>
      clt_main parse net opts = None) \<and>
    (net port (clt_request operation key value) = evs @ closed_peer \<and>
       recv_bytes evs = take k (frame p) \<and> k < length (frame p) \<and> zero_reads evs \<le> max_retries \<and>
       length p < 2 ^ 32 \<longrightarrow>
     clt_main parse net opts = Some (Inl Null_Deref)) \<and>
    (clt_main parse net opts = Some (Inr (4, out)) \<longrightarrow>
      (\<exists>es. secure_recv (net port (clt_request operation key value)) = Some ((0, Some [NUL]), es)))"
proof (intro conjI impI)
  let ?net = "net port (clt_request operation key value)"
  show "clt_main parse net opts = None" if "?net = replicate n Err"
    using that assms by (simp add: clt_main_def clt_secure_recv_list secure_recv_only_errors)
  show "clt_main parse net opts = Some (Inl Null_Deref)"
    if "?net = evs @ closed_peer \<and> recv_bytes evs = take k (frame p) \<and> k < length (frame p) \<and>
      zero_reads evs \<le> max_retries \<and> length p < 2 ^ 32"
    using that assms secure_recv_truncated [of evs k p]
    by (auto simp: clt_main_def clt_secure_recv_list parse_buffer_def Let_def)
  assume four: "clt_main parse net opts = Some (Inr (4, out))"
  with assms obtain n b es where r: "secure_recv ?net = Some ((n, b), es)"
    by (auto simp: clt_main_def clt_secure_recv_list split: option.splits)
  with four assms have "n = 0 \<and> b \<noteq> None"
    by (cases b) (auto simp: clt_main_def clt_secure_recv_list parse_buffer_def Let_def
        split: if_splits kvs_status.splits)
  with r secure_recv_zero show "\<exists>es. secure_recv ?net = Some ((0, Some [NUL]), es)" by fastforce
qed

theorem clt_failures_witness:
  "clt_main err_parse (\<lambda>_ _. replicate 3 Err) (get_opts ''GET'' ''k'') = None"
proof -
  have "clt_check (get_opts ''GET'' ''k'') = Inr (''GET'', ''k'', [], 2025)"
    by (simp add: clt_check_def get_opts_def)
  from conjunct1 [OF clt_failures [OF this, of "\<lambda>_ _. replicate 3 Err" 3]] show ?thesis by simp
qed

subsection \<open>Replication\<close>

text \<open>The leader's database, each follower's database and the \<open>AppendEntries\<close> messages whose
  connections wait in the follower's accept queue.\<close>

record 'db repl =
  leader_db :: 'db
  follower_db :: "int \<Rightarrow> 'db"
  queue :: "int \<Rightarrow> append_entries list"

datatype action = Request client_msg | Process int

record wire =
  cser :: "client_msg \<Rightarrow> string"
  cparse :: "string \<Rightarrow> client_msg"
  aser :: "append_entries \<Rightarrow> string"
  aparse :: "string \<Rightarrow> append_entries"

text \<open>The leader handles one request; a follower handles the first message of its queue. A
  handler that runs into a fault leaves the state as it was.\<close>

fun act ::
  "wire \<Rightarrow> 'db db_ops \<Rightarrow> raft_vars \<Rightarrow> int list \<Rightarrow> int \<Rightarrow> action \<Rightarrow> 'db repl \<Rightarrow> 'db repl" where
  "act W D g allPorts myPort (Request m) st =
     (case leader_iteration (cparse W) D g allPorts myPort (\<lambda>_. True) (received (cser W m)) (leader_db st) of
        Inl _ \<Rightarrow> st
      | Inr (sent, reply, d) \<Rightarrow>
          st\<lparr>leader_db := d,
             queue := \<lambda>p. queue st p @ map snd (filter (\<lambda>s. fst s = p) sent)\<rparr>)"
| "act W D g allPorts myPort (Process p) st =
     (case queue st p of
        [] \<Rightarrow> st
      | req # q \<Rightarrow>
          (case follower_iteration (aparse W) D (received (aser W req)) (follower_db st p) of
             Inl _ \<Rightarrow> st
           | Inr d \<Rightarrow> st\<lparr>follower_db := (follower_db st)(p := d), queue := (queue st)(p := q)\<rparr>))"

definition repl_init :: "'db \<Rightarrow> 'db repl" where
  "repl_init d = \<lparr>leader_db = d, follower_db = \<lambda>_. d, queue = \<lambda>_. []\<rparr>"

definition run_actions ::
  "wire \<Rightarrow> 'db db_ops \<Rightarrow> raft_vars \<Rightarrow> int list \<Rightarrow> int \<Rightarrow> action list \<Rightarrow> 'db \<Rightarrow> 'db repl" where
  "run_actions W D g allPorts myPort as d = fold (act W D g allPorts myPort) as (repl_init d)"

lemma run_actions_snoc [simp]:
  "run_actions W D g allPorts myPort (as @ [a]) d =
     act W D g allPorts myPort a (run_actions W D g allPorts myPort as d)"
  by (simp add: run_actions_def)

text \<open>The updates that the leader was asked for, oldest first.\<close>

definition put_of :: "client_msg \<Rightarrow> string \<times> string" where
  "put_of m = (c_str (field [] (c_key m)), c_str (field [] (c_value m)))"

fun puts :: "action list \<Rightarrow> client_msg list" where
  "puts [] = []"
| "puts (Request m # as) = (if field PUT (c_type m) = PUT then m # puts as else puts as)"
| "puts (Process p # as) = puts as"

lemma puts_append [simp]: "puts (xs @ ys) = puts xs @ puts ys"
  by (induction xs rule: puts.induct) auto

definition store_of :: "client_msg list \<Rightarrow> string \<Rightarrow> string option" where
  "store_of ms = foldl (\<lambda>s m. s(fst (put_of m) \<mapsto> snd (put_of m))) Map.empty ms"

lemma store_of_snoc [simp]:
  "store_of (ms @ [m]) = (store_of ms)(fst (put_of m) \<mapsto> snd (put_of m))"
  by (simp add: store_of_def)

text \<open>How far a follower is: it has applied the first \<open>n\<close> updates and the rest is in its queue.\<close>

definition caught_up ::
  "'db db_ops \<Rightarrow> raft_vars \<Rightarrow> client_msg list \<Rightarrow> nat \<Rightarrow> 'db \<Rightarrow> append_entries list \<Rightarrow> bool" where
  "caught_up D g ms n d q \<longleftrightarrow> n \<le> length ms \<and>
     q = map (construct_append_entry_message g) (drop n ms) \<and>
     (\<lambda>x. db_get D x d) = store_of (take n ms)"

definition wire_ok :: "wire \<Rightarrow> raft_vars \<Rightarrow> action list \<Rightarrow> bool" where
  "wire_ok W g as \<longleftrightarrow> (\<forall>m. Request m \<in> set as \<longrightarrow> arrives (cser W) (cparse W) m \<and>
     (field PUT (c_type m) = PUT \<longrightarrow>
        arrives (aser W) (aparse W) (construct_append_entry_message g m)))"

lemma puts_set: "m \<in> set (puts as) \<Longrightarrow> Request m \<in> set as \<and> field PUT (c_type m) = PUT"
  by (induction as rule: puts.induct) (auto split: if_splits)

lemma apply_construct:
  "field PUT (c_type m) = PUT \<Longrightarrow>
    apply_entries D (a_entries (construct_append_entry_message g m)) d =
      snd (db_put D (fst (put_of m)) (snd (put_of m)) d)"
  by (simp add: construct_append_entry_message_def put_of_def)

context reliable_rocksdb
begin

abbreviation repl_inv :: "raft_vars \<Rightarrow> int set \<Rightarrow> client_msg list \<Rightarrow> 'a repl \<Rightarrow> bool" where
  "repl_inv g F ms st \<equiv> db_ok (leader_db st) \<and> (\<lambda>x. db_get D x (leader_db st)) = store_of ms \<and>
     (\<forall>p\<in>F. db_ok (follower_db st p) \<and>
        (\<exists>n. caught_up D g ms n (follower_db st p) (queue st p)))"

lemma act_request:
  assumes "repl_inv g (set allPorts - {myPort}) ms st" "distinct allPorts"
    and "arrives (cser W) (cparse W) m"
  shows "repl_inv g (set allPorts - {myPort}) (if field PUT (c_type m) = PUT then ms @ [m] else ms)
    (act W D g allPorts myPort (Request m) st)"
proof (cases "field PUT (c_type m) = PUT")
  case False
  then have "leader_step D g allPorts myPort (\<lambda>_. True) m d = ([], Some (handle_get D d m), d)" for d
    by (cases "field PUT (c_type m)") (simp_all add: leader_step_def)
  with assms False show ?thesis by (simp add: leader_iteration_def)
next
  case True
  let ?req = "construct_append_entry_message g m"
  obtain r d' where put: "db_put D (fst (put_of m)) (snd (put_of m)) (leader_db st) = (r, d')"
    by fastforce
  note v = put_view [OF conjunct1 [OF assms(1)] put]
  have "filter (\<lambda>s. fst s = p) (map (\<lambda>p. (p, ?req)) (filter (\<lambda>p. p \<noteq> myPort) allPorts)) = [(p, ?req)]"
    if "p \<in> set allPorts - {myPort}" for p
    using that assms(2) by (induction allPorts) (auto simp: filter_map comp_def filter_empty_conv)
  then have q: "queue (act W D g allPorts myPort (Request m) st) p = queue st p @ [?req]"
    if "p \<in> set allPorts - {myPort}" for p
    using that assms(3) True put
    by (auto simp: leader_iteration_def leader_step_def Let_def put_of_def)
  have s: "leader_db (act W D g allPorts myPort (Request m) st) = d'"
    "follower_db (act W D g allPorts myPort (Request m) st) = follower_db st"
    using assms(3) True put by (auto simp: leader_iteration_def leader_step_def Let_def put_of_def)
  have "db_ok (follower_db st p) \<and>
      (\<exists>n. caught_up D g (ms @ [m]) n (follower_db st p) (queue st p @ [?req]))"
    if p: "p \<in> set allPorts - {myPort}" for p
  proof -
    from assms(1) p obtain n where
      "caught_up D g ms n (follower_db st p) (queue st p)" "db_ok (follower_db st p)" by blast
    then show ?thesis by (intro conjI exI [of _ n]) (simp_all add: caught_up_def)
  qed
  moreover have "(\<lambda>x. db_get D x d') = store_of (ms @ [m])" using v(3) assms(1) by simp
  ultimately show ?thesis using q s v(2) True by (simp del: act.simps)
qed

lemma act_process:
  assumes inv: "repl_inv g (set allPorts - {myPort}) ms st"
    and ms: "\<forall>m\<in>set ms. field PUT (c_type m) = PUT \<and>
      arrives (aser W) (aparse W) (construct_append_entry_message g m)"
  shows "repl_inv g (set allPorts - {myPort}) ms (act W D g allPorts myPort (Process p) st)"
proof (cases "p \<in> set allPorts - {myPort} \<and> queue st p \<noteq> []")
  case False
  then show ?thesis
    using inv by (auto split: list.splits sum.splits)
next
  case True
  with inv obtain n where n: "caught_up D g ms n (follower_db st p) (queue st p)"
    "db_ok (follower_db st p)" by blast
  with True have lt: "n < length ms" by (auto simp: caught_up_def)
  let ?m = "ms ! n"
  have m: "field PUT (c_type ?m) = PUT"
    "arrives (aser W) (aparse W) (construct_append_entry_message g ?m)"
    using ms lt by auto
  have q: "queue st p = construct_append_entry_message g ?m #
      map (construct_append_entry_message g) (drop (Suc n) ms)"
    using n(1) lt by (simp add: caught_up_def Cons_nth_drop_Suc [symmetric])
  obtain r d' where put: "db_put D (fst (put_of ?m)) (snd (put_of ?m)) (follower_db st p) = (r, d')"
    by fastforce
  note v = put_view [OF n(2) put]
  have act: "act W D g allPorts myPort (Process p) st =
      st\<lparr>follower_db := (follower_db st)(p := d'),
         queue := (queue st)(p := map (construct_append_entry_message g) (drop (Suc n) ms))\<rparr>"
    using q m put by (simp add: follower_iteration_def apply_construct)
  have "caught_up D g ms (Suc n) d' (map (construct_append_entry_message g) (drop (Suc n) ms))"
    using n(1) v(3) lt by (simp add: caught_up_def take_Suc_conv_app_nth)
  with inv v(2) show ?thesis unfolding act by auto
qed

lemma run_actions_inv:
  assumes "db_ok d" "\<forall>x. db_get D x d = None" "distinct allPorts"
  shows "wire_ok W g as \<Longrightarrow>
    repl_inv g (set allPorts - {myPort}) (puts as) (run_actions W D g allPorts myPort as d)"
proof (induction as rule: rev_induct)
  case Nil
  then show ?case
    using assms(1,2) by (simp add: run_actions_def repl_init_def caught_up_def store_of_def fun_eq_iff)
next
  case (snoc a as)
  then have inv: "repl_inv g (set allPorts - {myPort}) (puts as) (run_actions W D g allPorts myPort as d)"
    by (simp add: wire_ok_def)
  show ?case
  proof (cases a)
    case (Request m)
    with snoc.prems have "arrives (cser W) (cparse W) m" by (auto simp: wire_ok_def)
    note req = act_request [OF inv assms(3) this]
    have eq: "puts (as @ [a]) = (if field PUT (c_type m) = PUT then puts as @ [m] else puts as)"
      using Request by simp
    show ?thesis using req unfolding eq run_actions_snoc unfolding Request by blast
  next
    case (Process p)
    have "\<forall>m\<in>set (puts as). field PUT (c_type m) = PUT \<and>
        arrives (aser W) (aparse W) (construct_append_entry_message g m)"
      using snoc.prems puts_set by (fastforce simp: wire_ok_def)
    from act_process [OF inv this] Process show ?thesis by (simp del: act.simps)
  qed
qed

end

lemma replication_lemma:
  assumes "distinct allPorts" "wire_ok W g as"
  shows "(\<lambda>x. db_get mem_rocks x (leader_db (run_actions W mem_rocks g allPorts myPort as memdb_open))) =
      store_of (puts as)"
    and "p \<in> set allPorts \<Longrightarrow> p \<noteq> myPort \<Longrightarrow>
      (let st = run_actions W mem_rocks g allPorts myPort as memdb_open;
           lag = length (queue st p)
       in lag \<le> length (puts as) \<and>
          (\<lambda>x. db_get mem_rocks x (follower_db st p)) =
            store_of (take (length (puts as) - lag) (puts as)))"
proof -
  note inv = mem_reliable.run_actions_inv [OF mem_ok_open allI [OF get_open] assms, of myPort]
  then show "(\<lambda>x. db_get mem_rocks x (leader_db (run_actions W mem_rocks g allPorts myPort as memdb_open))) =
      store_of (puts as)" by blast
  assume "p \<in> set allPorts" "p \<noteq> myPort"
  with inv obtain n where
    "caught_up mem_rocks g (puts as) n
      (follower_db (run_actions W mem_rocks g allPorts myPort as memdb_open) p)
      (queue (run_actions W mem_rocks g allPorts myPort as memdb_open) p)" by blast
  then show "let st = run_actions W mem_rocks g allPorts myPort as memdb_open;
           lag = length (queue st p)
       in lag \<le> length (puts as) \<and>
          (\<lambda>x. db_get mem_rocks x (follower_db st p)) =
            store_of (take (length (puts as) - lag) (puts as))"
    by (simp add: caught_up_def Let_def)
qed

text \<open>C3: replication. Whatever the clients ask and in whatever order the followers get to their
  queues, the leader's database is the map of all updates it was asked for, and a follower
  with \<open>lag\<close> messages left in its queue is exactly \<open>lag\<close> updates behind: it is the map of all
  but the last \<open>lag\<close>. A follower with an empty queue has the leader's contents.\<close>

theorem replication:
  assumes "distinct allPorts" "wire_ok W g as" "p \<in> set allPorts" "p \<noteq> myPort"
  shows "let st = run_actions W mem_rocks g allPorts myPort as memdb_open;
             lag = length (queue st p)
         in (\<lambda>x. db_get mem_rocks x (leader_db st)) = store_of (puts as) \<and>
            lag \<le> length (puts as) \<and>
            (\<lambda>x. db_get mem_rocks x (follower_db st p)) =
              store_of (take (length (puts as) - lag) (puts as))"
  using replication_lemma [OF assms(1,2)] assms(3,4) by (simp add: Let_def)

text \<open>A wire for the examples, on which all requests of the run have the same bytes.\<close>

definition put_request :: "string \<Rightarrow> string \<Rightarrow> client_msg" where
  "put_request k v = clt_request ''PUT'' k v"

definition one_wire :: "client_msg \<Rightarrow> wire" where
  "one_wire m = \<lparr>cser = \<lambda>_. ''m'', cparse = \<lambda>_. m, aser = \<lambda>_. ''a'',
     aparse = \<lambda>_. construct_append_entry_message raft_init m\<rparr>"

definition two_puts :: "action list" where
  "two_puts = [Request (put_request ''k'' ''v''), Process 1026, Request (put_request ''k'' ''v'')]"

lemma two_puts_wire: "wire_ok (one_wire (put_request ''k'' ''v'')) raft_init two_puts"
  by (auto simp: wire_ok_def two_puts_def one_wire_def arrives_def)

theorem replication_witness:
  "let st = run_actions (one_wire (put_request ''k'' ''v'')) mem_rocks raft_init [1025, 1026, 1027] 1025
       two_puts memdb_open
   in db_get mem_rocks ''k'' (leader_db st) = Some ''v'' \<and>
      length (queue st 1027) \<le> 2 \<and>
      (\<lambda>x. db_get mem_rocks x (follower_db st 1027)) =
        store_of (take (2 - length (queue st 1027)) (replicate 2 (put_request ''k'' ''v'')))"
proof -
  have puts: "puts two_puts = replicate 2 (put_request ''k'' ''v'')"
    by (simp add: two_puts_def put_request_def clt_request_def Let_def numeral_2_eq_2)
  have v: "store_of (replicate 2 (put_request ''k'' ''v'')) ''k'' = Some ''v''"
    by (simp add: store_of_def put_of_def put_request_def clt_request_def Let_def numeral_2_eq_2)
  from replication [OF _ two_puts_wire, of "[1025, 1026, 1027]" 1027 1025]
  show ?thesis unfolding puts Let_def using v by (simp add: fun_eq_iff)
qed

subsection \<open>A client of a follower\<close>

text \<open>What a client of a follower reads: its reply, if it sends one, and then nothing, since
  the follower does not close the connection.\<close>

definition follower_net ::
  "wire \<Rightarrow> (server_response \<Rightarrow> string) \<Rightarrow> 'db db_ops \<Rightarrow> 'db \<Rightarrow> 16 word \<Rightarrow> client_msg \<Rightarrow> recv_res list" where
  "follower_net W rser D d port m =
     (case follower_thread_iteration (cparse W) D (received (cser W m)) d of
        Inr (Some resp) \<Rightarrow> [Got (frame (rser resp))]
      | _ \<Rightarrow> [])"

text \<open>C22: what a client of a follower sees. A \<open>DIRECT_GET\<close> prints the value of the key and
  returns 0, or returns 3 when the follower has none; a \<open>GET\<close> or \<open>PUT\<close>, which the follower
  should answer with an error, gets no answer at all: the client waits for ever.\<close>

theorem follower_clients:
  assumes "clt_check opts = Inr (operation, key, value, port)"
    and "arrives (cser W) (cparse W) (clt_request operation key value)"
    and "arrives rser rparse (handle_get D d (clt_request operation key value))"
    and "rser (handle_get D d (clt_request operation key value)) \<noteq> []"
  shows "clt_main rparse (follower_net W rser D d) opts =
    (if operation = ''DIRECT_GET'' then
       (case db_get D (c_str key) d of
          Some v \<Rightarrow> Some (Inr (0, c_str v @ [CHR 0x0A]))
        | None \<Rightarrow> Some (Inr (3, [CHR 0x0A])))
     else None)"
proof -
  let ?m = "clt_request operation key value" and ?r = "handle_get D d (clt_request operation key value)"
  have op: "operation \<in> {''GET'', ''PUT'', ''DIRECT_GET''}"
    using assms(1) by (auto simp: clt_check_def split: if_splits option.splits)
  show ?thesis
  proof (cases "operation = ''DIRECT_GET''")
    case True
    then have "follower_net W rser D d port ?m = [Got (frame (rser ?r))]"
      using assms(2) by (simp add: follower_net_def follower_thread_iteration_def
          follower_client_step_def clt_request_def Let_def)
    moreover have zr: "zero_reads [Got b] \<le> max_retries" for b by (simp add: max_retries_def)
    ultimately have net: "recv_bytes (follower_net W rser D d port ?m) = frame (rser ?r) @ []"
        "zero_reads (follower_net W rser D d port ?m) \<le> max_retries" by simp_all
    from clt_main_reply [OF assms(1), of "follower_net W rser D d" rser ?r "[]" rparse, OF net assms(3,4)]
    have "clt_main rparse (follower_net W rser D d) opts =
        Some (Inr (case field OK (r_status ?r) of NOT_LEADER \<Rightarrow> 2 | NO_KEY \<Rightarrow> 3 | _ \<Rightarrow> 0,
          c_str (field [] (r_value ?r)) @ [CHR 0x0A]))"
      using True by simp
    with True show ?thesis
      by (auto simp: handle_get_def clt_request_def Let_def empty_response_def split: option.split)
  next
    case False
    with op have "follower_net W rser D d port ?m = []"
      using assms(2) by (auto simp: follower_net_def follower_thread_iteration_def
          follower_client_step_def clt_request_def Let_def)
    then show ?thesis
      using False assms(1) secure_recv_only_errors [of 0]
      by (simp add: clt_main_def clt_secure_recv_list)
  qed
qed

theorem follower_clients_witness:
  "clt_main (\<lambda>_. handle_get mem_rocks memdb_open (clt_request ''DIRECT_GET'' ''k'' []))
     (follower_net (one_wire (clt_request ''DIRECT_GET'' ''k'' [])) (\<lambda>_. ''e'') mem_rocks memdb_open)
     (get_opts ''DIRECT_GET'' ''k'') = Some (Inr (3, [CHR 0x0A]))"
proof -
  let ?m = "clt_request ''DIRECT_GET'' ''k'' []"
  have check: "clt_check (get_opts ''DIRECT_GET'' ''k'') = Inr (''DIRECT_GET'', ''k'', [], 2025)"
    by (simp add: clt_check_def get_opts_def)
  have "arrives (cser (one_wire ?m)) (cparse (one_wire ?m)) ?m"
    "arrives (\<lambda>_. ''e'') (\<lambda>_. handle_get mem_rocks memdb_open ?m) (handle_get mem_rocks memdb_open ?m)"
    by (simp_all add: arrives_def one_wire_def)
  from follower_clients [OF check this] show ?thesis by simp
qed

end
