(* ===== verification/KvStoreTx.thy ===== *)
theory KvStoreTx
  imports Prelude "HOL-Library.AList"
begin

section \<open>Task 1: the transactional key-value store\<close>

text \<open>
  The class \<open>KvStore\<close> of \<open>task1/source/kv_store.h\<close> (the same file is in \<open>task2/source\<close>),
  which the clients use as the reference for what the servers should hold. The first part
  models its methods and shows that they implement an abstract store with transactions; the
  second part models the order in which the methods take the three mutexes. An
  \<open>std::unordered_map\<close> is an association list with distinct keys, whose order stands for the
  unspecified iteration order.
\<close>

subsection \<open>The state and the methods\<close>

record kv_state =
  kv_store :: "(int \<times> string) list"
  iter :: "int list"
  live_txs :: "(int \<times> (int \<times> string) list) list"
  no_keys :: "64 word"
  locked_keys :: "(int \<times> int list) list"

definition kv_init :: kv_state where
  "kv_init = \<lparr>kv_store = [], iter = [], live_txs = [], no_keys = 0, locked_keys = []\<rparr>"

definition kv_put :: "int \<Rightarrow> string \<Rightarrow> kv_state \<Rightarrow> bool \<times> kv_state" where
  "kv_put key value s =
     (True, s\<lparr>no_keys := no_keys s + 1, kv_store := AList.update key value (kv_store s)\<rparr>)"

definition kv_get :: "int \<Rightarrow> kv_state \<Rightarrow> string option" where
  "kv_get key s = map_of (kv_store s) key"

definition tx_start :: "int \<Rightarrow> kv_state \<Rightarrow> bool \<times> kv_state" where
  "tx_start tx_id s =
     (case map_of (live_txs s) tx_id of
        Some _ \<Rightarrow> (False, s)
      | None \<Rightarrow> (True, s\<lparr>live_txs := AList.update tx_id [] (live_txs s)\<rparr>))"

definition tx_put :: "int \<Rightarrow> int \<Rightarrow> string \<Rightarrow> kv_state \<Rightarrow> bool \<times> kv_state" where
  "tx_put tx_id key value s =
     (case map_of (live_txs s) tx_id of
        None \<Rightarrow> (False, s)
      | Some tx_buf \<Rightarrow>
          (True, s\<lparr>live_txs := AList.update tx_id (AList.update key value tx_buf) (live_txs s)\<rparr>))"

text \<open>\<open>safe_get\<close> dereferences what \<open>find\<close> returns.\<close>

definition safe_get :: "int \<Rightarrow> kv_state \<Rightarrow> string res" where
  "safe_get key s =
     (case map_of (kv_store s) key of None \<Rightarrow> Inl Out_Of_Range | Some v \<Rightarrow> Inr v)"

definition tx_get :: "int \<Rightarrow> int \<Rightarrow> kv_state \<Rightarrow> ((bool \<times> string) \<times> kv_state) res" where
  "tx_get tx_id key s =
     (if list_ex (\<lambda>(t, ks). t \<noteq> tx_id \<and> key \<in> set ks) (locked_keys s) then Inr ((False, []), s)
      else map_sum id
        (\<lambda>ret_val.
           let tx_keys = (case map_of (locked_keys s) tx_id of None \<Rightarrow> [] | Some ks \<Rightarrow> ks)
           in ((True, ret_val), s\<lparr>locked_keys := AList.update tx_id (tx_keys @ [key]) (locked_keys s)\<rparr>))
        (safe_get key s))"

definition unsafe_put :: "int \<Rightarrow> string \<Rightarrow> kv_state \<Rightarrow> kv_state" where
  "unsafe_put key value s = s\<lparr>kv_store := AList.update key value (kv_store s)\<rparr>"

definition tx_commit :: "int \<Rightarrow> kv_state \<Rightarrow> bool \<times> kv_state" where
  "tx_commit tx_id s =
     (let cur_tx = (case map_of (live_txs s) tx_id of None \<Rightarrow> [] | Some b \<Rightarrow> b);
          s' = foldl (\<lambda>s (k, v). unsafe_put k v s) s cur_tx
      in (True, s'\<lparr>live_txs := AList.delete tx_id (live_txs s'),
                   locked_keys := AList.delete tx_id (locked_keys s')\<rparr>))"

definition tx_abort :: "int \<Rightarrow> kv_state \<Rightarrow> bool \<times> kv_state" where
  "tx_abort tx_id s =
     (True, s\<lparr>locked_keys := AList.delete tx_id (locked_keys s),
              live_txs := AList.delete tx_id (live_txs s)\<rparr>)"

definition init_it :: "kv_state \<Rightarrow> kv_state" where
  "init_it s = s\<lparr>iter := map fst (kv_store s)\<rparr>"

definition get_next_key :: "kv_state \<Rightarrow> int \<times> kv_state" where
  "get_next_key s = (case iter s of k # ks \<Rightarrow> (k, s\<lparr>iter := ks\<rparr>) | [] \<Rightarrow> (-1, s))"

datatype kv_call =
  Put int string | Get int | Tx_Start int | Tx_Put int int string | Tx_Get int int
| Tx_Commit int | Tx_Abort int

datatype kv_ret = Ret_Bool bool | Ret_Value "string option" | Ret_Read bool string

fun kv_step :: "kv_call \<Rightarrow> kv_state \<Rightarrow> (kv_ret \<times> kv_state) res" where
  "kv_step (Put k v) s = Inr (map_prod Ret_Bool id (kv_put k v s))"
| "kv_step (Get k) s = Inr (Ret_Value (kv_get k s), s)"
| "kv_step (Tx_Start t) s = Inr (map_prod Ret_Bool id (tx_start t s))"
| "kv_step (Tx_Put t k v) s = Inr (map_prod Ret_Bool id (tx_put t k v s))"
| "kv_step (Tx_Get t k) s = map_sum id (map_prod (\<lambda>(b, v). Ret_Read b v) id) (tx_get t k s)"
| "kv_step (Tx_Commit t) s = Inr (map_prod Ret_Bool id (tx_commit t s))"
| "kv_step (Tx_Abort t) s = Inr (map_prod Ret_Bool id (tx_abort t s))"

fun run_steps :: "('c \<Rightarrow> 's \<Rightarrow> ('r \<times> 's) res) \<Rightarrow> 'c list \<Rightarrow> 's \<Rightarrow> ('r list \<times> 's) res" where
  "run_steps step [] s = Inr ([], s)"
| "run_steps step (c # cs) s =
     (case step c s of
        Inl f \<Rightarrow> Inl f
      | Inr (r, s') \<Rightarrow> map_sum id (\<lambda>(rs, s''). (r # rs, s'')) (run_steps step cs s'))"

subsection \<open>The abstract store\<close>

record tx_spec =
  committed :: "int \<rightharpoonup> string"
  buffers :: "int \<rightharpoonup> (int \<rightharpoonup> string)"
  read_locks :: "int \<Rightarrow> int set"

definition spec_init :: tx_spec where
  "spec_init = \<lparr>committed = Map.empty, buffers = Map.empty, read_locks = \<lambda>_. {}\<rparr>"

fun spec_step :: "kv_call \<Rightarrow> tx_spec \<Rightarrow> (kv_ret \<times> tx_spec) res" where
  "spec_step (Put k v) s = Inr (Ret_Bool True, s\<lparr>committed := (committed s)(k \<mapsto> v)\<rparr>)"
| "spec_step (Get k) s = Inr (Ret_Value (committed s k), s)"
| "spec_step (Tx_Start t) s =
     Inr (if buffers s t = None then (Ret_Bool True, s\<lparr>buffers := (buffers s)(t \<mapsto> Map.empty)\<rparr>)
          else (Ret_Bool False, s))"
| "spec_step (Tx_Put t k v) s =
     Inr (case buffers s t of
            None \<Rightarrow> (Ret_Bool False, s)
          | Some b \<Rightarrow> (Ret_Bool True, s\<lparr>buffers := (buffers s)(t \<mapsto> b(k \<mapsto> v))\<rparr>))"
| "spec_step (Tx_Get t k) s =
     (if \<exists>t'. t' \<noteq> t \<and> k \<in> read_locks s t' then Inr (Ret_Read False [], s)
      else case committed s k of
        None \<Rightarrow> Inl Out_Of_Range
      | Some v \<Rightarrow>
          Inr (Ret_Read True v, s\<lparr>read_locks := (read_locks s)(t := insert k (read_locks s t))\<rparr>))"
| "spec_step (Tx_Commit t) s =
     Inr (Ret_Bool True,
       s\<lparr>committed := committed s ++ (case buffers s t of None \<Rightarrow> Map.empty | Some b \<Rightarrow> b),
         buffers := (buffers s)(t := None), read_locks := (read_locks s)(t := {})\<rparr>)"
| "spec_step (Tx_Abort t) s =
     Inr (Ret_Bool True, s\<lparr>buffers := (buffers s)(t := None), read_locks := (read_locks s)(t := {})\<rparr>)"

definition abs_kv :: "kv_state \<Rightarrow> tx_spec" where
  "abs_kv s =
     \<lparr>committed = map_of (kv_store s),
      buffers = (\<lambda>t. map_option map_of (map_of (live_txs s) t)),
      read_locks = (\<lambda>t. case map_of (locked_keys s) t of None \<Rightarrow> {} | Some ks \<Rightarrow> set ks)\<rparr>"

definition kv_ok :: "kv_state \<Rightarrow> bool" where
  "kv_ok s \<longleftrightarrow> distinct (map fst (kv_store s)) \<and> distinct (map fst (live_txs s)) \<and>
     distinct (map fst (locked_keys s)) \<and>
     (\<forall>(t, b)\<in>set (live_txs s). distinct (map fst b))"

lemma kv_init_ok [simp]: "kv_ok kv_init" "abs_kv kv_init = spec_init"
  by (simp_all add: kv_ok_def kv_init_def abs_kv_def spec_init_def)

lemma map_of_rev_distinct: "distinct (map fst m) \<Longrightarrow> map_of (rev m) = map_of m"
  by (subst map_of_inject_set) (simp_all add: rev_map [symmetric])

lemma commit_updates:
  "distinct (map fst (kv_store s)) \<Longrightarrow>
   (let s' = foldl (\<lambda>s (k, v). unsafe_put k v s) s cur in
      map_of (kv_store s') = map_of (kv_store s) ++ map_of (rev cur) \<and>
      distinct (map fst (kv_store s')) \<and> live_txs s' = live_txs s \<and> locked_keys s' = locked_keys s \<and>
      no_keys s' = no_keys s \<and> iter s' = iter s)"
proof (induction cur arbitrary: s)
  case (Cons x cur)
  obtain k v where x: "x = (k, v)" by (cases x)
  have "distinct (map fst (kv_store (unsafe_put k v s)))"
    using Cons.prems by (simp add: unsafe_put_def distinct_update)
  from Cons.IH [OF this] show ?case
    by (simp add: x Let_def unsafe_put_def update_conv' fun_eq_iff map_add_def split: option.split)
qed simp

lemma set_update_subset: "set (AList.update k v m) \<subseteq> insert (k, v) (set m)"
  by (induction m) auto

lemma update_buffers_ok:
  "\<forall>(t, b)\<in>set m. distinct (map fst b) \<Longrightarrow> distinct (map fst b') \<Longrightarrow>
    \<forall>(t, b)\<in>set (AList.update t' b' m). distinct (map fst b)"
  using set_update_subset [of t' b' m] by fastforce

lemma delete_buffers_ok:
  "\<forall>(t, b)\<in>set m. distinct (map fst b) \<Longrightarrow> \<forall>(t, b)\<in>set (AList.delete t' m). distinct (map fst b)"
  by (auto simp: AList.delete_eq)

lemma locked_elsewhere:
  assumes "distinct (map fst m)"
  shows "list_ex (\<lambda>(t', ks). t' \<noteq> t \<and> k \<in> set ks) m \<longleftrightarrow>
    (\<exists>t'. t' \<noteq> t \<and> k \<in> (case map_of m t' of None \<Rightarrow> {} | Some ks \<Rightarrow> set ks))"
proof -
  have "(t', ks) \<in> set m \<longleftrightarrow> map_of m t' = Some ks" for t' ks
    using assms by simp
  then have "list_ex (\<lambda>(t', ks). t' \<noteq> t \<and> k \<in> set ks) m \<longleftrightarrow>
      (\<exists>t' ks. map_of m t' = Some ks \<and> t' \<noteq> t \<and> k \<in> set ks)"
    unfolding list_ex_iff by fast
  also have "\<dots> \<longleftrightarrow> (\<exists>t'. t' \<noteq> t \<and> k \<in> (case map_of m t' of None \<Rightarrow> {} | Some ks \<Rightarrow> set ks))"
    by (intro iff_exI) (auto split: option.split)
  finally show ?thesis .
qed

lemma step_refines:
  assumes "kv_ok s"
  shows "map_sum id (map_prod id abs_kv) (kv_step c s) = spec_step c (abs_kv s)"
    and "kv_step c s = Inr (r, s') \<Longrightarrow> kv_ok s'"
proof -
  have ok: "distinct (map fst (kv_store s))" "distinct (map fst (live_txs s))"
    "distinct (map fst (locked_keys s))" "\<forall>(t, b)\<in>set (live_txs s). distinct (map fst b)"
    using assms by (simp_all add: kv_ok_def)
  have both: "map_sum id (map_prod id abs_kv) (kv_step c s) = spec_step c (abs_kv s) \<and>
    (\<forall>r s'. kv_step c s = Inr (r, s') \<longrightarrow> kv_ok s')"
  proof (cases c)
    case (Put k v)
    with ok show ?thesis
      by (auto simp: kv_put_def abs_kv_def kv_ok_def update_conv' distinct_update)
  next
    case (Get k)
    with assms show ?thesis by (auto simp: kv_get_def abs_kv_def)
  next
    case (Tx_Start t)
    with ok update_buffers_ok [OF ok(4), of "[]" t] show ?thesis
      by (auto simp: tx_start_def abs_kv_def kv_ok_def update_conv' distinct_update fun_eq_iff
          split: option.splits)
  next
    case (Tx_Put t k v)
    show ?thesis
    proof (cases "map_of (live_txs s) t")
      case (Some b)
      then have "distinct (map fst b)" using ok(4) by (auto dest: map_of_SomeD)
      then have "distinct (map fst (AList.update k v b))" by (rule distinct_update)
      with ok update_buffers_ok [OF ok(4) this, of t] Some Tx_Put show ?thesis
        by (auto simp: tx_put_def abs_kv_def kv_ok_def update_conv' distinct_update fun_eq_iff)
    qed (use assms Tx_Put in \<open>auto simp: tx_put_def abs_kv_def\<close>)
  next
    case (Tx_Get t k)
    note l = locked_elsewhere [OF ok(3), of t k]
    show ?thesis
    proof (cases "list_ex (\<lambda>(t', ks). t' \<noteq> t \<and> k \<in> set ks) (locked_keys s)")
      case True
      with l assms Tx_Get show ?thesis by (auto simp: tx_get_def abs_kv_def)
    next
      case False
      with l ok Tx_Get show ?thesis
        by (cases "map_of (kv_store s) k")
           (auto simp: tx_get_def safe_get_def abs_kv_def kv_ok_def update_conv' distinct_update
              Let_def fun_eq_iff simp del: map_of_eq_Some_iff dest: map_of_SomeD split: option.splits)
    qed
  next
    case (Tx_Commit t)
    let ?cur = "case map_of (live_txs s) t of None \<Rightarrow> [] | Some b \<Rightarrow> b"
    have "distinct (map fst ?cur)"
      using ok(4) by (auto split: option.splits dest: map_of_SomeD)
    then have "map_of (rev ?cur) = map_of ?cur" by (rule map_of_rev_distinct)
    with commit_updates [OF ok(1), of ?cur] ok delete_buffers_ok [OF ok(4), of t] Tx_Commit
    show ?thesis
      by (auto simp: tx_commit_def abs_kv_def kv_ok_def Let_def delete_conv' distinct_delete fun_eq_iff
          split: option.splits)
  next
    case (Tx_Abort t)
    with ok delete_buffers_ok [OF ok(4), of t] show ?thesis
      by (auto simp: tx_abort_def abs_kv_def kv_ok_def delete_conv' distinct_delete fun_eq_iff)
  qed
  then show "map_sum id (map_prod id abs_kv) (kv_step c s) = spec_step c (abs_kv s)" by blast
  show "kv_step c s = Inr (r, s') \<Longrightarrow> kv_ok s'" using both by blast
qed

lemma run_refines:
  "kv_ok s \<Longrightarrow> map_sum id (map_prod id abs_kv) (run_steps kv_step cs s) = run_steps spec_step cs (abs_kv s)"
proof (induction cs arbitrary: s)
  case (Cons c cs)
  note step = step_refines [OF Cons.prems, of c]
  show ?case
  proof (cases "kv_step c s")
    case (Inl f)
    then show ?thesis using step(1) [symmetric] by simp
  next
    case (Inr x)
    obtain r s' where x: "x = (r, s')" by (cases x)
    have "kv_ok s'" using step(2) Inr x by simp
    from Cons.IH [OF this, symmetric] show ?thesis
      using step(1) [symmetric] Inr x
      by (cases "run_steps kv_step cs s'") (auto simp: map_prod_def split: prod.splits)
  qed
qed simp

lemma run_ok: "kv_ok s \<Longrightarrow> run_steps kv_step cs s = Inr (rs, s') \<Longrightarrow> kv_ok s'"
proof (induction cs arbitrary: s rs)
  case (Cons c cs)
  then obtain r s1 rs1 where "kv_step c s = Inr (r, s1)" "run_steps kv_step cs s1 = Inr (rs1, s')"
    by (auto simp: map_res_iff split: sum.splits prod.splits)
  with Cons.IH step_refines(2) [OF Cons.prems(1)] show ?case by blast
qed simp

lemma run_steps_append:
  "run_steps step (xs @ ys) s =
    (case run_steps step xs s of
       Inl f \<Rightarrow> Inl f
     | Inr (rs, s') \<Rightarrow> map_sum id (\<lambda>(rs', s''). (rs @ rs', s'')) (run_steps step ys s'))"
  by (induction xs arbitrary: s)
     (auto simp: sum.map_comp comp_def prod.case_distrib sum.map_ident id_def split: sum.split prod.split)

text \<open>The abstract state after a run of the methods.\<close>

lemma spec_locks_exclusive:
  "run_steps spec_step cs s = Inr (rs, s') \<Longrightarrow>
    \<forall>t t'. t \<noteq> t' \<longrightarrow> read_locks s t \<inter> read_locks s t' = {} \<Longrightarrow>
    t \<noteq> t' \<Longrightarrow> read_locks s' t \<inter> read_locks s' t' = {}"
proof (induction cs arbitrary: s rs)
  case (Cons c cs)
  from Cons.prems(1) obtain r s1 rs1 where
    step: "spec_step c s = Inr (r, s1)" "run_steps spec_step cs s1 = Inr (rs1, s')"
    by (auto simp: map_res_iff split: sum.splits prod.splits)
  have "\<forall>t t'. t \<noteq> t' \<longrightarrow> read_locks s1 t \<inter> read_locks s1 t' = {}"
    using step(1) Cons.prems(2)
  proof (cases c)
    case (Tx_Get u k)
    with step(1) have "s1 = s \<or> (\<forall>u'. u' \<noteq> u \<longrightarrow> k \<notin> read_locks s u') \<and>
        s1 = s\<lparr>read_locks := (read_locks s)(u := insert k (read_locks s u))\<rparr>"
      by (auto split: if_splits option.splits)
    with Cons.prems(2) show ?thesis by (auto simp: disjoint_iff split: if_splits)
  qed (use step(1) Cons.prems(2) in \<open>auto simp: disjoint_iff split: if_splits option.splits\<close>)
  with Cons.IH [OF step(2)] Cons.prems(3) show ?case by blast
qed simp

subsection \<open>Properties of the methods\<close>

text \<open>C4: the store implements the abstract store with transactions. Any sequence of calls on a
  new store gives the same results, or ends in the same dereference of \<open>end()\<close>, and leaves the
  same committed values, write buffers and read locks.\<close>

theorem kv_store_refines:
  "map_sum id (map_prod id abs_kv) (run_steps kv_step cs kv_init) = run_steps spec_step cs spec_init"
  using run_refines [OF kv_init_ok(1)] by simp

text \<open>C38: the read locks are exclusive: after any calls no key is in the lists of two
  transactions, and a transaction that asks for a key another one has read is refused.\<close>

theorem read_locks_exclusive:
  assumes "run_steps kv_step cs kv_init = Inr (rs, s)" "t \<noteq> t'"
    and "map_of (locked_keys s) t = Some ks" "k \<in> set ks"
  shows "(\<forall>ks'. map_of (locked_keys s) t' = Some ks' \<longrightarrow> k \<notin> set ks') \<and>
    kv_step (Tx_Get t' k) s = Inr (Ret_Read False [], s)"
proof
  have "run_steps spec_step cs spec_init = Inr (rs, abs_kv s)"
    using run_refines [OF kv_init_ok(1), of cs] assms(1) by simp
  from spec_locks_exclusive [OF this, of t t'] assms(2) have
    "read_locks (abs_kv s) t \<inter> read_locks (abs_kv s) t' = {}" by (simp add: spec_init_def)
  with assms(3,4) show "\<forall>ks'. map_of (locked_keys s) t' = Some ks' \<longrightarrow> k \<notin> set ks'"
    by (auto simp: abs_kv_def)
  have "list_ex (\<lambda>(t'', ks). t'' \<noteq> t' \<and> k \<in> set ks) (locked_keys s)"
    using assms(2-4) by (auto simp: list_ex_iff dest!: map_of_SomeD)
  then show "kv_step (Tx_Get t' k) s = Inr (Ret_Read False [], s)" by (simp add: tx_get_def)
qed

theorem read_locks_exclusive_witness:
  "\<exists>rs s. run_steps kv_step [Put 5 ''a'', Tx_Get 1 5] kv_init = Inr (rs, s) \<and>
    kv_step (Tx_Get 2 5) s = Inr (Ret_Read False [], s)"
proof -
  let ?s = "\<lparr>kv_store = [(5, ''a'')], iter = [], live_txs = [], no_keys = 1, locked_keys = [(1, [5])]\<rparr>"
  have "run_steps kv_step [Put 5 ''a'', Tx_Get 1 5] kv_init =
      Inr ([Ret_Bool True, Ret_Read True ''a''], ?s)"
    by (simp add: kv_init_def kv_put_def tx_get_def safe_get_def Let_def)
  from read_locks_exclusive [OF this, of 1 2 "[5]" 5] this show ?thesis by auto
qed

text \<open>The calls of one transaction that writes a list of keys.\<close>

definition write_calls :: "int \<Rightarrow> (int \<times> string) list \<Rightarrow> kv_call list" where
  "write_calls t ws = Tx_Start t # map (\<lambda>(k, v). Tx_Put t k v) ws"

lemma spec_write_calls:
  "buffers s t = Some b \<Longrightarrow>
    run_steps spec_step (map (\<lambda>(k, v). Tx_Put t k v) ws) s =
      Inr (replicate (length ws) (Ret_Bool True), s\<lparr>buffers := (buffers s)(t \<mapsto> b ++ map_of (rev ws))\<rparr>)"
proof (induction ws arbitrary: s b)
  case Nil
  then show ?case by (simp add: fun_upd_idem)
next
  case (Cons w ws)
  obtain k v where w: "w = (k, v)" by (cases w)
  have "b ++ map_of (rev (w # ws)) = b(k \<mapsto> v) ++ map_of (rev ws)"
    by (simp add: w fun_eq_iff map_add_def split: option.split)
  moreover have "run_steps spec_step (map (\<lambda>(k, v). Tx_Put t k v) ws)
      (s\<lparr>buffers := (buffers s)(t \<mapsto> b(k \<mapsto> v))\<rparr>) =
    Inr (replicate (length ws) (Ret_Bool True),
      s\<lparr>buffers := (buffers s)(t \<mapsto> b(k \<mapsto> v) ++ map_of (rev ws))\<rparr>)"
    by (subst Cons.IH [of _ "b(k \<mapsto> v)"]) simp_all
  ultimately show ?case using Cons.prems by (simp only: w list.map prod.case run_steps.simps)
     (simp add: Cons.prems fun_upd_def)
qed

text \<open>C8: a transaction is all or nothing. On a store in any state with no transaction \<open>t\<close>, its
  start and writes leave every value as it was; a commit then adds exactly its writes, the
  last one of a key winning, and an abort adds none; either way the transaction is gone.\<close>

theorem transaction_atomic:
  assumes "kv_ok s" "map_of (live_txs s) t = None"
  shows "\<exists>s1 s2 s3 r.
    run_steps kv_step (write_calls t ws) s = Inr (r, s1) \<and> map_of (kv_store s1) = map_of (kv_store s) \<and>
    tx_commit t s1 = (True, s2) \<and> map_of (kv_store s2) = map_of (kv_store s) ++ map_of (rev ws) \<and>
    tx_abort t s1 = (True, s3) \<and> map_of (kv_store s3) = map_of (kv_store s) \<and>
    map_of (live_txs s2) t = None \<and> map_of (live_txs s3) t = None"
proof -
  have b: "buffers (abs_kv s) t = None" using assms(2) by (simp add: abs_kv_def)
  have "run_steps spec_step (write_calls t ws) (abs_kv s) =
      Inr (replicate (Suc (length ws)) (Ret_Bool True),
        (abs_kv s)\<lparr>buffers := (buffers (abs_kv s))(t \<mapsto> map_of (rev ws))\<rparr>)"
    using b spec_write_calls [of "(abs_kv s)\<lparr>buffers := (buffers (abs_kv s))(t \<mapsto> Map.empty)\<rparr>" t
        Map.empty ws] by (simp add: write_calls_def)
  with run_refines [OF assms(1), of "write_calls t ws"] obtain r s1 where
    s1: "run_steps kv_step (write_calls t ws) s = Inr (r, s1)"
      "abs_kv s1 = (abs_kv s)\<lparr>buffers := (buffers (abs_kv s))(t \<mapsto> map_of (rev ws))\<rparr>"
    by (auto simp: map_res_iff)
  have ok: "kv_ok s1" by (rule run_ok [OF assms(1) s1(1)])
  obtain s2 s3 where s23: "tx_commit t s1 = (True, s2)" "tx_abort t s1 = (True, s3)"
    by (simp add: tx_commit_def tx_abort_def Let_def)
  have "abs_kv s2 = snd (projr (spec_step (Tx_Commit t) (abs_kv s1)))"
    "abs_kv s3 = snd (projr (spec_step (Tx_Abort t) (abs_kv s1)))"
    using step_refines(1) [OF ok, of "Tx_Commit t"] step_refines(1) [OF ok, of "Tx_Abort t"] s23
    by (metis kv_step.simps(6,7) map_prod_simp map_sum.simps(2) snd_conv sum.sel(2) id_apply)+
  then have "committed (abs_kv s2) = committed (abs_kv s) ++ map_of (rev ws)"
    "committed (abs_kv s3) = committed (abs_kv s)" "committed (abs_kv s1) = committed (abs_kv s)"
    "buffers (abs_kv s2) t = None" "buffers (abs_kv s3) t = None"
    using s1(2) by simp_all
  then have "map_of (kv_store s2) = map_of (kv_store s) ++ map_of (rev ws)"
    "map_of (kv_store s3) = map_of (kv_store s)" "map_of (kv_store s1) = map_of (kv_store s)"
    "map_of (live_txs s2) t = None" "map_of (live_txs s3) t = None"
    by (simp_all add: abs_kv_def)
  with s1(1) s23 show ?thesis by blast
qed

theorem transaction_atomic_witness:
  "\<exists>s1 s2 r. run_steps kv_step (write_calls 1 [(3, ''a''), (3, ''b'')]) kv_init = Inr (r, s1) \<and>
    map_of (kv_store s1) = Map.empty \<and> tx_commit 1 s1 = (True, s2) \<and> map_of (kv_store s2) 3 = Some ''b''"
proof -
  have "map_of (live_txs kv_init) 1 = None" "map_of (kv_store kv_init) = Map.empty"
    by (simp_all add: kv_init_def)
  with transaction_atomic [OF kv_init_ok(1), of 1 "[(3, ''a''), (3, ''b'')]"]
  obtain s1 s2 r where "run_steps kv_step (write_calls 1 [(3, ''a''), (3, ''b'')]) kv_init = Inr (r, s1)"
    "map_of (kv_store s1) = Map.empty" "tx_commit 1 s1 = (True, s2)"
    "map_of (kv_store s2) = Map.empty ++ map_of (rev [(3, ''a''), (3, ''b'')])" by auto
  then show ?thesis by (intro exI [of _ s1] exI [of _ s2] exI [of _ r]) simp
qed

text \<open>Reads are not repeatable. The lock that a read takes stops other reads, not writes: a
  second transaction can commit a new value for a key that the first has read, and the first
  then reads that value.\<close>

theorem read_not_repeatable:
  assumes "kv_ok s" "map_of (kv_store s) k = Some v" "t1 \<noteq> t2" "map_of (live_txs s) t2 = None"
    and "\<forall>(t, ks)\<in>set (locked_keys s). t \<noteq> t1 \<longrightarrow> k \<notin> set ks"
  shows "\<exists>s'. run_steps kv_step [Tx_Get t1 k, Tx_Start t2, Tx_Put t2 k v', Tx_Commit t2, Tx_Get t1 k] s =
    Inr ([Ret_Read True v, Ret_Bool True, Ret_Bool True, Ret_Bool True, Ret_Read True v'], s')"
proof -
  let ?cs = "[Tx_Get t1 k, Tx_Start t2, Tx_Put t2 k v', Tx_Commit t2, Tx_Get t1 k]"
  have free: "k \<notin> read_locks (abs_kv s) t" if "t \<noteq> t1" for t
    using assms(5) that by (auto simp: abs_kv_def split: option.splits dest!: map_of_SomeD)
  have "committed (abs_kv s) k = Some v" "buffers (abs_kv s) t2 = None"
    using assms(2,4) by (simp_all add: abs_kv_def)
  with free assms(3) have "\<exists>a. run_steps spec_step ?cs (abs_kv s) =
      Inr ([Ret_Read True v, Ret_Bool True, Ret_Bool True, Ret_Bool True, Ret_Read True v'], a)"
    by auto
  with run_refines [OF assms(1), of ?cs] show ?thesis by (auto simp: map_res_iff)
qed

theorem read_not_repeatable_witness:
  "\<exists>s'. run_steps kv_step [Tx_Get 1 7, Tx_Start 2, Tx_Put 2 7 ''b'', Tx_Commit 2, Tx_Get 1 7]
      (snd (kv_put 7 ''a'' kv_init)) =
    Inr ([Ret_Read True ''a'', Ret_Bool True, Ret_Bool True, Ret_Bool True, Ret_Read True ''b''], s')"
  by (rule read_not_repeatable) (simp_all add: kv_put_def kv_init_def kv_ok_def)

subsection \<open>The order of the mutexes\<close>

text \<open>The methods are called by several threads and guard their maps by three mutexes. A
  \<open>lock_guard\<close> takes its mutex where it is declared and gives it back at the end of its
  block; a method is the sequence of what it takes and gives back. What \<open>tx_get\<close> does once it
  has the mutex of the locks depends on them: it returns early when another transaction has
  locked the key and calls \<open>safe_get\<close> otherwise.\<close>

datatype mutex = Db_Mtx | Txs_Mtx | Gets_Mtx

datatype lock_op = Acquire mutex | Release mutex | Unless_Refused "lock_op list"

fun call_locks :: "kv_call \<Rightarrow> lock_op list" where
  "call_locks (Put k v) = [Acquire Db_Mtx, Release Db_Mtx]"
| "call_locks (Get k) = [Acquire Db_Mtx, Release Db_Mtx]"
| "call_locks (Tx_Start t) = [Acquire Txs_Mtx, Release Txs_Mtx]"
| "call_locks (Tx_Put t k v) = [Acquire Txs_Mtx, Release Txs_Mtx]"
| "call_locks (Tx_Get t k) =
     [Acquire Gets_Mtx, Unless_Refused [Acquire Db_Mtx, Release Db_Mtx], Release Gets_Mtx]"
| "call_locks (Tx_Commit t) =
     [Acquire Txs_Mtx, Acquire Db_Mtx, Acquire Gets_Mtx,
      Release Gets_Mtx, Release Db_Mtx, Release Txs_Mtx]"
| "call_locks (Tx_Abort t) =
     [Acquire Gets_Mtx, Acquire Txs_Mtx, Release Txs_Mtx, Release Gets_Mtx]"

text \<open>Which thread holds a mutex, and what each thread has still to do.\<close>

type_synonym lock_state = "(mutex \<rightharpoonup> nat) \<times> lock_op list list"

inductive lock_step :: "lock_state \<Rightarrow> lock_state \<Rightarrow> bool" where
  acquire: "i < length ts \<Longrightarrow> ts ! i = Acquire m # p \<Longrightarrow> h m = None \<Longrightarrow>
     lock_step (h, ts) (h(m \<mapsto> i), ts[i := p])"
| release: "i < length ts \<Longrightarrow> ts ! i = Release m # p \<Longrightarrow> h m = Some i \<Longrightarrow>
     lock_step (h, ts) (h(m := None), ts[i := p])"
| refused: "i < length ts \<Longrightarrow> ts ! i = Unless_Refused r # p \<Longrightarrow>
     lock_step (h, ts) (h, ts[i := p])"
| granted: "i < length ts \<Longrightarrow> ts ! i = Unless_Refused r # p \<Longrightarrow>
     lock_step (h, ts) (h, ts[i := r @ p])"

definition lock_start :: "kv_call list list \<Rightarrow> lock_state" where
  "lock_start css = (Map.empty, map (\<lambda>cs. concat (map call_locks cs)) css)"

definition deadlocked :: "lock_state \<Rightarrow> bool" where
  "deadlocked st \<longleftrightarrow> (\<exists>p\<in>set (snd st). p \<noteq> []) \<and> (\<nexists>st'. lock_step st st')"

inductive_cases lock_stepE: "lock_step st st'"

lemma two_deadlock:
  assumes "h m = Some 0" "h m' = Some 1"
  shows "deadlocked (h, [Acquire m' # p, Acquire m # q])"
  using assms by (auto simp: deadlocked_def less_Suc_eq elim!: lock_stepE)

lemma deadlock_after:
  "lock_step\<^sup>*\<^sup>* (Map.empty, [Acquire a # Acquire b # p, Acquire c # q]) 
     ([a \<mapsto> 0, b \<mapsto> 0, c \<mapsto> 1], [p, q])"
  if "distinct [a, b, c]"
proof -
  have ne: "b \<noteq> a" "c \<noteq> a" "c \<noteq> b" using that by auto
  have 1: "lock_step (Map.empty, [Acquire a # Acquire b # p, Acquire c # q])
      ([a \<mapsto> 0], [Acquire b # p, Acquire c # q])"
    using acquire [of 0 "[Acquire a # Acquire b # p, Acquire c # q]" a "Acquire b # p" Map.empty] by simp
  have 2: "lock_step ([a \<mapsto> 0], [Acquire b # p, Acquire c # q]) ([a \<mapsto> 0, b \<mapsto> 0], [p, Acquire c # q])"
    using acquire [of 0 "[Acquire b # p, Acquire c # q]" b p "[a \<mapsto> 0]"] ne by simp
  have 3: "lock_step ([a \<mapsto> 0, b \<mapsto> 0], [p, Acquire c # q]) ([a \<mapsto> 0, b \<mapsto> 0, c \<mapsto> 1], [p, q])"
    using acquire [of 1 "[p, Acquire c # q]" c q "[a \<mapsto> 0, b \<mapsto> 0]"] ne by simp
  show ?thesis
    using r_into_rtranclp [of lock_step, OF 3]
      converse_rtranclp_into_rtranclp [of lock_step, OF 2]
      converse_rtranclp_into_rtranclp [of lock_step, OF 1] by blast
qed

lemma deadlock_pair:
  assumes "distinct [a, b, c]" "d \<in> {a, b}"
  shows "\<exists>st. lock_step\<^sup>*\<^sup>*
    (Map.empty, [Acquire a # Acquire b # Acquire c # p, Acquire c # Acquire d # q]) st \<and> deadlocked st"
    and "\<exists>st. lock_step\<^sup>*\<^sup>*
    (Map.empty, [Acquire a # Acquire b # Acquire c # p, Acquire c # Unless_Refused (Acquire d # r) # q]) st
      \<and> deadlocked st"
proof -
  have dead: "deadlocked ([a \<mapsto> 0, b \<mapsto> 0, c \<mapsto> 1], [Acquire c # p, Acquire d # q])" for q
    using assms by (intro two_deadlock) auto
  with deadlock_after [OF assms(1), of "Acquire c # p" "Acquire d # q"]
  show "\<exists>st. lock_step\<^sup>*\<^sup>*
    (Map.empty, [Acquire a # Acquire b # Acquire c # p, Acquire c # Acquire d # q]) st \<and> deadlocked st"
    by blast
  let ?q = "Unless_Refused (Acquire d # r) # q"
  have "lock_step ([a \<mapsto> 0, b \<mapsto> 0, c \<mapsto> 1], [Acquire c # p, ?q])
      ([a \<mapsto> 0, b \<mapsto> 0, c \<mapsto> 1], [Acquire c # p, Acquire d # r @ q])"
    using granted [of 1 "[Acquire c # p, ?q]" "Acquire d # r" q "[a \<mapsto> 0, b \<mapsto> 0, c \<mapsto> 1]"] by simp
  from rtranclp.rtrancl_into_rtrancl [OF deadlock_after [OF assms(1), of "Acquire c # p" ?q] this] dead
  show "\<exists>st. lock_step\<^sup>*\<^sup>*
    (Map.empty, [Acquire a # Acquire b # Acquire c # p, Acquire c # Unless_Refused (Acquire d # r) # q]) st
      \<and> deadlocked st" by blast
qed

text \<open>C23: a commit can deadlock with a read and with an abort of another thread: the commit
  holds the mutex of the transactions and that of the values and waits for that of the
  locks, which the other method took first and will not give back before it gets one of the
  former. (The read is one that is not refused, as every first read of a key is.)\<close>

theorem commit_deadlocks:
  "(\<exists>st. lock_step\<^sup>*\<^sup>* (lock_start [[Tx_Commit t], [Tx_Get t' k]]) st \<and> deadlocked st) \<and>
   (\<exists>st. lock_step\<^sup>*\<^sup>* (lock_start [[Tx_Commit t], [Tx_Abort t']]) st \<and> deadlocked st)"
  by (auto simp: lock_start_def intro: deadlock_pair [of Txs_Mtx Db_Mtx Gets_Mtx, simplified])

text \<open>Deadlock freedom: every thread takes its mutexes in the order of a rank.\<close>

function (sequential) ordered :: "(mutex \<Rightarrow> nat) \<Rightarrow> mutex set \<Rightarrow> lock_op list \<Rightarrow> bool" where
  "ordered rank H [] \<longleftrightarrow> H = {}"
| "ordered rank H (Acquire m # p) \<longleftrightarrow> (\<forall>x\<in>H. rank x < rank m) \<and> ordered rank (insert m H) p"
| "ordered rank H (Release m # p) \<longleftrightarrow> m \<in> H \<and> ordered rank (H - {m}) p"
| "ordered rank H (Unless_Refused r # p) \<longleftrightarrow> ordered rank H p \<and> ordered rank H (r @ p)"
  by pat_completeness auto
termination by (relation "measure (\<lambda>(_, _, p). size_list size p)") auto

definition lock_inv :: "(mutex \<Rightarrow> nat) \<Rightarrow> lock_state \<Rightarrow> bool" where
  "lock_inv rank st \<longleftrightarrow>
     (\<forall>i<length (snd st). ordered rank {m. fst st m = Some i} (snd st ! i)) \<and>
     (\<forall>m i. fst st m = Some i \<longrightarrow> i < length (snd st))"

lemma lock_inv_step: "lock_step st st' \<Longrightarrow> lock_inv rank st \<Longrightarrow> lock_inv rank st'"
proof (induction rule: lock_step.induct)
  case (acquire i ts m p h)
  have own: "ordered rank (insert m {x. h x = Some i}) p"
    using acquire by (auto simp: lock_inv_def)
  have "ordered rank {x. (h(m \<mapsto> i)) x = Some j} (ts[i := p] ! j)" if "j < length ts" for j
  proof (cases "j = i")
    case True
    have "{x. (h(m \<mapsto> i)) x = Some i} = insert m {x. h x = Some i}" by auto
    with own True that show ?thesis by simp
  next
    case False
    have "{x. (h(m \<mapsto> i)) x = Some j} = {x. h x = Some j}" using False acquire(3) by auto
    with False that acquire(4) show ?thesis by (simp add: lock_inv_def)
  qed
  with acquire show ?case by (auto simp: lock_inv_def)
next
  case (release i ts m p h)
  have own: "ordered rank ({x. h x = Some i} - {m}) p"
  proof -
    have "ordered rank {x. h x = Some i} (ts ! i)" using release(1,4) by (simp add: lock_inv_def)
    with release(2) show ?thesis by simp
  qed
  have "ordered rank {x. (h(m := None)) x = Some j} (ts[i := p] ! j)" if "j < length ts" for j
  proof (cases "j = i")
    case True
    have "{x. (h(m := None)) x = Some i} = {x. h x = Some i} - {m}" by auto
    with own True that show ?thesis by simp
  next
    case False
    have "{x. (h(m := None)) x = Some j} = {x. h x = Some j}" using False release(3) by auto
    with False that release(4) show ?thesis by (simp add: lock_inv_def)
  qed
  with release show ?case by (auto simp: lock_inv_def)
next
  case (refused i ts r p h)
  then have "ordered rank {x. h x = Some i} p" by (auto simp: lock_inv_def)
  with refused show ?case by (auto simp: lock_inv_def nth_list_update)
next
  case (granted i ts r p h)
  then have "ordered rank {x. h x = Some i} (r @ p)" by (auto simp: lock_inv_def)
  with granted show ?case by (auto simp: lock_inv_def nth_list_update)
qed

lemma lock_inv_progress:
  assumes inv: "lock_inv rank (h, ts)" and p: "p \<in> set ts" "p \<noteq> []"
  shows "\<exists>st'. lock_step (h, ts) st'"
proof (cases "\<exists>i m q. i < length ts \<and> ts ! i = Release m # q")
  case True
  then obtain i m q where i: "i < length ts" "ts ! i = Release m # q" by blast
  then have "h m = Some i" using inv by (auto simp: lock_inv_def)
  with release [OF i] show ?thesis by blast
next
  case no_release: False
  show ?thesis
  proof (cases "\<exists>i r q. i < length ts \<and> ts ! i = Unless_Refused r # q")
    case True
    then show ?thesis using refused by blast
  next
    case no_branch: False
    have head: "\<exists>m q. ts ! i = Acquire m # q" if "i < length ts" "ts ! i \<noteq> []" for i
      using that no_release no_branch by (cases "ts ! i"; cases "hd (ts ! i)") auto
    show ?thesis
    proof (cases "\<exists>m. h m \<noteq> None")
      case False
      from p obtain i where "i < length ts" "ts ! i \<noteq> []" by (metis in_set_conv_nth)
      with head obtain m q where "i < length ts" "ts ! i = Acquire m # q" by blast
      with acquire [of i ts m q h] False show ?thesis by blast
    next
      case True
      have "finite (UNIV :: mutex set)"
        by (rule finite_subset [of _ "{Db_Mtx, Txs_Mtx, Gets_Mtx}"]) (auto intro: mutex.exhaust)
      then have fin: "finite {m. h m \<noteq> None}" by (rule rev_finite_subset) simp
      define M where "M = Max (rank ` {m. h m \<noteq> None})"
      have "M \<in> rank ` {m. h m \<noteq> None}" unfolding M_def using fin True by (intro Max_in) auto
      then obtain m j where m: "h m = Some j" "rank m = M" by auto
      have max: "rank x \<le> M" if "h x \<noteq> None" for x
        unfolding M_def using fin that by (intro Max_ge) auto
      have j: "j < length ts" "ordered rank {x. h x = Some j} (ts ! j)"
        using inv m(1) by (auto simp: lock_inv_def)
      with m(1) have "ts ! j \<noteq> []" by auto
      with head j(1) obtain m' q where q: "ts ! j = Acquire m' # q" by blast
      with j(2) m have "M < rank m'" by auto
      then have "h m' = None" using max [of m'] by fastforce
      with acquire [OF j(1) q] show ?thesis by blast
    qed
  qed
qed

lemma ordered_calls:
  assumes "\<And>c q. c \<in> set cs \<Longrightarrow> ordered rank {} (call_locks c @ q) = ordered rank {} q"
  shows "ordered rank {} (concat (map call_locks cs))"
  using assms by (induction cs) auto

lemma lock_inv_start:
  assumes "\<And>cs c q. cs \<in> set css \<Longrightarrow> c \<in> set cs \<Longrightarrow>
    ordered rank {} (call_locks c @ q) = ordered rank {} q"
  shows "lock_inv rank (lock_start css)"
proof -
  have "ordered rank {} (concat (map call_locks (css ! i)))" if "i < length css" for i
    by (rule ordered_calls) (rule assms [OF nth_mem [OF that]])
  then show ?thesis by (simp add: lock_inv_def lock_start_def)
qed

lemma lock_inv_reach: "lock_step\<^sup>*\<^sup>* st st' \<Longrightarrow> lock_inv rank st \<Longrightarrow> lock_inv rank st'"
  by (induction rule: rtranclp_induct) (auto intro: lock_inv_step)

text \<open>Every step brings a thread nearer to its end, so that threads that are never stuck finish.\<close>

definition locks_left :: "lock_state \<Rightarrow> nat" where
  "locks_left st = sum_list (map (size_list size) (snd st))"

lemma lock_step_left: "lock_step st st' \<Longrightarrow> locks_left st' < locks_left st"
  by (induction rule: lock_step.induct) (simp_all add: locks_left_def map_update sum_list_update,
      (use elem_le_sum_list [of _ "map (size_list size) _"] in force)+)

lemma lock_inv_finish:
  "lock_inv rank st \<Longrightarrow> \<exists>st'. lock_step\<^sup>*\<^sup>* st st' \<and> (\<forall>p\<in>set (snd st'). p = [])"
proof (induction "locks_left st" arbitrary: st rule: less_induct)
  case less
  show ?case
  proof (cases "\<forall>p\<in>set (snd st). p = []")
    case False
    then obtain p where "p \<in> set (snd st)" "p \<noteq> []" by blast
    with lock_inv_progress [of rank "fst st" "snd st"] less.prems
    obtain st1 where st1: "lock_step st st1" by (metis prod.collapse)
    from less.hyps [OF lock_step_left [OF st1] lock_inv_step [OF st1 less.prems]] st1
    show ?thesis by (meson converse_rtranclp_into_rtranclp)
  qed blast
qed

definition rank_commit :: "mutex \<Rightarrow> nat" where
  "rank_commit m = (case m of Txs_Mtx \<Rightarrow> 0 | Db_Mtx \<Rightarrow> 1 | Gets_Mtx \<Rightarrow> 2)"

definition rank_reads :: "mutex \<Rightarrow> nat" where
  "rank_reads m = (case m of Gets_Mtx \<Rightarrow> 0 | Txs_Mtx \<Rightarrow> 1 | Db_Mtx \<Rightarrow> 2)"

text \<open>C13: those are the only deadlocks. Any number of threads that make any calls without a
  commit, or any calls without reads in transactions and aborts, can always go on until all
  of them have finished, whichever reads are refused.\<close>

theorem deadlock_freedom:
  assumes "(\<forall>cs\<in>set css. \<forall>c\<in>set cs. \<forall>t. c \<noteq> Tx_Commit t) \<or>
      (\<forall>cs\<in>set css. \<forall>c\<in>set cs. \<forall>t k. c \<noteq> Tx_Get t k \<and> c \<noteq> Tx_Abort t)"
    and "lock_step\<^sup>*\<^sup>* (lock_start css) st"
  shows "\<not> deadlocked st \<and> (\<exists>st'. lock_step\<^sup>*\<^sup>* st st' \<and> (\<forall>p\<in>set (snd st'). p = []))"
proof -
  have "lock_inv rank_reads (lock_start css) \<or> lock_inv rank_commit (lock_start css)"
    using assms(1)
  proof (elim disjE)
    assume "\<forall>cs\<in>set css. \<forall>c\<in>set cs. \<forall>t. c \<noteq> Tx_Commit t"
    then have "ordered rank_reads {} (call_locks c @ q) = ordered rank_reads {} q"
      if "cs \<in> set css" "c \<in> set cs" for cs c q
      using that by (cases c) (auto simp: rank_reads_def)
    then show ?thesis using lock_inv_start [of css rank_reads] by blast
  next
    assume "\<forall>cs\<in>set css. \<forall>c\<in>set cs. \<forall>t k. c \<noteq> Tx_Get t k \<and> c \<noteq> Tx_Abort t"
    then have "ordered rank_commit {} (call_locks c @ q) = ordered rank_commit {} q"
      if "cs \<in> set css" "c \<in> set cs" for cs c q
      using that by (cases c) (auto simp: rank_commit_def insert_commute insert_Diff_if)
    then show ?thesis using lock_inv_start [of css rank_commit] by blast
  qed
  then obtain rank where "lock_inv rank st" using lock_inv_reach [OF assms(2)] by blast
  with lock_inv_progress [of rank "fst st" "snd st"] lock_inv_finish [of rank st] show ?thesis
    by (auto simp: deadlocked_def)
qed

text \<open>A read waits for the mutex of the values, which a \<open>put\<close> of another thread holds; a third
  thread's read has been refused.\<close>

theorem deadlock_freedom_witness:
  "\<exists>st. lock_step\<^sup>*\<^sup>* (lock_start [[Tx_Get 1 2], [Put 2 ''a''], [Tx_Get 3 2]]) st \<and>
     fst st = [Gets_Mtx \<mapsto> 0, Db_Mtx \<mapsto> 1] \<and> hd (snd st ! 0) = Acquire Db_Mtx \<and> snd st ! 2 = [] \<and>
     \<not> deadlocked st"
proof -
  let ?css = "[[Tx_Get 1 2], [Put 2 ''a''], [Tx_Get 3 2]]"
  let ?read = "[Unless_Refused [Acquire Db_Mtx, Release Db_Mtx], Release Gets_Mtx]"
  let ?put = "[Release Db_Mtx]"
  have s1: "lock_step (lock_start ?css) ([Gets_Mtx \<mapsto> 2], [Acquire Gets_Mtx # ?read, Acquire Db_Mtx # ?put, ?read])"
    using acquire [of 2 "snd (lock_start ?css)" Gets_Mtx ?read "fst (lock_start ?css)"]
    by (simp add: lock_start_def)
  have s2: "lock_step ([Gets_Mtx \<mapsto> 2], [Acquire Gets_Mtx # ?read, Acquire Db_Mtx # ?put, ?read])
      ([Gets_Mtx \<mapsto> 2], [Acquire Gets_Mtx # ?read, Acquire Db_Mtx # ?put, [Release Gets_Mtx]])"
    using refused [of 2 "[Acquire Gets_Mtx # ?read, Acquire Db_Mtx # ?put, ?read]"] by simp
  have s3: "lock_step ([Gets_Mtx \<mapsto> 2], [Acquire Gets_Mtx # ?read, Acquire Db_Mtx # ?put, [Release Gets_Mtx]])
      (Map.empty, [Acquire Gets_Mtx # ?read, Acquire Db_Mtx # ?put, []])"
    using release [of 2 "[Acquire Gets_Mtx # ?read, Acquire Db_Mtx # ?put, [Release Gets_Mtx]]" Gets_Mtx "[]"
      "[Gets_Mtx \<mapsto> 2]"] by simp
  have s4: "lock_step (Map.empty, [Acquire Gets_Mtx # ?read, Acquire Db_Mtx # ?put, []])
      ([Gets_Mtx \<mapsto> 0], [?read, Acquire Db_Mtx # ?put, []])"
    using acquire [of 0 "[Acquire Gets_Mtx # ?read, Acquire Db_Mtx # ?put, []]" Gets_Mtx ?read Map.empty] by simp
  have s5: "lock_step ([Gets_Mtx \<mapsto> 0], [?read, Acquire Db_Mtx # ?put, []])
      ([Gets_Mtx \<mapsto> 0, Db_Mtx \<mapsto> 1], [?read, ?put, []])"
    using acquire [of 1 "[?read, Acquire Db_Mtx # ?put, []]" Db_Mtx ?put "[Gets_Mtx \<mapsto> 0]"] by simp
  have s6: "lock_step ([Gets_Mtx \<mapsto> 0, Db_Mtx \<mapsto> 1], [?read, ?put, []])
      ([Gets_Mtx \<mapsto> 0, Db_Mtx \<mapsto> 1], [[Acquire Db_Mtx, Release Db_Mtx, Release Gets_Mtx], ?put, []])"
    using granted [of 0 "[?read, ?put, []]" "[Acquire Db_Mtx, Release Db_Mtx]" "[Release Gets_Mtx]"] by simp
  note into = rtranclp.rtrancl_into_rtrancl [of lock_step]
  have reach: "lock_step\<^sup>*\<^sup>* (lock_start ?css)
      ([Gets_Mtx \<mapsto> 0, Db_Mtx \<mapsto> 1], [[Acquire Db_Mtx, Release Db_Mtx, Release Gets_Mtx], ?put, []])"
    by (rule into [OF into [OF into [OF into [OF into [OF r_into_rtranclp [of lock_step, OF s1] s2] s3] s4] s5] s6])
  from deadlock_freedom [OF _ this] reach show ?thesis by (intro exI conjI) auto
qed

end
