(* ===== verification/ConnQueue.thy ===== *)
theory ConnQueue
  imports Prelude "HOL-Library.Multiset"
begin

section \<open>Task 1: the queue of accepted connections and the thread pool\<close>

text \<open>
  The singly linked list of \<open>task1/source/server.cpp\<close> with its global \<open>head\<close> and \<open>tail\<close>, on
  an explicit heap, and the threads that share it: \<open>main\<close> accepts and adds, the threads of
  the pool take and serve. The locale \<open>conn_queue\<close> is what the pool relies on; the linked
  list provides it.
\<close>

subsection \<open>The linked list\<close>

type_synonym addr = nat

text \<open>\<open>socket\<close> is the address of the \<open>int\<close> with the descriptor.\<close>

record node =
  next_node :: "addr option"
  socket :: addr

record list_state =
  heap :: "addr \<rightharpoonup> node"
  fresh :: addr
  head :: "addr option"
  tail :: "addr option"

definition empty_list :: list_state where
  "empty_list = \<lparr>heap = Map.empty, fresh = 0, head = None, tail = None\<rparr>"

definition addToList :: "addr \<Rightarrow> list_state \<Rightarrow> list_state res" where
  "addToList s l =
     (let n = fresh l;
          hp = (heap l)(n \<mapsto> \<lparr>next_node = None, socket = s\<rparr>)
      in case tail l of
           None \<Rightarrow> Inr (l\<lparr>heap := hp, fresh := Suc n, head := Some n, tail := Some n\<rparr>)
         | Some t \<Rightarrow>
             (case hp t of
                None \<Rightarrow> Inl Null_Deref
              | Some tn \<Rightarrow>
                  Inr (l\<lparr>heap := hp(t \<mapsto> tn\<lparr>next_node := Some n\<rparr>), fresh := Suc n, tail := Some n\<rparr>)))"

definition getFromList :: "list_state \<Rightarrow> (addr option \<times> list_state) res" where
  "getFromList l =
     (case head l of
        None \<Rightarrow> Inr (None, l)
      | Some h \<Rightarrow>
          (case heap l h of
             None \<Rightarrow> Inl Null_Deref
           | Some hn \<Rightarrow>
               (let l' = l\<lparr>head := next_node hn\<rparr>
                in Inr (Some (socket hn), if head l' = None then l'\<lparr>tail := None\<rparr> else l'))))"

subsection \<open>The interface\<close>

text \<open>\<open>repr q xs\<close>: the queue \<open>q\<close> holds the elements \<open>xs\<close>, oldest first.\<close>

locale conn_queue =
  fixes add :: "addr \<Rightarrow> 'q \<Rightarrow> 'q res"
    and take_one :: "'q \<Rightarrow> (addr option \<times> 'q) res"
    and repr :: "'q \<Rightarrow> addr list \<Rightarrow> bool"
  assumes add_repr: "repr q xs \<Longrightarrow> \<exists>q'. add x q = Inr q' \<and> repr q' (xs @ [x])"
    and take_empty: "repr q [] \<Longrightarrow> take_one q = Inr (None, q)"
    and take_first: "repr q (x # xs) \<Longrightarrow> \<exists>q'. take_one q = Inr (Some x, q') \<and> repr q' xs"

subsection \<open>The linked list is a queue\<close>

text \<open>\<open>chain hp p as xs\<close>: from \<open>p\<close> the nodes at \<open>as\<close>, with the sockets \<open>xs\<close>, up to \<open>NULL\<close>.\<close>

fun chain :: "(addr \<rightharpoonup> node) \<Rightarrow> addr option \<Rightarrow> addr list \<Rightarrow> addr list \<Rightarrow> bool" where
  "chain hp p [] xs \<longleftrightarrow> p = None \<and> xs = []"
| "chain hp p (a # as) xs \<longleftrightarrow>
     p = Some a \<and> (\<exists>n ys. hp a = Some n \<and> xs = socket n # ys \<and> chain hp (next_node n) as ys)"

definition holds :: "list_state \<Rightarrow> addr list \<Rightarrow> bool" where
  "holds l xs \<longleftrightarrow> (\<exists>as. chain (heap l) (head l) as xs \<and> distinct as \<and>
     (\<forall>a\<in>set as. a < fresh l) \<and> tail l = (if as = [] then None else Some (last as)))"

lemma chain_other: "a \<notin> set as \<Longrightarrow> chain (hp(a := v)) p as xs \<longleftrightarrow> chain hp p as xs"
  by (induction as arbitrary: p xs) auto

lemma chain_snoc:
  "chain hp p (as @ [a]) xs \<Longrightarrow> distinct (as @ [a]) \<Longrightarrow> n \<notin> set (as @ [a]) \<Longrightarrow> hp a = Some an \<Longrightarrow>
    chain (hp(n \<mapsto> \<lparr>next_node = None, socket = s\<rparr>, a \<mapsto> an\<lparr>next_node := Some n\<rparr>)) p
      (as @ [a, n]) (xs @ [s])"
proof (induction as arbitrary: p xs)
  case (Cons b as)
  then obtain bn ys where b: "hp b = Some bn" "xs = socket bn # ys" "p = Some b"
    "chain hp (next_node bn) (as @ [a]) ys" by auto
  with Cons.IH [OF b(4)] Cons.prems show ?case by simp
qed auto

lemma holds_empty: "holds empty_list []"
  by (simp add: holds_def empty_list_def)

lemma chain_last: "chain hp p (as @ [a]) xs \<Longrightarrow> \<exists>an. hp a = Some an"
  by (induction as arbitrary: p xs) auto

lemma holds_add:
  assumes "holds l xs"
  shows "\<exists>l'. addToList s l = Inr l' \<and> holds l' (xs @ [s])"
proof -
  from assms obtain as where as: "chain (heap l) (head l) as xs" "distinct as"
    "\<forall>a\<in>set as. a < fresh l" "tail l = (if as = [] then None else Some (last as))"
    by (auto simp: holds_def)
  let ?n = "fresh l" and ?new = "\<lparr>next_node = None, socket = s\<rparr>"
  show ?thesis
  proof (cases as rule: rev_cases)
    case Nil
    with as have "addToList s l = Inr (l\<lparr>heap := (heap l)(?n \<mapsto> ?new),
        fresh := Suc ?n, head := Some ?n, tail := Some ?n\<rparr>)"
      by (simp add: addToList_def Let_def)
    moreover have "xs = []" using Nil as(1) by simp
    ultimately show ?thesis
      by (auto simp: holds_def intro!: exI [of _ "[?n]"])
  next
    case (snoc bs a)
    with as(1) chain_last obtain an where an: "heap l a = Some an" by blast
    have n: "?n \<notin> set (bs @ [a])" using as(3) snoc by auto
    then have "a \<noteq> ?n" by simp
    with as(4) snoc an have "addToList s l =
        Inr (l\<lparr>heap := (heap l)(?n \<mapsto> ?new, a \<mapsto> an\<lparr>next_node := Some ?n\<rparr>),
          fresh := Suc ?n, tail := Some ?n\<rparr>)"
      by (simp add: addToList_def Let_def)
    moreover have "chain ((heap l)(?n \<mapsto> ?new, a \<mapsto> an\<lparr>next_node := Some ?n\<rparr>)) (head l)
        (bs @ [a, ?n]) (xs @ [s])"
      using chain_snoc [OF as(1,2) [unfolded snoc] n an] .
    ultimately show ?thesis
      using as(2,3) n snoc by (auto simp: holds_def less_Suc_eq intro!: exI [of _ "bs @ [a, ?n]"])
  qed
qed

lemma holds_take:
  assumes "holds l (x # xs)"
  shows "\<exists>l'. getFromList l = Inr (Some x, l') \<and> holds l' xs"
proof -
  from assms obtain as where as: "chain (heap l) (head l) as (x # xs)" "distinct as"
    "\<forall>a\<in>set as. a < fresh l" "tail l = (if as = [] then None else Some (last as))"
    by (auto simp: holds_def)
  then obtain a bs n where a: "as = a # bs" "head l = Some a" "heap l a = Some n" "socket n = x"
    "chain (heap l) (next_node n) bs xs" by (cases as) auto
  then have "getFromList l = Inr (Some x,
      if next_node n = None then l\<lparr>head := next_node n, tail := None\<rparr> else l\<lparr>head := next_node n\<rparr>)"
    by (simp add: getFromList_def Let_def)
  moreover have "next_node n = None \<longleftrightarrow> bs = []" using a(5) by (cases bs) auto
  ultimately show ?thesis
    using as(2-4) a by (auto simp: holds_def intro!: exI [of _ bs])
qed

lemma holds_take_empty: "holds l [] \<Longrightarrow> getFromList l = Inr (None, l)"
  by (auto simp: holds_def getFromList_def elim: chain.elims)

subsection \<open>The thread pool\<close>

text \<open>What each thread is serving; \<open>accepted\<close>, \<open>started\<close> and \<open>finished\<close> record what has
  happened. The mutex makes adding and taking atomic.\<close>

record 'q pool =
  conns :: 'q
  workers :: "addr option list"
  accepted :: "addr list"
  started :: "addr list"
  finished :: "addr list"

definition THREAD_POOL_SIZE :: nat where
  "THREAD_POOL_SIZE = 4"

text \<open>\<open>pthread_create\<close> stores the threads in an array of that many entries.\<close>

definition pool_start :: "'q \<Rightarrow> int \<Rightarrow> 'q pool res" where
  "pool_start q numThreads =
     (if int THREAD_POOL_SIZE < numThreads then Inl Out_Of_Range
      else Inr \<lparr>conns = q, workers = replicate (nat numThreads) None, accepted = [], started = [],
                finished = []\<rparr>)"

text \<open>A thread that finds the queue empty asks again.\<close>

definition accept_conn :: "(addr \<Rightarrow> 'q \<Rightarrow> 'q res) \<Rightarrow> addr \<Rightarrow> 'q pool \<Rightarrow> 'q pool res" where
  "accept_conn add s p =
     map_sum id (\<lambda>q. p\<lparr>conns := q, accepted := accepted p @ [s]\<rparr>) (add s (conns p))"

definition poll_queue :: "('q \<Rightarrow> (addr option \<times> 'q) res) \<Rightarrow> nat \<Rightarrow> 'q pool \<Rightarrow> 'q pool res" where
  "poll_queue take_one i p =
     (if workers p ! i \<noteq> None then Inr p
      else map_sum id (\<lambda>(r, q). case r of
             None \<Rightarrow> p\<lparr>conns := q\<rparr>
           | Some s \<Rightarrow> p\<lparr>conns := q, workers := (workers p)[i := Some s], started := started p @ [s]\<rparr>)
         (take_one (conns p)))"

definition finish_conn :: "nat \<Rightarrow> 'q pool \<Rightarrow> 'q pool" where
  "finish_conn i p =
     (case workers p ! i of
        None \<Rightarrow> p
      | Some s \<Rightarrow> p\<lparr>workers := (workers p)[i := None], finished := finished p @ [s]\<rparr>)"

datatype pool_event = Accepted addr | Polled nat | Finished nat

fun pool_step ::
  "(addr \<Rightarrow> 'q \<Rightarrow> 'q res) \<Rightarrow> ('q \<Rightarrow> (addr option \<times> 'q) res) \<Rightarrow> pool_event \<Rightarrow> 'q pool \<Rightarrow> 'q pool res"
  where
  "pool_step add take_one (Accepted s) p = accept_conn add s p"
| "pool_step add take_one (Polled i) p =
     (if i < length (workers p) then poll_queue take_one i p else Inr p)"
| "pool_step add take_one (Finished i) p =
     Inr (if i < length (workers p) then finish_conn i p else p)"

fun pool_run ::
  "(addr \<Rightarrow> 'q \<Rightarrow> 'q res) \<Rightarrow> ('q \<Rightarrow> (addr option \<times> 'q) res) \<Rightarrow> pool_event list \<Rightarrow> 'q pool \<Rightarrow> 'q pool res"
  where
  "pool_run add take_one [] p = Inr p"
| "pool_run add take_one (e # es) p =
     (case pool_step add take_one e p of
        Inl f \<Rightarrow> Inl f
      | Inr p' \<Rightarrow> pool_run add take_one es p')"

definition serving :: "'q pool \<Rightarrow> addr list" where
  "serving p = map the (filter (\<lambda>w. w \<noteq> None) (workers p))"

lemma mset_serving_update:
  "i < length ws \<Longrightarrow> ws ! i = None \<Longrightarrow>
    mset (map the (filter (\<lambda>w. w \<noteq> None) (ws[i := Some s]))) =
      add_mset s (mset (map the (filter (\<lambda>w. w \<noteq> None) ws)))"
  "i < length ws \<Longrightarrow> ws ! i = Some s \<Longrightarrow>
    add_mset s (mset (map the (filter (\<lambda>w. w \<noteq> None) (ws[i := None])))) =
      mset (map the (filter (\<lambda>w. w \<noteq> None) ws))"
  by (induction ws arbitrary: i) (auto split: nat.splits simp: nth_Cons)

text \<open>The bookkeeping of a pool whose queue holds \<open>waiting\<close>.\<close>

definition pool_books :: "'q pool \<Rightarrow> addr list \<Rightarrow> bool" where
  "pool_books p waiting \<longleftrightarrow> accepted p = started p @ waiting \<and>
     mset (started p) = mset (finished p) + mset (serving p)"

context conn_queue
begin

lemma pool_step_books:
  assumes "repr (conns p) xs" "pool_books p xs"
  shows "\<exists>p' ys. pool_step add take_one e p = Inr p' \<and> repr (conns p') ys \<and> pool_books p' ys"
proof (cases e)
  case (Accepted s)
  from add_repr [OF assms(1)] obtain q where q: "add s (conns p) = Inr q" "repr q (xs @ [s])" by blast
  then have "pool_step add take_one e p = Inr (p\<lparr>conns := q, accepted := accepted p @ [s]\<rparr>)"
    by (simp add: Accepted accept_conn_def)
  moreover have "pool_books (p\<lparr>conns := q, accepted := accepted p @ [s]\<rparr>) (xs @ [s])"
    using assms(2) by (simp add: pool_books_def serving_def)
  ultimately show ?thesis using q(2) by fastforce
next
  case (Polled i)
  show ?thesis
  proof (cases "i < length (workers p) \<and> workers p ! i = None")
    case False
    with Polled assms show ?thesis by (auto simp: poll_queue_def)
  next
    case idle: True
    show ?thesis
    proof (cases xs)
      case Nil
      with take_empty assms(1) have "take_one (conns p) = Inr (None, conns p)" by simp
      with idle Polled assms show ?thesis by (auto simp: poll_queue_def)
    next
      case (Cons s ys)
      with take_first assms(1) obtain q where q: "take_one (conns p) = Inr (Some s, q)" "repr q ys"
        by blast
      let ?p = "p\<lparr>conns := q, workers := (workers p)[i := Some s], started := started p @ [s]\<rparr>"
      have "pool_step add take_one e p = Inr ?p"
        using q idle by (simp add: Polled poll_queue_def)
      moreover have "pool_books ?p ys"
        using assms(2) Cons idle mset_serving_update(1) [of i "workers p" s]
        by (simp add: pool_books_def serving_def)
      ultimately show ?thesis using q(2) by fastforce
    qed
  qed
next
  case (Finished i)
  show ?thesis
  proof (cases "i < length (workers p) \<and> workers p ! i \<noteq> None")
    case False
    with Finished assms show ?thesis by (auto simp: finish_conn_def)
  next
    case True
    then obtain s where s: "i < length (workers p)" "workers p ! i = Some s" by blast
    let ?p = "p\<lparr>workers := (workers p)[i := None], finished := finished p @ [s]\<rparr>"
    have "pool_books ?p xs"
      using assms(2) mset_serving_update(2) [OF s] by (simp add: pool_books_def serving_def)
    with s assms(1) show ?thesis by (auto simp: Finished finish_conn_def)
  qed
qed

lemma pool_run_books:
  "repr (conns p) xs \<Longrightarrow> pool_books p xs \<Longrightarrow>
    \<exists>p' ys. pool_run add take_one es p = Inr p' \<and> repr (conns p') ys \<and> pool_books p' ys"
proof (induction es arbitrary: p xs)
  case (Cons e es)
  from pool_step_books [OF Cons.prems, of e] obtain p1 ys where
    "pool_step add take_one e p = Inr p1" "repr (conns p1) ys" "pool_books p1 ys" by blast
  with Cons.IH [of p1 ys] show ?case by simp
qed auto

end

interpretation linked: conn_queue addToList getFromList holds
  by unfold_locales (auto intro: holds_add holds_take holds_take_empty)

text \<open>C7: the thread pool serves every connection once and in the order of arrival. With at
  most four threads and whatever the threads and \<open>main\<close> do in whatever order, no pointer of
  the list is followed into nowhere, the connections accepted are those handed to threads
  followed by those still in the list, and those handed out are the finished ones and the
  ones being served. With more than four threads the array of thread handles overflows.\<close>

theorem thread_pool_fifo:
  "(numThreads \<le> 4 \<longrightarrow>
     (\<exists>p p' waiting. pool_start empty_list numThreads = Inr p \<and>
        pool_run addToList getFromList es p = Inr p' \<and>
        holds (conns p') waiting \<and> accepted p' = started p' @ waiting \<and>
        mset (started p') = mset (finished p') + mset (serving p'))) \<and>
   (4 < numThreads \<longrightarrow> pool_start empty_list numThreads = Inl Out_Of_Range)"
proof (intro conjI impI)
  assume n: "numThreads \<le> 4"
  let ?p = "\<lparr>conns = empty_list, workers = replicate (nat numThreads) None, accepted = [],
    started = [], finished = []\<rparr>"
  have "pool_books ?p []" by (simp add: pool_books_def serving_def)
  with linked.pool_run_books [of ?p "[]" es] holds_empty obtain p' ys where
    "pool_run addToList getFromList es ?p = Inr p'" "holds (conns p') ys" "pool_books p' ys"
    by auto
  moreover have "pool_start empty_list numThreads = Inr ?p"
    using n by (simp add: pool_start_def THREAD_POOL_SIZE_def)
  ultimately show "\<exists>p p' waiting. pool_start empty_list numThreads = Inr p \<and>
      pool_run addToList getFromList es p = Inr p' \<and>
      holds (conns p') waiting \<and> accepted p' = started p' @ waiting \<and>
      mset (started p') = mset (finished p') + mset (serving p')"
    by (auto simp: pool_books_def)
qed (simp add: pool_start_def THREAD_POOL_SIZE_def)

theorem thread_pool_fifo_witness:
  "\<exists>p p' waiting. pool_start empty_list 2 = Inr p \<and>
     pool_run addToList getFromList [Accepted 7, Accepted 9, Polled 1, Finished 1, Polled 0] p = Inr p' \<and>
     holds (conns p') waiting \<and> accepted p' = started p' @ waiting \<and>
     mset (started p') = mset (finished p') + mset (serving p')"
  using thread_pool_fifo [of 2 "[Accepted 7, Accepted 9, Polled 1, Finished 1, Polled 0]"] by simp

end
