(* ===== verification/Task1Server.thy ===== *)
theory Task1Server
  imports Framing MemTable ConnQueue
begin

section \<open>Task 1: the server\<close>

text \<open>
  \<open>client_handler\<close> and \<open>main\<close> of \<open>task1/source/server.cpp\<close>, with the messages of
  \<open>client_message.proto\<close> and \<open>server_message.proto\<close>.
\<close>

subsection \<open>Messages\<close>

datatype op_kind =
  PUT | GET | TXN_START | TXN_PUT | TXN_GET | TXN_GET_AND_EXECUTE | TXN_COMMIT | TXN_ABORT | INIT

record operation_data =
  od_type :: "op_kind option"
  od_op_id :: "i32 option"
  od_txn_id :: "i32 option"
  od_key :: "i32 option"
  od_value :: "string option"
  od_client_id :: "i32 option"
  od_port :: "i32 option"

record reply_msg =
  rp_op_id :: "i32 option"
  rp_success :: "bool option"
  rp_txn_id :: "i32 option"
  rp_value :: "string option"

definition default_to :: "'a \<Rightarrow> 'a option \<Rightarrow> 'a" where
  "default_to d x = (case x of None \<Rightarrow> d | Some y \<Rightarrow> y)"

definition empty_reply :: reply_msg where
  "empty_reply = \<lparr>rp_op_id = None, rp_success = None, rp_txn_id = None, rp_value = None\<rparr>"

subsection \<open>The handler\<close>

text \<open>The database, what has gone to \<open>secure_send\<close> on \<open>client_send_fd\<close>, and the descriptors
  closed.\<close>

record 'db t1_state =
  t1_db :: 'db
  sent :: "string list"
  closed :: "int list"

definition send_reply :: "(reply_msg \<Rightarrow> string) \<Rightarrow> reply_msg \<Rightarrow> 'db t1_state \<Rightarrow> 'db t1_state" where
  "send_reply ser reply s =
     (let buffer = ser reply in s\<lparr>sent := sent s @ [construct_message buffer (length buffer)]\<rparr>)"

text \<open>One operation. The key of a \<open>GET\<close> goes through \<open>static_cast<char>\<close>.\<close>

definition handle_op ::
  "'db db_ops \<Rightarrow> (reply_msg \<Rightarrow> string) \<Rightarrow> operation_data \<Rightarrow> 'db t1_state \<Rightarrow> 'db t1_state" where
  "handle_op D ser od s =
     (case default_to PUT (od_type od) of
        PUT \<Rightarrow>
          (let key = to_string (sint (default_to 0 (od_key od)));
               value = default_to [] (od_value od);
               (status, d) = db_put D key value (t1_db s)
           in send_reply ser (empty_reply\<lparr>rp_success := Some status,
                rp_op_id := Some (default_to 0 (od_op_id od))\<rparr>) (s\<lparr>t1_db := d\<rparr>))
      | GET \<Rightarrow>
          (let key = (ucast (default_to 0 (od_key od)) :: 8 word);
               r = db_get D (to_string (sint key)) (t1_db s)
           in send_reply ser (empty_reply\<lparr>rp_success := Some (r \<noteq> None),
                rp_value := Some (default_to [] r),
                rp_op_id := Some (default_to 0 (od_op_id od))\<rparr>) s)
      | _ \<Rightarrow> s)"

text \<open>\<open>msg.ops(0)\<close>. What the generated accessor does when there is no operation is undefined:
  it is the parameter \<open>oob\<close>, a fault or some operation.\<close>

definition ops0 :: "operation_data res \<Rightarrow> operation_data list \<Rightarrow> operation_data res" where
  "ops0 oob ops = (case ops of [] \<Rightarrow> oob | od # _ \<Rightarrow> Inr od)"

text \<open>The loop of the handler: \<open>msg\<close> is cleared before every \<open>secure_recv\<close> and not parsed after
  it.\<close>

function (sequential) serve_requests ::
  "'db db_ops \<Rightarrow> (reply_msg \<Rightarrow> string) \<Rightarrow> operation_data res \<Rightarrow> recv_res list \<Rightarrow> 'db t1_state
     \<Rightarrow> 'db t1_state res option" where
  "serve_requests D ser oob evs s =
     (let msg = [] in
      case secure_recv evs of
        None \<Rightarrow> None
      | Some (res, es) \<Rightarrow>
          (if fst res = 0 then Some (Inr s)
           else (case ops0 oob msg of
               Inl f \<Rightarrow> Some (Inl f)
             | Inr od \<Rightarrow> serve_requests D ser oob es (handle_op D ser od s))))"
  by pat_completeness auto
termination
  by (relation "measure (\<lambda>(_, _, _, evs, _). events_size evs)") (auto dest: secure_recv_size)

declare serve_requests.simps [simp del]

text \<open>\<open>client_handler\<close> on the accepted descriptor \<open>fd\<close>; \<open>connect_to\<close> is
  \<open>connect_socket("localhost", port)\<close>, whose result is not checked.\<close>

definition client_handler ::
  "(string \<Rightarrow> operation_data list) \<Rightarrow> (reply_msg \<Rightarrow> string) \<Rightarrow> (i32 \<Rightarrow> int) \<Rightarrow> 'db db_ops
     \<Rightarrow> operation_data res \<Rightarrow> int \<Rightarrow> recv_res list \<Rightarrow> 'db t1_state \<Rightarrow> 'db t1_state res option" where
  "client_handler parse ser connect_to D oob fd evs s =
     (case secure_recv evs of
        None \<Rightarrow> None
      | Some (res, es) \<Rightarrow>
          (if fst res = 0 then Some (Inr (s\<lparr>closed := closed s @ [fd]\<rparr>))
           else (case parse_buffer parse (snd res) of
               Inl f \<Rightarrow> Some (Inl f)
             | Inr msg \<Rightarrow>
                 (case ops0 oob msg of
                    Inl f \<Rightarrow> Some (Inl f)
                  | Inr od \<Rightarrow>
                      (let client_send_fd = connect_to (default_to 0 (od_port od))
                       in map_option (map_sum id (\<lambda>s. s\<lparr>closed := closed s @ [fd, client_send_fd]\<rparr>))
                            (serve_requests D ser oob es s))))))"

subsection \<open>Start-up\<close>

text \<open>The arguments \<open>main\<close> reads after its check of \<open>argc\<close>: \<open>numThreads\<close>, \<open>hostname\<close>, \<open>port\<close>
  and \<open>numClients\<close>. \<open>argv[argc]\<close> is the null pointer and what follows it is not an argument.\<close>

definition arg :: "string list \<Rightarrow> nat \<Rightarrow> string res" where
  "arg argv i =
     (if i < length argv then Inr (argv ! i)
      else if i = length argv then Inl Null_Deref else Inl Out_Of_Range)"

record t1_config =
  numThreads :: int
  server_name :: string
  server_port :: int
  numClients :: int

definition server_args :: "string list \<Rightarrow> t1_config res" where
  "server_args argv =
     (if length argv < 4 then Inl (Exit 1)
      else bind_res (arg argv 2) (\<lambda>a2. bind_res (arg argv 4) (\<lambda>a4.
           bind_res (arg argv 6) (\<lambda>a6. bind_res (arg argv 8) (\<lambda>a8.
           Inr \<lparr>numThreads = atoi a2, server_name = a4, server_port = atoi a6, numClients = atoi a8\<rparr>)))))"

text \<open>\<open>main\<close> up to its accept loop: the database, the threads, the listening socket.\<close>

definition server_main ::
  "bool \<Rightarrow> (int \<Rightarrow> int) \<Rightarrow> string list \<Rightarrow> (int \<times> list_state pool) res" where
  "server_main opened listen_on argv =
     (if length argv < 4 then Inl (Exit 1)
      else if \<not> opened then Inl Assert_Failed
      else bind_res (server_args argv) (\<lambda>cfg.
           bind_res (pool_start empty_list (numThreads cfg)) (\<lambda>pool.
             let server_sockfd = listen_on (server_port cfg)
             in if server_sockfd < 0 then Inl (Exit 1) else Inr (server_sockfd, pool))))"

subsection \<open>What the handler does with its requests\<close>

lemma serve_requests_frames:
  assumes "recv_bytes evs = concat (map frame ps)" "zero_reads evs \<le> max_retries"
    and "\<forall>p\<in>set ps. p \<noteq> [] \<and> length p < 2 ^ 32"
  shows "serve_requests D ser oob (evs @ closed_peer) s =
    Some (case oob of
            Inl f \<Rightarrow> if ps = [] then Inr s else Inl f
          | Inr od \<Rightarrow> Inr ((handle_op D ser od ^^ length ps) s))"
  using assms
proof (induction ps arbitrary: evs s)
  case Nil
  then obtain es where "secure_recv (evs @ closed_peer) = Some ((0, None), es)"
    using secure_recv_closed [of evs] by auto
  then show ?case by (subst serve_requests.simps) (simp split: sum.split)
next
  case (Cons p ps)
  from Cons.prems secure_recv_frame_suf [of evs p "concat (map frame ps)" closed_peer]
  obtain es where es: "secure_recv (evs @ closed_peer) = Some (received p, es @ closed_peer)"
    "recv_bytes es = concat (map frame ps)" "zero_reads es \<le> max_retries"
    by (auto simp: received_def)
  then have "serve_requests D ser (Inr od) (es @ closed_peer) t =
      Some (Inr ((handle_op D ser od ^^ length ps) t))" if "oob = Inr od" for od t
    using Cons.IH [of es t] Cons.prems(3) that by simp
  with es(1) Cons.prems(3) show ?case
    by (subst serve_requests.simps) (auto simp: ops0_def funpow_swap1 split: sum.split)
qed

text \<open>C21: the server of task 1 never looks at a request. After the first message of a
  connection, whose first operation names the port to answer to, what the handler does to
  the database and what it sends depend on the number of the requests and not on what they
  say: it goes on with the operation 0 of a message that it has cleared and not parsed
  again. If that access faults the server stops at the first request; if it yields some
  operation, every request is taken for that one.\<close>

theorem requests_never_read:
  assumes "recv_bytes evs = concat (map frame (hello # requests))" "zero_reads evs \<le> max_retries"
    and "\<forall>p\<in>set (hello # requests). p \<noteq> [] \<and> length p < 2 ^ 32"
    and "parse (c_str hello) = od # ods" "sfd = connect_to (default_to 0 (od_port od))"
  shows "client_handler parse ser connect_to D oob fd (evs @ closed_peer) s =
    Some (case oob of
            Inl f \<Rightarrow> if requests = [] then Inr (s\<lparr>closed := closed s @ [fd, sfd]\<rparr>) else Inl f
          | Inr stale \<Rightarrow>
              (let s' = (handle_op D ser stale ^^ length requests) s
               in Inr (s'\<lparr>closed := closed s' @ [fd, sfd]\<rparr>)))"
proof -
  obtain es where "secure_recv (evs @ closed_peer) = Some (received hello, es @ closed_peer)"
    "recv_bytes es = concat (map frame requests)" "zero_reads es \<le> max_retries"
    using secure_recv_frame_suf [of evs hello "concat (map frame requests)" closed_peer] assms(1-3)
    by (auto simp: received_def)
  with serve_requests_frames [of es requests D ser oob s] assms(3-5) show ?thesis
    by (auto simp: client_handler_def ops0_def Let_def split: sum.split)
qed

definition no_op :: operation_data where
  "no_op = \<lparr>od_type = None, od_op_id = None, od_txn_id = None, od_key = None, od_value = None,
     od_client_id = None, od_port = None\<rparr>"

theorem requests_never_read_witness:
  "client_handler (\<lambda>m. [no_op\<lparr>od_type := Some INIT, od_port := Some 1027\<rparr>]) (\<lambda>r. ''ok'') (\<lambda>p. 6)
     mem_rocks (Inl Out_Of_Range) 5 ([Got (frame ''i'' @ frame ''g'')] @ closed_peer)
     \<lparr>t1_db = memdb_open, sent = [], closed = []\<rparr> = Some (Inl Out_Of_Range)"
  using requests_never_read [of "[Got (frame ''i'' @ frame ''g'')]" "''i''" "[''g'']"
      "\<lambda>m. [no_op\<lparr>od_type := Some INIT, od_port := Some 1027\<rparr>]"
      "no_op\<lparr>od_type := Some INIT, od_port := Some 1027\<rparr>" "[]" 6 "\<lambda>p. 6" "\<lambda>r. ''ok''" mem_rocks
      "Inl Out_Of_Range" 5 "\<lparr>t1_db = memdb_open, sent = [], closed = []\<rparr>"]
  by (simp add: max_retries_def)

text \<open>How the server comes up. With the eight arguments of the documented command line, a
  database that opens, at most four threads and a port it can listen on, it has as many idle
  threads as were asked for; with four to eight words on the command line, the program's name
  included, it reads past its arguments, and with fewer it exits with 1.\<close>

theorem server_start_up:
  "(8 < length argv \<longrightarrow> atoi (argv ! 2) \<le> 4 \<longrightarrow> 0 \<le> listen_on (atoi (argv ! 6)) \<longrightarrow>
     server_main True listen_on argv =
       Inr (listen_on (atoi (argv ! 6)),
         \<lparr>conns = empty_list, workers = replicate (nat (atoi (argv ! 2))) None, accepted = [],
          started = [], finished = []\<rparr>)) \<and>
   (length argv < 4 \<longrightarrow> server_main opened listen_on argv = Inl (Exit 1)) \<and>
   (4 \<le> length argv \<and> length argv \<le> 8 \<longrightarrow>
     server_main True listen_on argv \<in> {Inl Null_Deref, Inl Out_Of_Range})"
proof (intro conjI impI)
  assume "4 \<le> length argv \<and> length argv \<le> 8"
  then show "server_main True listen_on argv \<in> {Inl Null_Deref, Inl Out_Of_Range}"
    by (auto simp: server_main_def server_args_def bind_res_def arg_def)
qed (simp_all add: server_main_def server_args_def bind_res_def arg_def pool_start_def
    THREAD_POOL_SIZE_def)

theorem server_start_up_witness:
  "server_main True (\<lambda>p. 3)
     [''svr'', ''-n'', ''2'', ''-s'', ''localhost'', ''-p'', ''1025'', ''-c'', ''1''] =
   Inr (3, \<lparr>conns = empty_list, workers = [None, None], accepted = [], started = [], finished = []\<rparr>)"
proof -
  have two: "atoi ''2'' = 2" by code_simp
  show ?thesis
    using server_start_up [of
        "[''svr'', ''-n'', ''2'', ''-s'', ''localhost'', ''-p'', ''1025'', ''-c'', ''1'']" "\<lambda>p. 3" True]
    by (simp add: two numeral_2_eq_2)
qed

end
