(* ===== verification/Sockets.thy ===== *)
theory Sockets
  imports Prelude "HOL-Library.State_Monad"
begin

section \<open>Opening sockets\<close>

text \<open>
  \<open>listening_socket\<close>, \<open>connect_socket\<close> and \<open>accept_connection\<close>, of which the repository has
  four copies: \<open>task0/utils.cpp\<close>, \<open>task1/source/utils.cpp\<close> (the same file is in
  \<open>task2/source\<close>), \<open>task3/source/server.cpp\<close> and \<open>task3/source/client.cpp\<close>. They differ in the
  backlog and in whether \<open>connect_socket\<close> sets an option.

  The functions are state-monad programs over the system calls. The locale \<open>socket_api\<close> states
  what each call may do to the descriptors of the process; a kernel with a descriptor limit,
  ports held by other processes, remote listeners and arbitrary refusals provides it.
\<close>

subsection \<open>System calls\<close>

type_synonym u16 = "16 word"

datatype syscall =
    Socket
  | Setsockopt int u32
  | Bind int u16
  | Listen int int
  | Connect int u16
  | Accept int

text \<open>A stream socket: its options, the port it is bound to, the length of its queue when it
  listens, the port it is connected to.\<close>

record sock =
  opts :: "u32 set"
  lport :: "u16 option"
  backlog :: "int option"
  peer :: "u16 option"

definition new_sock :: sock where
  "new_sock = \<lparr>opts = {}, lport = None, backlog = None, peer = None\<rparr>"

type_synonym 'k sys = "syscall \<Rightarrow> ('k, int) state"

text \<open>\<open>htons\<close> takes a \<open>uint16_t\<close>: the port loses its high bits.\<close>

definition htons :: "int \<Rightarrow> u16" where
  "htons port = word_of_int port"

definition SO_REUSEADDR :: u32 where "SO_REUSEADDR = 2"
definition SO_REUSEPORT :: u32 where "SO_REUSEPORT = 15"

text \<open>\<open>inet_pton(AF_INET, s, ...)\<close>: four decimal numbers up to 255 without leading zeros.\<close>

fun split_dots :: "string \<Rightarrow> string list" where
  "split_dots [] = [[]]"
| "split_dots (c # s) =
     (if c = CHR ''.'' then [] # split_dots s
      else (case split_dots s of w # ws \<Rightarrow> (c # w) # ws | [] \<Rightarrow> [[c]]))"

definition octet :: "string \<Rightarrow> bool" where
  "octet w \<longleftrightarrow> w \<noteq> [] \<and> list_all is_digit w \<and> digits_val 0 w \<le> 255 \<and>
     (length w > 1 \<longrightarrow> hd w \<noteq> CHR ''0'')"

definition inet_pton :: "string \<Rightarrow> int" where
  "inet_pton s = (if length (split_dots s) = 4 \<and> list_all octet (split_dots s) then 1 else 0)"

lemma inet_pton_localhost [simp]: "inet_pton ''127.0.0.1'' = 1"
  by code_simp

subsection \<open>The three functions\<close>

definition listening_socket :: "int \<Rightarrow> 'k sys \<Rightarrow> int \<Rightarrow> ('k, int) state" where
  "listening_socket queue sys port = do {
     server_fd \<leftarrow> sys Socket;
     if server_fd = 0 then State_Monad.return (-1)
     else do {
       r \<leftarrow> sys (Setsockopt server_fd (SO_REUSEADDR OR SO_REUSEPORT));
       if r \<noteq> 0 then State_Monad.return (-1)
       else do {
         r \<leftarrow> sys (Bind server_fd (htons port));
         if r < 0 then State_Monad.return (-1)
         else do {
           r \<leftarrow> sys (Listen server_fd queue);
           if r < 0 then State_Monad.return (-1)
           else State_Monad.return server_fd }}}}"

text \<open>\<open>hostname\<close> is not used: the address is always \<open>127.0.0.1\<close>.\<close>

definition connect_from :: "'k sys \<Rightarrow> int \<Rightarrow> int \<Rightarrow> ('k, int) state" where
  "connect_from sys sock port =
     (if inet_pton ''127.0.0.1'' \<le> 0 then State_Monad.return (-1)
      else do {
        r \<leftarrow> sys (Connect sock (htons port));
        if r < 0 then State_Monad.return (-1) else State_Monad.return sock })"

definition connect_socket :: "'k sys \<Rightarrow> string \<Rightarrow> int \<Rightarrow> ('k, int) state" where
  "connect_socket sys hostname port = do {
     sock \<leftarrow> sys Socket;
     if sock < 0 then State_Monad.return (-1)
     else do {
       r \<leftarrow> sys (Setsockopt sock (SO_REUSEADDR OR SO_REUSEPORT));
       if r \<noteq> 0 then State_Monad.return (-1) else connect_from sys sock port }}"

definition accept_connection :: "'k sys \<Rightarrow> int \<Rightarrow> ('k, int) state" where
  "accept_connection sys sockfd = do {
     new_socket \<leftarrow> sys (Accept sockfd);
     if new_socket < 0 then State_Monad.return (-1) else State_Monad.return new_socket }"

text \<open>The copies.\<close>

definition t0_listening_socket :: "'k sys \<Rightarrow> int \<Rightarrow> ('k, int) state" where
  "t0_listening_socket = listening_socket 3"

definition t0_connect_socket :: "'k sys \<Rightarrow> string \<Rightarrow> int \<Rightarrow> ('k, int) state" where
  "t0_connect_socket sys hostname port = do {
     sock \<leftarrow> sys Socket;
     if sock < 0 then State_Monad.return (-1) else connect_from sys sock port }"

definition svr_listening_socket :: "'k sys \<Rightarrow> int \<Rightarrow> ('k, int) state" where
  "svr_listening_socket = listening_socket 10"

definition svr_connect_socket :: "'k sys \<Rightarrow> int \<Rightarrow> ('k, int) state" where
  "svr_connect_socket sys = connect_socket sys []"

text \<open>The two options are bit patterns of no mask: their union is the second one.\<close>

lemma reuse_options [simp]: "SO_REUSEADDR OR SO_REUSEPORT = SO_REUSEPORT"
  by (simp add: SO_REUSEADDR_def SO_REUSEPORT_def)

subsection \<open>The interface of the kernel\<close>

text \<open>A failed call may have left one new descriptor behind.\<close>

definition leaves_one :: "(int \<rightharpoonup> sock) \<Rightarrow> (int \<rightharpoonup> sock) \<Rightarrow> bool" where
  "leaves_one t t' \<longleftrightarrow> t' = t \<or> (\<exists>fd s. t fd = None \<and> t' = t(fd \<mapsto> s))"

lemma leaves_one_intros [simp, intro]:
  "leaves_one t t" "t fd = None \<Longrightarrow> leaves_one t (t(fd \<mapsto> s))"
  by (auto simp: leaves_one_def)

text \<open>\<open>socks k\<close>: the sockets of the process by descriptor. Every call may be refused, and then
  changes nothing.\<close>

locale socket_api =
  fixes sys :: "'k sys" and socks :: "'k \<Rightarrow> int \<rightharpoonup> sock"
  assumes descriptor: "socks k fd = Some s \<Longrightarrow> 0 \<le> fd"
    and socket: "run_state (sys Socket) k = (r, k') \<Longrightarrow>
      (r = -1 \<and> socks k' = socks k) \<or>
      (0 \<le> r \<and> socks k r = None \<and> socks k' = (socks k)(r \<mapsto> new_sock))"
    and setsockopt: "run_state (sys (Setsockopt fd opt)) k = (r, k') \<Longrightarrow>
      (r = -1 \<and> socks k' = socks k) \<or>
      (r = 0 \<and> (\<exists>s. socks k fd = Some s \<and> socks k' = (socks k)(fd \<mapsto> s\<lparr>opts := insert opt (opts s)\<rparr>)))"
    and bind: "run_state (sys (Bind fd p)) k = (r, k') \<Longrightarrow>
      (r = -1 \<and> socks k' = socks k) \<or>
      (r = 0 \<and> (\<exists>s. socks k fd = Some s \<and> socks k' = (socks k)(fd \<mapsto> s\<lparr>lport := Some p\<rparr>)))"
    and listen: "run_state (sys (Listen fd n)) k = (r, k') \<Longrightarrow>
      (r = -1 \<and> socks k' = socks k) \<or>
      (r = 0 \<and> (\<exists>s. socks k fd = Some s \<and> socks k' = (socks k)(fd \<mapsto> s\<lparr>backlog := Some n\<rparr>)))"
    and connect: "run_state (sys (Connect fd p)) k = (r, k') \<Longrightarrow>
      (r = -1 \<and> socks k' = socks k) \<or>
      (r = 0 \<and> (\<exists>s. socks k fd = Some s \<and> socks k' = (socks k)(fd \<mapsto> s\<lparr>peer := Some p\<rparr>)))"
    and accept: "run_state (sys (Accept fd)) k = (r, k') \<Longrightarrow>
      (r = -1 \<and> socks k' = socks k) \<or>
      (0 \<le> r \<and> socks k r = None \<and> (\<exists>s. socks k fd = Some s \<and> backlog s \<noteq> None) \<and>
        (\<exists>s. socks k' = (socks k)(r \<mapsto> s)))"
begin

lemmas calls = socket setsockopt bind listen

lemma listening_outcomes:
  assumes "run_state (listening_socket n sys port) k = (r, k')"
  shows "(0 < r \<and> socks k r = None \<and> socks k' = (socks k)(r \<mapsto>
      \<lparr>opts = {SO_REUSEPORT}, lport = Some (htons port), backlog = Some n, peer = None\<rparr>)) \<or>
    (r = -1 \<and> leaves_one (socks k) (socks k'))"
  using assms unfolding listening_socket_def
  by (auto simp: new_sock_def split: prod.splits if_splits dest!: calls dest: descriptor)

lemma connect_from_outcomes:
  assumes "run_state (connect_from sys fd port) k = (r, k')" "socks k fd = Some s" "0 \<le> fd"
  shows "(r = fd \<and> socks k' = (socks k)(fd \<mapsto> s\<lparr>peer := Some (htons port)\<rparr>)) \<or>
    (r = -1 \<and> socks k' = socks k)"
  using assms unfolding connect_from_def
  by (auto split: prod.splits if_splits dest!: connect)

lemma connect_new_outcomes:
  assumes "run_state (connect_from sys fd port) k1 = (r, k')" "0 \<le> fd" "socks k fd = None"
    and "socks k1 = (socks k)(fd \<mapsto> s)"
  shows "(0 \<le> r \<and> socks k r = None \<and> socks k' = (socks k)(r \<mapsto> s\<lparr>peer := Some (htons port)\<rparr>)) \<or>
    (r = -1 \<and> leaves_one (socks k) (socks k'))"
proof -
  have "socks k1 fd = Some s" using assms(4) by simp
  from connect_from_outcomes [OF assms(1) this assms(2)] show ?thesis
    using assms(2-4) by auto
qed

lemma t0_connect_outcomes:
  assumes "run_state (t0_connect_socket sys h port) k = (r, k')"
  shows "(0 \<le> r \<and> socks k r = None \<and> socks k' = (socks k)(r \<mapsto>
      \<lparr>opts = {}, lport = None, backlog = None, peer = Some (htons port)\<rparr>)) \<or>
    (r = -1 \<and> leaves_one (socks k) (socks k'))"
proof -
  obtain fd k1 where 1: "run_state (sys Socket) k = (fd, k1)" by fastforce
  show ?thesis
  proof (cases "fd < 0")
    case True
    with 1 assms socket [OF 1] show ?thesis by (auto simp: t0_connect_socket_def)
  next
    case False
    with 1 assms socket [OF 1] connect_new_outcomes [of fd port k1 r k' k new_sock] show ?thesis
      by (simp add: t0_connect_socket_def new_sock_def)
  qed
qed

lemma connect_outcomes:
  assumes "run_state (connect_socket sys h port) k = (r, k')"
  shows "(0 \<le> r \<and> socks k r = None \<and> socks k' = (socks k)(r \<mapsto>
      \<lparr>opts = {SO_REUSEPORT}, lport = None, backlog = None, peer = Some (htons port)\<rparr>)) \<or>
    (r = -1 \<and> leaves_one (socks k) (socks k'))"
proof -
  obtain fd k1 where 1: "run_state (sys Socket) k = (fd, k1)" by fastforce
  obtain e k2 where 2: "run_state (sys (Setsockopt fd SO_REUSEPORT)) k1 = (e, k2)" by fastforce
  show ?thesis
  proof (cases "fd < 0 \<or> e \<noteq> 0")
    case True
    with 1 2 assms socket [OF 1] setsockopt [OF 2] show ?thesis
      by (auto simp: connect_socket_def split: if_splits)
  next
    case False
    with 1 2 assms have run: "run_state (connect_from sys fd port) k2 = (r, k')"
      by (simp add: connect_socket_def)
    have "0 \<le> fd" "socks k fd = None"
      "socks k2 = (socks k)(fd \<mapsto> new_sock\<lparr>opts := {SO_REUSEPORT}\<rparr>)"
      using False socket [OF 1] setsockopt [OF 2] by (auto simp: new_sock_def)
    from connect_new_outcomes [OF run this] show ?thesis by (simp add: new_sock_def)
  qed
qed

lemma accept_outcomes:
  assumes "run_state (accept_connection sys fd) k = (r, k')"
  shows "(0 \<le> r \<and> socks k r = None \<and> (\<exists>s. socks k fd = Some s \<and> backlog s \<noteq> None)
      \<and> (\<exists>s. socks k' = (socks k)(r \<mapsto> s))) \<or> (r = -1 \<and> socks k' = socks k)"
  using assms unfolding accept_connection_def
  by (auto split: prod.splits if_splits dest!: accept)

end

subsection \<open>A kernel\<close>

text \<open>\<open>limit\<close> is the number of descriptors the process may have and \<open>others\<close> the descriptors of
  other files; \<open>held\<close> are the ports bound by other processes, with \<open>True\<close> when they allow
  sharing; \<open>remote\<close> the ports somebody listens on; \<open>waiting\<close> the connections not accepted yet;
  \<open>refusals\<close> says which of the next calls are refused for a reason of their own. An \<open>accept\<close>
  that would wait for ever is interrupted.\<close>

record kern =
  table :: "int \<rightharpoonup> sock"
  others :: "int list"
  limit :: nat
  held :: "(u16 \<times> bool) list"
  remote :: "u16 list"
  waiting :: "(int \<times> u16) list"
  refusals :: "bool list"

text \<open>No negative number is a descriptor.\<close>

definition descriptors :: "(int \<rightharpoonup> sock) \<Rightarrow> int \<rightharpoonup> sock" where
  "descriptors t fd = (if fd < 0 then None else t fd)"

abbreviation sock_at :: "kern \<Rightarrow> int \<rightharpoonup> sock" where
  "sock_at k \<equiv> descriptors (table k)"

definition free_fds :: "kern \<Rightarrow> int list" where
  "free_fds k = filter (\<lambda>i. sock_at k i = None \<and> i \<notin> set (others k)) (map int [0..<limit k])"

text \<open>A port can be bound by two sockets when both have \<open>SO_REUSEPORT\<close>.\<close>

definition may_bind :: "sock \<Rightarrow> u16 \<Rightarrow> kern \<Rightarrow> bool" where
  "may_bind s p k \<longleftrightarrow> lport s = None \<and>
     list_all (\<lambda>(q, share). q = p \<and> p \<noteq> 0 \<longrightarrow> share \<and> SO_REUSEPORT \<in> opts s) (held k) \<and>
     list_all (\<lambda>i. case sock_at k (int i) of
         None \<Rightarrow> True
       | Some s' \<Rightarrow> lport s' = Some p \<and> p \<noteq> 0 \<longrightarrow> SO_REUSEPORT \<in> opts s' \<and> SO_REUSEPORT \<in> opts s)
       [0..<limit k]"

fun kernel_do :: "syscall \<Rightarrow> kern \<Rightarrow> int \<times> kern" where
  "kernel_do Socket k =
     (case free_fds k of
        [] \<Rightarrow> (-1, k)
      | fd # _ \<Rightarrow> (fd, k\<lparr>table := (table k)(fd \<mapsto> new_sock)\<rparr>))"
| "kernel_do (Setsockopt fd opt) k =
     (case sock_at k fd of
        None \<Rightarrow> (-1, k)
      | Some s \<Rightarrow> (0, k\<lparr>table := (table k)(fd \<mapsto> s\<lparr>opts := insert opt (opts s)\<rparr>)\<rparr>))"
| "kernel_do (Bind fd p) k =
     (case sock_at k fd of
        None \<Rightarrow> (-1, k)
      | Some s \<Rightarrow>
          (if may_bind s p k then (0, k\<lparr>table := (table k)(fd \<mapsto> s\<lparr>lport := Some p\<rparr>)\<rparr>) else (-1, k)))"
| "kernel_do (Listen fd n) k =
     (case sock_at k fd of
        None \<Rightarrow> (-1, k)
      | Some s \<Rightarrow> (0, k\<lparr>table := (table k)(fd \<mapsto> s\<lparr>backlog := Some n\<rparr>)\<rparr>))"
| "kernel_do (Connect fd p) k =
     (case sock_at k fd of
        None \<Rightarrow> (-1, k)
      | Some s \<Rightarrow>
          (if p \<in> set (remote k) then (0, k\<lparr>table := (table k)(fd \<mapsto> s\<lparr>peer := Some p\<rparr>)\<rparr>)
           else (-1, k)))"
| "kernel_do (Accept fd) k =
     (case sock_at k fd of
        None \<Rightarrow> (-1, k)
      | Some s \<Rightarrow>
          (case (List.find (\<lambda>w. fst w = fd) (waiting k), free_fds k) of
             (Some w, new # _) \<Rightarrow>
               (if backlog s = None then (-1, k)
                else (new, k\<lparr>table := (table k)(new \<mapsto> new_sock\<lparr>peer := Some (snd w)\<rparr>),
                              waiting := remove1 w (waiting k)\<rparr>))
           | _ \<Rightarrow> (-1, k)))"

definition kernel :: "kern sys" where
  "kernel c = State (\<lambda>k.
     case refusals k of
       True # bs \<Rightarrow> (-1, k\<lparr>refusals := bs\<rparr>)
     | False # bs \<Rightarrow> kernel_do c (k\<lparr>refusals := bs\<rparr>)
     | [] \<Rightarrow> kernel_do c k)"

lemma free_fdsD:
  assumes "free_fds k = fd # fds"
  shows "sock_at k fd = None \<and> 0 \<le> fd"
proof -
  have "fd \<in> set (free_fds k)" using assms by simp
  then show ?thesis by (auto simp: free_fds_def)
qed

lemma descriptors_upd [simp]: "0 \<le> fd \<Longrightarrow> descriptors (t(fd \<mapsto> s)) = (descriptors t)(fd \<mapsto> s)"
  by (auto simp: descriptors_def fun_eq_iff)

lemma descriptors_nonneg: "descriptors t fd = Some s \<Longrightarrow> 0 \<le> fd"
  by (simp add: descriptors_def split: if_splits)

lemma descriptors_new:
  "free_fds k = fd # fds \<Longrightarrow> descriptors ((table k)(fd \<mapsto> s)) = (sock_at k)(fd \<mapsto> s)"
  by (drule free_fdsD) simp

lemma free_fds_refusals [simp]: "free_fds (k\<lparr>refusals := bs\<rparr>) = free_fds k"
  by (simp add: free_fds_def)

interpretation kernel_api: socket_api kernel sock_at
proof unfold_locales
qed (auto simp: kernel_def descriptors_new split: list.splits bool.splits option.splits if_splits prod.splits
    dest: free_fdsD descriptors_nonneg)

subsection \<open>What the functions do\<close>

text \<open>When a function succeeds it has added exactly one socket to the process, with the
  port taken modulo \<open>2 ^ 16\<close>: a listening one that is not descriptor 0, a connected one to
  the local host whatever the host name, or an accepted one on a listening socket. When it
  fails, for whatever refusal of the kernel, it returns -1 and has left at most one new
  descriptor behind, which is never closed.\<close>

theorem sockets_opened:
  "(case run_state (listening_socket n kernel port) k of (r, k') \<Rightarrow>
      (0 < r \<and> sock_at k r = None \<and> sock_at k' = (sock_at k)(r \<mapsto>
        \<lparr>opts = {SO_REUSEPORT}, lport = Some (htons port), backlog = Some n, peer = None\<rparr>)) \<or>
      (r = -1 \<and> leaves_one (sock_at k) (sock_at k'))) \<and>
   (case run_state (connect_socket kernel host port) k of (r, k') \<Rightarrow>
      (0 \<le> r \<and> sock_at k r = None \<and> sock_at k' = (sock_at k)(r \<mapsto>
        \<lparr>opts = {SO_REUSEPORT}, lport = None, backlog = None, peer = Some (htons port)\<rparr>)) \<or>
      (r = -1 \<and> leaves_one (sock_at k) (sock_at k'))) \<and>
   (case run_state (t0_connect_socket kernel host port) k of (r, k') \<Rightarrow>
      (0 \<le> r \<and> sock_at k r = None \<and> sock_at k' = (sock_at k)(r \<mapsto>
        \<lparr>opts = {}, lport = None, backlog = None, peer = Some (htons port)\<rparr>)) \<or>
      (r = -1 \<and> leaves_one (sock_at k) (sock_at k'))) \<and>
   (case run_state (accept_connection kernel fd) k of (r, k') \<Rightarrow>
      (0 \<le> r \<and> sock_at k r = None \<and> (\<exists>s. sock_at k fd = Some s \<and> backlog s \<noteq> None) \<and>
        (\<exists>s. sock_at k' = (sock_at k)(r \<mapsto> s))) \<or>
      (r = -1 \<and> sock_at k' = sock_at k))"
  by (intro conjI; split prod.split; intro allI impI)
     (rule kernel_api.listening_outcomes kernel_api.connect_outcomes
        kernel_api.t0_connect_outcomes kernel_api.accept_outcomes; assumption)+

lemma kernel_calm:
  "refusals k = [] \<Longrightarrow> run_state (kernel c) k = kernel_do c k"
  by (simp add: kernel_def)

definition port_conflict :: "u16 \<Rightarrow> kern \<Rightarrow> bool" where
  "port_conflict p k \<longleftrightarrow> p \<noteq> 0 \<and>
     ((p, False) \<in> set (held k) \<or>
      (\<exists>i < limit k. \<exists>s. sock_at k (int i) = Some s \<and> lport s = Some p \<and> SO_REUSEPORT \<notin> opts s))"

lemma may_bind_iff:
  "may_bind s p k \<longleftrightarrow> lport s = None \<and>
     (\<forall>(q, share)\<in>set (held k). q = p \<and> p \<noteq> 0 \<longrightarrow> share \<and> SO_REUSEPORT \<in> opts s) \<and>
     (\<forall>i<limit k. \<forall>s'. sock_at k (int i) = Some s' \<longrightarrow> lport s' = Some p \<and> p \<noteq> 0 \<longrightarrow>
        SO_REUSEPORT \<in> opts s' \<and> SO_REUSEPORT \<in> opts s)"
  unfolding may_bind_def list_all_iff
  by (intro conj_cong refl ball_cong; force split: option.split)

lemma may_bind_reuse:
  assumes "sock_at k fd = None" "0 \<le> fd" "SO_REUSEPORT \<in> opts s" "lport s = None"
  shows "may_bind s p (k\<lparr>table := (table k)(fd \<mapsto> s)\<rparr>) \<longleftrightarrow> \<not> port_conflict p k"
proof -
  let ?t = "sock_at k"
  have held: "(\<forall>(q, share)\<in>set (held k). q = p \<and> p \<noteq> 0 \<longrightarrow> share \<and> SO_REUSEPORT \<in> opts s) \<longleftrightarrow>
      \<not> (p \<noteq> 0 \<and> (p, False) \<in> set (held k))"
    using assms(3) by auto (metis (full_types))
  have upd: "descriptors ((table k)(fd \<mapsto> s)) = ?t(fd \<mapsto> s)" using assms(2) by simp
  have point: "(\<forall>s'. (?t(fd \<mapsto> s)) x = Some s' \<longrightarrow> lport s' = Some p \<and> p \<noteq> 0 \<longrightarrow>
        SO_REUSEPORT \<in> opts s' \<and> SO_REUSEPORT \<in> opts s) \<longleftrightarrow>
      (\<forall>s'. ?t x = Some s' \<longrightarrow> lport s' = Some p \<and> p \<noteq> 0 \<longrightarrow> SO_REUSEPORT \<in> opts s')" for x
    using assms(1,3,4) by (cases "x = fd") auto
  with held show ?thesis
    unfolding may_bind_iff port_conflict_def by (simp add: upd assms(4) point del: fun_upd_apply) blast
qed

text \<open>A taken port is not noticed. The union of the two socket options is \<open>SO_REUSEPORT\<close>
  alone, and so \<open>listening_socket\<close> succeeds although other sockets listen on the same port, as
  long as all of them were opened this way: a second server on the port starts up and shares
  the connections with the first. It fails when some holder of the port does not share it, and
  also when the first free descriptor is 0.\<close>

theorem port_shared:
  assumes "refusals k = []" "free_fds k = fd # fds"
  shows "fst (run_state (listening_socket n kernel port) k) =
    (if fd = 0 \<or> port_conflict (htons port) k then -1 else fd)"
proof -
  have fd: "sock_at k fd = None" "0 \<le> fd" using free_fdsD [OF assms(2)] by auto
  show ?thesis
    using assms fd may_bind_reuse [OF fd, of "new_sock\<lparr>opts := {SO_REUSEPORT}\<rparr>" "htons port"]
    by (simp add: listening_socket_def kernel_calm new_sock_def split: option.split)
qed

definition small_kern :: kern where
  "small_kern = \<lparr>table = Map.empty, others = [0, 1, 2], limit = 8, held = [(1025, True)],
     remote = [], waiting = [], refusals = []\<rparr>"

lemma small_kern_free: "free_fds small_kern = [3, 4, 5, 6, 7]"
  by (simp add: free_fds_def small_kern_def descriptors_def upt_rec)

theorem port_shared_witness:
  "fst (run_state (listening_socket 10 kernel 1025) small_kern) = 3"
  using port_shared [of small_kern 3 "[4, 5, 6, 7]" 10 1025] small_kern_free
  by (simp add: port_conflict_def small_kern_def descriptors_def)

lemma failed_connect:
  assumes "refusals k = []" "htons port \<notin> set (remote k)" "free_fds k = fd # fds"
    and "run_state (connect_socket kernel host port) k = (r, k')"
  shows "r = -1" "refusals k' = []" "remote k' = remote k" "free_fds k' = fds"
proof -
  have fd: "sock_at k fd = None" "0 \<le> fd" using free_fdsD [OF assms(3)] by auto
  have k': "r = -1 \<and> k' = k\<lparr>table := (table k)(fd \<mapsto> new_sock\<lparr>opts := {SO_REUSEPORT}\<rparr>)\<rparr>"
    using assms fd
    by (simp add: connect_socket_def connect_from_def kernel_calm new_sock_def split: option.splits)
  then show "r = -1" "refusals k' = []" "remote k' = remote k" using assms(1) by simp_all
  have "free_fds k' = filter (\<lambda>i. i \<noteq> fd) (free_fds k)"
    using k' fd(2) by (auto simp: free_fds_def intro: filter_cong)
  moreover have "distinct (free_fds k)" by (simp add: free_fds_def distinct_map)
  ultimately show "free_fds k' = fds" using assms(3) by (auto intro: filter_True)
qed

text \<open>The state after \<open>n\<close> attempts.\<close>

fun attempts :: "'k sys \<Rightarrow> string \<Rightarrow> int \<Rightarrow> nat \<Rightarrow> 'k \<Rightarrow> 'k" where
  "attempts sys host port 0 k = k"
| "attempts sys host port (Suc n) k =
     attempts sys host port n (snd (run_state (connect_socket sys host port) k))"

text \<open>Every failed attempt to connect costs a descriptor. With nobody listening on the
  port, \<open>n\<close> attempts use up the first \<open>n\<close> free descriptors, and when none is left no
  \<open>connect_socket\<close>, \<open>listening_socket\<close> or \<open>accept_connection\<close> succeeds any more, whatever the port.\<close>

theorem attempts_leak:
  assumes "refusals k = []" "htons port \<notin> set (remote k)" "n \<le> length (free_fds k)"
  shows "free_fds (attempts kernel host port n k) = drop n (free_fds k) \<and>
    (n = length (free_fds k) \<longrightarrow>
      fst (run_state (connect_socket kernel h p) (attempts kernel host port n k)) = -1 \<and>
      fst (run_state (listening_socket q kernel p) (attempts kernel host port n k)) = -1 \<and>
      fst (run_state (accept_connection kernel s) (attempts kernel host port n k)) = -1)"
proof -
  let ?k = "attempts kernel host port n k"
  have inv: "refusals ?k = [] \<and> free_fds ?k = drop n (free_fds k)"
    using assms
  proof (induction n arbitrary: k)
    case (Suc n)
    then obtain fd fds where fds: "free_fds k = fd # fds" by (cases "free_fds k") auto
    obtain r k1 where k1: "run_state (connect_socket kernel host port) k = (r, k1)" by fastforce
    from failed_connect [OF Suc.prems(1,2) fds k1] Suc.IH [of k1] Suc.prems fds k1 show ?case by simp
  qed simp
  then show ?thesis
    by (auto simp: connect_socket_def listening_socket_def accept_connection_def kernel_calm
        descriptors_def split: option.split list.split)
qed

theorem attempts_leak_witness:
  "free_fds (attempts kernel ''localhost'' 1026 5 small_kern) = [] \<and>
   fst (run_state (connect_socket kernel ''localhost'' 1025) (attempts kernel ''localhost'' 1026 5 small_kern)) = -1"
  using attempts_leak [of small_kern 1026 5 "''localhost''" "''localhost''" 1025] small_kern_free
  by (simp add: small_kern_def)

end
