(* ===== verification/TraceWorkload.thy ===== *)
theory TraceWorkload
  imports Prelude
begin

section \<open>Task 1: the workload traces\<close>

text \<open>
  \<open>workload_traces/generate_traces.h\<close> and \<open>.cpp\<close> of \<open>task1/source\<close> (the same files are in
  \<open>task2/source\<close>): trace files are split into commands, or commands are made up. \<open>rnd i\<close> is
  what the \<open>i\<close>-th call of \<open>rand()\<close> returns, \<open>junk i\<close> the value of the uninitialised variable
  \<open>result\<close> when the \<open>i\<close>-th token is parsed.
\<close>

subsection \<open>Commands\<close>

datatype trace_op =
  put | get | txn_start | txn_put | txn_get | txn_get_and_execute | txn_commit | txn_rollback

record kv_pair =
  key_hash :: u32
  pair_value :: string
  pair_op :: trace_op

type_synonym trace_cmd = "kv_pair list"

definition default_read_permille :: int where
  "default_read_permille = 500"

text \<open>\<open>TraceCmd::init\<close>; \<open>r\<close> is what \<open>rand()\<close> returned.\<close>

definition trace_cmd_init :: "u32 \<Rightarrow> nat \<Rightarrow> int \<Rightarrow> trace_cmd" where
  "trace_cmd_init key_id r read_permille =
     (let op = (if int (r mod 1000) < read_permille then get else put)
      in [\<lparr>key_hash = key_id, pair_value = ''1'', pair_op = op\<rparr>])"

text \<open>\<open>std::from_chars\<close> for \<open>uint32_t\<close>: the longest run of digits; without one, or when the number
  does not fit, the variable keeps its value.\<close>

definition from_chars_u32 :: "string \<Rightarrow> u32 \<Rightarrow> u32" where
  "from_chars_u32 s result =
     (let ds = takeWhile is_digit s
      in if ds = [] \<or> digits_val 0 ds \<ge> 2 ^ 32 then result else word_of_nat (digits_val 0 ds))"

definition trace_cmd_of :: "u32 \<Rightarrow> string \<Rightarrow> nat \<Rightarrow> int \<Rightarrow> trace_cmd" where
  "trace_cmd_of result s r read_permille = trace_cmd_init (from_chars_u32 s result) r read_permille"

subsection \<open>Splitting a file\<close>

text \<open>The pointers of \<open>split\<close> are suffixes of the text: \<open>first\<close> is where the next word starts,
  \<open>second\<close> the delimiter after it, and the loop ends when \<open>second\<close> is the end.\<close>

abbreviation find_first_of :: "(char \<Rightarrow> bool) \<Rightarrow> string \<Rightarrow> string" where
  "find_first_of delim first \<equiv> dropWhile (\<lambda>c. \<not> delim c) first"

abbreviation word_at :: "(char \<Rightarrow> bool) \<Rightarrow> string \<Rightarrow> string" where
  "word_at delim first \<equiv> takeWhile (\<lambda>c. \<not> delim c) first"

lemma dropWhile_shorter: "dropWhile P xs = y # ys \<Longrightarrow> length ys < length xs"
  by (induction xs) (auto split: if_splits)

function split_words :: "(char \<Rightarrow> bool) \<Rightarrow> string \<Rightarrow> string list" where
  "split_words delim first =
     (let second = find_first_of delim first;
          more = (case second of [] \<Rightarrow> [] | _ # first' \<Rightarrow> split_words delim first')
      in if word_at delim first = [] then more else word_at delim first # more)"
  by pat_completeness auto
termination
  by (relation "measure (\<lambda>(_, first). length first)") (auto dest!: sym [THEN dropWhile_shorter])

declare split_words.simps [simp del]

text \<open>The branch for transactions: up to \<open>ops_per_tx\<close> words make one command.\<close>

fun tx_ops :: "(char \<Rightarrow> bool) \<Rightarrow> nat \<Rightarrow> string \<Rightarrow> string \<Rightarrow> string list \<times> string" where
  "tx_ops delim 0 first second = ([], second)"
| "tx_ops delim (Suc n) first second =
     (let second = find_first_of delim first
      in if second = [] then ([], second)
         else if word_at delim first = [] then tx_ops delim n first second
         else (let first' = tl second
               in if first' = [] then ([word_at delim first], second)
                  else (case tx_ops delim n first' second of
                      (ws, second') \<Rightarrow> (word_at delim first # ws, second'))))"

lemma tx_ops_shorter:
  "length (snd (tx_ops delim n first second)) \<le> (if n = 0 then length second else length first)"
proof (induction n arbitrary: first second)
  case (Suc n)
  let ?s = "find_first_of delim first"
  have l: "length ?s \<le> length first" by (simp add: length_dropWhile_le)
  show ?case
    using Suc.IH [of first ?s] Suc.IH [of "tl ?s" ?s] l
    by (auto simp: Let_def split: prod.split if_splits)
qed simp

lemma tx_ops_next:
  "tx_ops delim n first second = (ws, c # s) \<Longrightarrow> n \<noteq> 0 \<Longrightarrow> length s < length first"
  using tx_ops_shorter [of delim n first second] by simp

definition marker :: "trace_op \<Rightarrow> kv_pair" where
  "marker op = \<lparr>key_hash = - 1, pair_value = ''invalid'', pair_op = op\<rparr>"

definition tx_cmd :: "u32 \<Rightarrow> string list \<Rightarrow> trace_cmd" where
  "tx_cmd result ws =
     marker txn_start #
     map (\<lambda>w. \<lparr>key_hash = from_chars_u32 w result, pair_value = ''1'', pair_op = txn_put\<rparr>) ws @
     [marker txn_commit]"

text \<open>\<open>None\<close>: with no operation per transaction the loop never gets on.\<close>

function split_txs :: "u32 \<Rightarrow> (char \<Rightarrow> bool) \<Rightarrow> nat \<Rightarrow> string \<Rightarrow> string \<Rightarrow> trace_cmd list option" where
  "split_txs result delim ops_per_tx first second =
     (if second = [] then Some []
      else if ops_per_tx = 0 then None
      else (case tx_ops delim ops_per_tx first second of
          (ws, second') \<Rightarrow>
            (let cmds = (if ws = [] then [] else [tx_cmd result ws])
             in case second' of
                  [] \<Rightarrow> Some cmds
                | _ # first' \<Rightarrow> map_option (\<lambda>more. cmds @ more)
                    (split_txs result delim ops_per_tx first' second'))))"
  by pat_completeness auto
termination
  by (relation "measure (\<lambda>(_, _, _, first, _). length first)")
     (auto dest!: sym [of "(_, _)"] dest: tx_ops_next)

declare split_txs.simps [simp del]

definition split :: "(nat \<Rightarrow> u32) \<Rightarrow> (nat \<Rightarrow> nat) \<Rightarrow> string \<Rightarrow> (char \<Rightarrow> bool) \<Rightarrow> bool \<Rightarrow> nat
     \<Rightarrow> trace_cmd list option" where
  "split junk rnd str delim is_tx ops_per_tx =
     (if is_tx then split_txs (junk 0) delim ops_per_tx str str
      else Some (if str = [] then []
        else map (\<lambda>(i, w). trace_cmd_of (junk i) w (rnd i) default_read_permille)
          (enumerate 0 (split_words delim str))))"

text \<open>\<open>parse_trace\<close>: \<open>None\<close> is a file that cannot be opened; an empty file cannot be mapped. Both
  \<open>trace_init\<close> functions that take a path end here; \<open>read_permille\<close> is not used.\<close>

definition parse_trace :: "(nat \<Rightarrow> u32) \<Rightarrow> (nat \<Rightarrow> nat) \<Rightarrow> string option \<Rightarrow> int
     \<Rightarrow> trace_cmd list option" where
  "parse_trace junk rnd file read_permille =
     (case file of
        None \<Rightarrow> Some []
      | Some content \<Rightarrow>
          (if content = [] then Some []
           else split junk rnd content (\<lambda>c. c = CHR 0x0A) False 2))"

definition trace_init :: "(nat \<Rightarrow> u32) \<Rightarrow> (nat \<Rightarrow> nat) \<Rightarrow> string option \<Rightarrow> int
     \<Rightarrow> trace_cmd list option" where
  "trace_init junk rnd file read_permile = parse_trace junk rnd file read_permile"

subsection \<open>Made-up traces\<close>

definition manufacture_trace :: "(nat \<Rightarrow> nat) \<Rightarrow> nat \<Rightarrow> nat \<Rightarrow> int \<Rightarrow> trace_cmd list res" where
  "manufacture_trace rnd trace_size nb_keys read_permille =
     (if trace_size \<noteq> 0 \<and> nb_keys = 0 then Inl Div_By_Zero
      else Inr (map (\<lambda>i. trace_cmd_init (word_of_nat (rnd (2 * i) mod nb_keys)) (rnd (2 * i + 1))
                       read_permille) [0..<trace_size]))"

subsection \<open>What a trace file gives\<close>

lemma split_words_line:
  assumes "\<forall>c\<in>set w. \<not> delim c" "delim d"
  shows "split_words delim (w @ d # s) = (if w = [] then split_words delim s else w # split_words delim s)"
proof -
  have "word_at delim (w @ d # s) = w" "find_first_of delim (w @ d # s) = d # s"
    using assms by (induction w) auto
  then show ?thesis by (subst split_words.simps) (simp add: Let_def)
qed

lemma split_words_Nil [simp]: "split_words delim [] = []"
  by (subst split_words.simps) simp

lemma split_words_blank: "delim d \<Longrightarrow> split_words delim (replicate b d @ s) = split_words delim s"
  by (induction b) (use split_words_line [of "[]" delim d] in auto)

abbreviation newline :: char where "newline \<equiv> CHR 0x0A"

text \<open>A file: every number on a line of its own, after any number of empty lines.\<close>

definition trace_file :: "(nat \<times> nat) list \<Rightarrow> string" where
  "trace_file ls = concat (map (\<lambda>(blanks, k). replicate blanks newline @ nat_str k @ [newline]) ls)"

lemma newline_notin: "newline \<notin> set (nat_str k)"
  using nat_str_digits [of k] by (auto simp: list_all_iff is_digit_def)

lemma split_trace_file: "split_words (\<lambda>c. c = newline) (trace_file ls) = map (\<lambda>(_, k). nat_str k) ls"
proof (induction ls)
  case (Cons l ls)
  obtain b k where l: "l = (b, k)" by (cases l)
  have "split_words (\<lambda>c. c = newline) (nat_str k @ newline # trace_file ls) =
      nat_str k # split_words (\<lambda>c. c = newline) (trace_file ls)"
    using newline_notin [of k] by (subst split_words_line) auto
  with Cons show ?case by (simp add: l trace_file_def split_words_blank)
qed (simp add: trace_file_def)

lemma from_chars_nat_str:
  assumes "k < 2 ^ 32"
  shows "from_chars_u32 (nat_str k) j = word_of_nat k"
proof -
  have tw: "takeWhile is_digit (nat_str m) = nat_str m" for m
    using nat_str_digits [of m] by (simp only: list_all_iff takeWhile_eq_all_conv)
  from assms show ?thesis by (simp add: from_chars_u32_def tw digits_val_nat_str)
qed

text \<open>A trace file with one number below \<open>2 ^ 32\<close> on a line, between any empty lines, gives one
  command for every number, in order and under that key. Whether a command reads or writes is
  decided by \<open>rand()\<close> with even odds: the share of reads that the caller asks for has no
  effect.\<close>

theorem trace_file_commands:
  assumes "\<forall>(blanks, k)\<in>set ls. k < 2 ^ 32"
  shows "trace_init junk rnd (Some (trace_file ls)) read_permile =
    Some (map (\<lambda>(i, _, k).
        [\<lparr>key_hash = word_of_nat k, pair_value = ''1'',
          pair_op = if rnd i mod 1000 < 500 then get else put\<rparr>]) (enumerate 0 ls))"
proof (cases "ls = []")
  case True
  then show ?thesis by (simp add: trace_init_def parse_trace_def trace_file_def)
next
  case False
  then have ne: "trace_file ls \<noteq> []" by (cases ls) (auto simp: trace_file_def)
  have "map (\<lambda>(i, w). trace_cmd_of (junk i) w (rnd i) default_read_permille)
      (enumerate n (map (\<lambda>(_, k). nat_str k) ls)) =
    map (\<lambda>(i, _, k). [\<lparr>key_hash = word_of_nat k, pair_value = ''1'',
          pair_op = if rnd i mod 1000 < 500 then get else put\<rparr>]) (enumerate n ls)" for n
    using assms
    by (induction ls arbitrary: n)
       (auto simp: trace_cmd_of_def trace_cmd_init_def from_chars_nat_str default_read_permille_def)
  with ne show ?thesis
    by (simp add: trace_init_def parse_trace_def split_def split_trace_file)
qed

theorem trace_file_commands_witness:
  "trace_init (\<lambda>i. 0) (\<lambda>i. 600 * i) (Some (trace_file [(0, 12), (2, 7)])) 200 =
    Some [[\<lparr>key_hash = 12, pair_value = ''1'', pair_op = get\<rparr>],
          [\<lparr>key_hash = 7, pair_value = ''1'', pair_op = put\<rparr>]]"
  using trace_file_commands [of "[(0, 12), (2, 7)]" "\<lambda>i. 0" "\<lambda>i. 600 * i" 200] by simp

end
