(* ===== verification/Task1Client.thy ===== *)
theory Task1Client
  imports Framing KvStoreTx TraceWorkload Sockets Task1Server
begin

section \<open>Task 1: the client\<close>

text \<open>
  The load generator of task 1: \<open>client_thread.h\<close>, which owns the two connections of a client
  thread, and \<open>client.cpp\<close>, which turns a trace into requests, mirrors the writes in a local
  store and at the end compares what the server returns with it. The methods of one thread
  are modelled one after the other; the threads share the object \<open>ClientOP\<close>.
\<close>

subsection \<open>The connections of a thread\<close>

record client_thread =
  replies :: i32
  sockfd :: int
  rep_fd :: int
  thread_id :: int

definition new_client_thread :: "int \<Rightarrow> client_thread" where
  "new_client_thread tid = \<lparr>replies = 0, sockfd = -4, rep_fd = -1, thread_id = tid\<rparr>"

definition client_base_addr :: int where
  "client_base_addr = 30500"

definition new_op :: operation_data where
  "new_op = \<lparr>od_type = None, od_op_id = None, od_txn_id = None, od_key = None, od_value = None,
     od_client_id = None, od_port = None\<rparr>"

definition init_connection_request :: "(operation_data list \<Rightarrow> string) \<Rightarrow> int \<Rightarrow> string" where
  "init_connection_request ser own_port =
     (let msg_str = ser [new_op\<lparr>od_type := Some INIT, od_port := Some (word_of_int own_port)\<rparr>]
      in construct_message msg_str (length msg_str))"

text \<open>\<open>connect_to_the_server\<close>: the connection to the server, the greeting with the port to answer
  to, and only then the listening socket on that port. \<open>send\<close> is \<open>secure_send\<close>, whose result
  is not looked at; a failing \<open>accept4\<close> is only reported.\<close>

definition exit_if :: "bool \<Rightarrow> ('k, 'a res) state \<Rightarrow> ('k, 'a res) state" where
  "exit_if failed m = (if failed then State_Monad.return (Inl (Exit 1)) else m)"

definition max_backlog :: int where
  "max_backlog = 1024"

definition connect_to_the_server ::
  "(operation_data list \<Rightarrow> string) \<Rightarrow> 'k sys \<Rightarrow> (int \<Rightarrow> string \<Rightarrow> ('k, unit) state) \<Rightarrow> int
     \<Rightarrow> client_thread \<Rightarrow> ('k, client_thread res) state" where
  "connect_to_the_server ser sys send svr_port c = do {
     fd \<leftarrow> sys Socket;
     exit_if (fd = -1) (do {
       r \<leftarrow> sys (Connect fd (htons svr_port));
       exit_if (r = -1) (do {
         let own_port = client_base_addr + thread_id c;
         send fd (init_connection_request ser own_port);
         repfd \<leftarrow> sys Socket;
         exit_if (repfd = -1) (do {
           r \<leftarrow> sys (Setsockopt repfd SO_REUSEADDR);
           exit_if (r = -1) (do {
             r \<leftarrow> sys (Bind repfd (htons own_port));
             exit_if (r = -1) (do {
               r \<leftarrow> sys (Listen repfd max_backlog);
               exit_if (r = -1) (do {
                 new_fd \<leftarrow> sys (Accept repfd);
                 State_Monad.return (Inr (c\<lparr>sockfd := fd, rep_fd := new_fd\<rparr>)) }) }) }) }) }) }) }"

text \<open>The traffic of a connected thread: what its \<open>recv\<close> calls return, whether the next calls of
  \<open>secure_send\<close> succeed, and what has been sent.\<close>

record traffic =
  inbox :: "recv_res list"
  sends_ok :: "bool list"
  outbox :: "string list"

definition sent_request :: "string \<Rightarrow> traffic \<Rightarrow> traffic res option" where
  "sent_request request w =
     (case sends_ok w of
        [] \<Rightarrow> None
      | ok # oks \<Rightarrow>
          Some (if ok then Inr (w\<lparr>sends_ok := oks, outbox := outbox w @ [request]\<rparr>)
                else Inl (Exit 1)))"

definition recv_ack :: "client_thread \<Rightarrow> traffic \<Rightarrow> (string \<times> client_thread \<times> traffic) res option" where
  "recv_ack c w =
     (case secure_recv (inbox w) of
        None \<Rightarrow> None
      | Some ((bytecount, buffer), es) \<Rightarrow>
          (case buffer of
             None \<Rightarrow> Some (Inl (Exit 2))
           | Some buf \<Rightarrow>
               (if bytecount = 0 then Some (Inl (Exit 2))
                else Some (Inr (take bytecount buf, c\<lparr>replies := replies c + 1\<rparr>, w\<lparr>inbox := es\<rparr>)))))"

subsection \<open>Requests\<close>

record client_op =
  global_number :: "64 word"
  no_puts :: "64 word"
  local_kv :: kv_state
  rand_calls :: nat
  tx_ids :: i32

definition new_client_op :: client_op where
  "new_client_op = \<lparr>global_number = 0, no_puts = 0, local_kv = kv_init, rand_calls = 0, tx_ids = 0\<rparr>"

definition charset :: string where
  "charset = ''0123456789ABCDEFGHIJKLMNOPQRSTUVWXYZabcdefghijklmnopqrstuvwxyz''"

text \<open>\<open>rnd i\<close> is what the \<open>i\<close>-th call of \<open>rand()\<close> returns.\<close>

definition rand_str :: "(nat \<Rightarrow> nat) \<Rightarrow> nat \<Rightarrow> client_op \<Rightarrow> string \<times> client_op" where
  "rand_str rnd sz s =
     (CHR ''d'' # map (\<lambda>i. charset ! (rnd (rand_calls s + i) mod length charset)) [0..<sz],
      s\<lparr>rand_calls := rand_calls s + sz\<rparr>)"

definition get_operation_put ::
  "(nat \<Rightarrow> nat) \<Rightarrow> kv_pair \<Rightarrow> operation_data \<Rightarrow> client_op \<Rightarrow> operation_data \<times> client_op" where
  "get_operation_put rnd item od s =
     (case rand_str rnd 64 s of (rstring, s') \<Rightarrow>
        (od\<lparr>od_key := Some (key_hash item), od_type := Some PUT, od_value := Some rstring\<rparr>,
         s'\<lparr>global_number := global_number s' + 1, no_puts := no_puts s' + 1,
            local_kv := snd (kv_put (sint (key_hash item)) rstring (local_kv s'))\<rparr>))"

definition get_operation_get :: "kv_pair \<Rightarrow> operation_data \<Rightarrow> client_op \<Rightarrow> operation_data \<times> client_op" where
  "get_operation_get item od s =
     (od\<lparr>od_key := Some (key_hash item), od_type := Some GET\<rparr>,
      s\<lparr>global_number := global_number s - 1\<rparr>)"

text \<open>The iterator over the traces: after the last command it goes to the start of another
  client's share. \<open>% (nb_clients - 1)\<close> divides by zero with one client.\<close>

definition next_command :: "(nat \<Rightarrow> nat) \<Rightarrow> nat \<Rightarrow> trace_cmd list \<Rightarrow> nat \<Rightarrow> client_op \<Rightarrow> (nat \<times> client_op) res" where
  "next_command rnd nb_clients traces it s =
     (if it \<noteq> length traces - 1 then Inr (it + 1, s)
      else if nb_clients = 1 then Inl Div_By_Zero
      else Inr (length traces div nb_clients * (rnd (rand_calls s) mod (nb_clients - 1)),
                s\<lparr>rand_calls := rand_calls s + 1\<rparr>))"

definition framed :: "(operation_data list \<Rightarrow> string) \<Rightarrow> operation_data list \<Rightarrow> string" where
  "framed ser msg =
     (let msg_str = ser msg
      in convert_int_to_byte_array (word_of_nat (length msg_str)) @ msg_str)"

definition key_request :: "(operation_data list \<Rightarrow> string) \<Rightarrow> int \<Rightarrow> string" where
  "key_request ser key = framed ser [new_op\<lparr>od_key := Some (word_of_int key), od_type := Some GET\<rparr>]"

text \<open>\<open>get_operation\<close>: a command that is neither a read nor a write has no function to call.\<close>

definition get_operation ::
  "(operation_data list \<Rightarrow> string) \<Rightarrow> (nat \<Rightarrow> nat) \<Rightarrow> nat \<Rightarrow> trace_cmd list \<Rightarrow> nat \<Rightarrow> client_op
     \<Rightarrow> (string \<times> nat \<times> nat \<times> client_op) res" where
  "get_operation ser rnd nb_clients traces it s =
     (if length traces \<le> it then Inl Out_Of_Range
      else (case traces ! it of
          [] \<Rightarrow> Inl Out_Of_Range
        | item # _ \<Rightarrow>
            (let filled = (case pair_op item of
                   put \<Rightarrow> Inr (get_operation_put rnd item new_op s)
                 | get \<Rightarrow> Inr (get_operation_get item new_op s)
                 | _ \<Rightarrow> Inl Null_Deref)
             in bind_res filled (\<lambda>(od, s').
                bind_res (next_command rnd nb_clients traces it s') (\<lambda>(it', s'').
                Inr (framed ser [od], 1, it', s''))))))"

text \<open>The transactional variant; no call of it is compiled.\<close>

fun get_tx_type :: "trace_op \<Rightarrow> op_kind res" where
  "get_tx_type txn_start = Inr TXN_START"
| "get_tx_type txn_put = Inr TXN_PUT"
| "get_tx_type txn_get = Inr TXN_GET"
| "get_tx_type txn_get_and_execute = Inr TXN_GET_AND_EXECUTE"
| "get_tx_type txn_commit = Inr TXN_COMMIT"
| "get_tx_type txn_rollback = Inr TXN_ABORT"
| "get_tx_type _ = Inl Null_Deref"

fun tx_operations :: "i32 \<Rightarrow> int \<Rightarrow> nat \<Rightarrow> kv_pair list \<Rightarrow> operation_data list res" where
  "tx_operations tx tid op_nb [] = Inr []"
| "tx_operations tx tid op_nb (p # ps) =
     bind_res (get_tx_type (pair_op p)) (\<lambda>t.
       map_sum id ((#) (new_op\<lparr>od_client_id := Some (word_of_int tid), od_txn_id := Some tx,
           od_op_id := Some (word_of_nat op_nb), od_key := Some (key_hash p),
           od_value := Some (pair_value p), od_type := Some t\<rparr>))
         (tx_operations tx tid (Suc op_nb) ps))"

definition get_tx ::
  "(operation_data list \<Rightarrow> string) \<Rightarrow> (nat \<Rightarrow> nat) \<Rightarrow> nat \<Rightarrow> trace_cmd list \<Rightarrow> int \<Rightarrow> nat \<Rightarrow> client_op
     \<Rightarrow> (string \<times> nat \<times> nat \<times> client_op) res" where
  "get_tx ser rnd nb_clients traces tid it s =
     (if length traces \<le> it then Inl Out_Of_Range
      else bind_res (tx_operations (tx_ids s) tid 0 (traces ! it)) (\<lambda>ops.
           bind_res (next_command rnd nb_clients traces it (s\<lparr>tx_ids := tx_ids s + 1\<rparr>)) (\<lambda>(it', s').
           Inr (framed ser ops, length (traces ! it), it', s'))))"

subsection \<open>Verification\<close>

text \<open>\<open>memcmp\<close> of as many bytes as there are in the first argument; the second is the array of a
  \<open>std::string\<close>, which ends with a NUL.\<close>

fun same_bytes :: "string \<Rightarrow> string \<Rightarrow> bool res" where
  "same_bytes [] expected = Inr True"
| "same_bytes (c # cs) [] = Inl Out_Of_Range"
| "same_bytes (c # cs) (e # es) = (if c = e then same_bytes cs es else Inr False)"

definition verify :: "kv_state \<Rightarrow> int \<Rightarrow> string \<Rightarrow> unit res" where
  "verify kv key ret_val =
     (case kv_get key kv of
        None \<Rightarrow> Inl Null_Deref
      | Some expected_val \<Rightarrow>
          bind_res (same_bytes ret_val (expected_val @ [NUL]))
            (\<lambda>same. if same then Inr () else Inl (Exit 1)))"

text \<open>The loop of \<open>verify_all\<close> stops when \<open>get_next_key\<close> returns -1, and also when it returns 0.\<close>

function verify_keys ::
  "(operation_data list \<Rightarrow> string) \<Rightarrow> (string \<Rightarrow> reply_msg) \<Rightarrow> kv_state \<Rightarrow> client_thread \<Rightarrow> traffic
     \<Rightarrow> (kv_state \<times> client_thread \<times> traffic) res option" where
  "verify_keys ser parse kv c w =
     (case get_next_key kv of (key, kv') \<Rightarrow>
             (if key = 0 \<or> key = -1 then Some (Inr (kv', c, w))
              else bind_run (sent_request (key_request ser key) w) (\<lambda>w1.
                   bind_run (recv_ack c w1) (\<lambda>(result, c', w2).
                   bind_run (Some (verify kv' key (default_to [] (rp_value (parse result))))) (\<lambda>_.
                   verify_keys ser parse kv' c' w2)))))"
  by pat_completeness auto
termination
  by (relation "measure (\<lambda>(_, _, kv, _, _). length (iter kv))") (auto simp: get_next_key_def split: list.splits)

declare verify_keys.simps [simp del]

definition verify_all ::
  "(operation_data list \<Rightarrow> string) \<Rightarrow> (string \<Rightarrow> reply_msg) \<Rightarrow> client_op \<Rightarrow> client_thread \<Rightarrow> traffic
     \<Rightarrow> (client_op \<times> client_thread \<times> traffic) res option" where
  "verify_all ser parse s c w =
     bind_run (verify_keys ser parse (init_it (local_kv s)) c w)
       (\<lambda>(kv, c', w'). Some (Inr (s\<lparr>local_kv := kv\<rparr>, c', w')))"

subsection \<open>A client\<close>

fun request_loop ::
  "(operation_data list \<Rightarrow> string) \<Rightarrow> (nat \<Rightarrow> nat) \<Rightarrow> nat \<Rightarrow> trace_cmd list \<Rightarrow> nat
     \<Rightarrow> nat \<Rightarrow> i32 \<Rightarrow> client_op \<Rightarrow> client_thread \<Rightarrow> traffic
     \<Rightarrow> (i32 \<times> client_op \<times> client_thread \<times> traffic) res option" where
  "request_loop ser rnd nb_clients traces 0 it expected s c w = Some (Inr (expected, s, c, w))"
| "request_loop ser rnd nb_clients traces (Suc n) it expected s c w =
     bind_run (Some (get_operation ser rnd nb_clients traces it s)) (\<lambda>(request, num, it', s').
     bind_run (sent_request request w) (\<lambda>w1.
     bind_run (recv_ack c w1) (\<lambda>(_, c', w2).
     request_loop ser rnd nb_clients traces n it' (expected + word_of_nat num) s' c' w2)))"

lemma recv_ack_decreases:
  "recv_ack c w = Some (Inr (m, c', w')) \<Longrightarrow> events_size (inbox w') < events_size (inbox w)"
  using secure_recv_size [of "inbox w"]
  by (auto simp: recv_ack_def split: option.splits if_splits)

function await_replies :: "i32 \<Rightarrow> client_thread \<Rightarrow> traffic \<Rightarrow> (client_thread \<times> traffic) res option" where
  "await_replies expected c w =
     (if replies c = expected then Some (Inr (c, w))
      else bind_run (recv_ack c w) (\<lambda>(_, c', w'). await_replies expected c' w'))"
  by pat_completeness auto
termination
  by (relation "measure (\<lambda>(_, _, w). events_size (inbox w))") (auto dest: recv_ack_decreases)

declare await_replies.simps [simp del]

text \<open>\<open>client\<close>, from the connected thread on.\<close>

definition client ::
  "(operation_data list \<Rightarrow> string) \<Rightarrow> (string \<Rightarrow> reply_msg) \<Rightarrow> (nat \<Rightarrow> nat) \<Rightarrow> nat \<Rightarrow> trace_cmd list
     \<Rightarrow> nat \<Rightarrow> nat \<Rightarrow> client_op \<Rightarrow> client_thread \<Rightarrow> traffic
     \<Rightarrow> (client_op \<times> client_thread \<times> traffic) res option" where
  "client ser parse rnd nb_clients traces nb_messages tid s c w =
     (let step = length traces div nb_clients
      in bind_run (request_loop ser rnd nb_clients traces nb_messages (step * tid) 0 s c w)
           (\<lambda>(expected, s', c', w').
         bind_run (await_replies expected c' w') (\<lambda>(c'', w'').
         verify_all ser parse s' c'' w'')))"

text \<open>\<open>main\<close>: the exit code when nothing is started, else the numbers of the clients. Options are
  the names that were given.\<close>

definition t1_client_main :: "string set \<Rightarrow> trace_cmd list \<Rightarrow> nat \<Rightarrow> nat list res" where
  "t1_client_main given traces c_threads =
     (if ''help'' \<in> given then Inl (Exit 0)
      else if ''c_threads'' \<notin> given then Inl (Exit 1)
      else if ''hostname'' \<notin> given then Inl (Exit 1)
      else if ''port'' \<notin> given then Inl (Exit 1)
      else if ''n_messages'' \<notin> given then Inl (Exit 1)
      else if ''trace'' \<notin> given then Inl (Exit 1)
      else if traces = [] then Inl (Exit 1)
      else Inr [0..<c_threads])"

subsection \<open>What the verification checks\<close>

lemma same_bytes_iff: "same_bytes xs ys = Inr True \<longleftrightarrow> length xs \<le> length ys \<and> xs = take (length xs) ys"
  by (induction xs ys rule: same_bytes.induct) auto

lemma verify_iff:
  "verify kv key ret = Inr () \<longleftrightarrow>
     (\<exists>v. kv_get key kv = Some v \<and> length ret \<le> Suc (length v) \<and> ret = take (length ret) (v @ [NUL]))"
proof (cases "kv_get key kv")
  case (Some v)
  then show ?thesis
    using same_bytes_iff [of ret "v @ [NUL]"]
    by (cases "same_bytes ret (v @ [NUL])") (auto simp: verify_def bind_res_def)
qed (simp add: verify_def)

lemma verify_keys_Nil:
  "iter kv = [] \<Longrightarrow> verify_keys ser parse kv c w = Some (Inr (kv, c, w))"
  by (simp add: verify_keys.simps get_next_key_def)

lemma verify_keys_Cons:
  "iter kv = k # ks \<Longrightarrow> verify_keys ser parse kv c w =
     (if k = 0 \<or> k = -1 then Some (Inr (kv\<lparr>iter := ks\<rparr>, c, w))
      else bind_run (sent_request (key_request ser k) w) (\<lambda>w1.
           bind_run (recv_ack c w1) (\<lambda>(result, c', w2).
           bind_run (Some (verify (kv\<lparr>iter := ks\<rparr>) k (default_to [] (rp_value (parse result))))) (\<lambda>_.
           verify_keys ser parse (kv\<lparr>iter := ks\<rparr>) c' w2))))"
  by (simp add: verify_keys.simps [of ser parse kv c w] get_next_key_def)

lemma verify_keys_outbox:
  "verify_keys ser parse kv c w = Some (Inr (kv', c', w')) \<Longrightarrow>
    outbox w' = outbox w @ map (key_request ser) (takeWhile (\<lambda>k. k \<noteq> 0 \<and> k \<noteq> -1) (iter kv))"
proof (induction "iter kv" arbitrary: kv c w)
  case Nil
  then show ?case by (simp add: verify_keys_Nil)
next
  case (Cons k ks)
  note it = Cons.hyps(2) [symmetric]
  show ?case
  proof (cases "k = 0 \<or> k = -1")
    case True
    with Cons.prems it show ?thesis by (auto simp: verify_keys_Cons)
  next
    case False
    with Cons.prems it obtain w1 m c2 w2 where step: "sent_request (key_request ser k) w = Some (Inr w1)"
      "recv_ack c w1 = Some (Inr (m, c2, w2))"
      "verify_keys ser parse (kv\<lparr>iter := ks\<rparr>) c2 w2 = Some (Inr (kv', c', w'))"
      by (auto simp: verify_keys_Cons)
    have "outbox w1 = outbox w @ [key_request ser k]"
      using step(1) by (auto simp: sent_request_def split: list.splits if_splits)
    moreover have "outbox w2 = outbox w1"
      using step(2) by (auto simp: recv_ack_def split: option.splits if_splits)
    ultimately show ?thesis
      using Cons.hyps(1) [of "kv\<lparr>iter := ks\<rparr>", OF _ step(3)] it False by simp
  qed
qed

text \<open>What a client that prints "verification successful" has checked. It has asked for the
  keys it wrote, in the order of its store, up to the first key 0 or -1 and no further; and a
  reply has passed when its value was the beginning of the stored value (with the NUL behind
  it), the empty value included.\<close>

theorem verification_checks:
  "(case verify_all ser parse s c w of
      Some (Inr (s', c', w')) \<Rightarrow>
        outbox w' = outbox w @ map (key_request ser)
          (takeWhile (\<lambda>k. k \<noteq> 0 \<and> k \<noteq> -1) (map fst (kv_store (local_kv s))))
    | _ \<Rightarrow> True) \<and>
   (verify kv key ret = Inr () \<longleftrightarrow>
     (\<exists>v. kv_get key kv = Some v \<and> length ret \<le> Suc (length v) \<and> ret = take (length ret) (v @ [NUL])))"
  by (auto simp: verify_iff verify_all_def init_it_def split: option.split sum.split prod.split
      dest: verify_keys_outbox)

subsection \<open>A server that stores nothing\<close>

text \<open>At least \<open>n\<close> requests will be answered with the payload \<open>p\<close>.\<close>

definition answered :: "string \<Rightarrow> nat \<Rightarrow> traffic \<Rightarrow> bool" where
  "answered p n w \<longleftrightarrow> (\<exists>m\<ge>n. recv_bytes (inbox w) = concat (replicate m (frame p))) \<and>
     zero_reads (inbox w) \<le> max_retries \<and> n \<le> length (sends_ok w) \<and> set (sends_ok w) \<subseteq> {True}"

lemma exchange:
  assumes "answered p (Suc n) w" "p \<noteq> []" "length p < 2 ^ 32"
  shows "\<exists>w1 w2. sent_request d w = Some (Inr w1) \<and>
    recv_ack c w1 = Some (Inr (p, c\<lparr>replies := replies c + 1\<rparr>, w2)) \<and> answered p n w2"
proof -
  from assms(1) obtain m where m: "n \<le> m" "recv_bytes (inbox w) = frame p @ concat (replicate m (frame p))"
    unfolding answered_def by (metis Suc_le_D Suc_le_mono concat.simps(2) replicate_Suc)
  from assms(1) obtain oks where oks: "sends_ok w = True # oks" "n \<le> length oks" "set oks \<subseteq> {True}"
    by (cases "sends_ok w") (auto simp: answered_def)
  obtain es where es: "secure_recv (inbox w) = Some ((length p, Some (p @ [NUL])), es)"
    "recv_bytes es = concat (replicate m (frame p))" "zero_reads es \<le> max_retries"
    using secure_recv_frame [OF m(2) _ assms(3)] assms(1) by (auto simp: answered_def)
  with oks m assms(2) show ?thesis
    by (auto simp: sent_request_def recv_ack_def answered_def)
qed

text \<open>A trace of reads and writes.\<close>

definition plain_trace :: "trace_cmd list \<Rightarrow> bool" where
  "plain_trace traces \<longleftrightarrow> (\<forall>cmd\<in>set traces. \<exists>item more. cmd = item # more \<and> pair_op item \<in> {put, get})"

lemma next_command_ok:
  assumes "2 \<le> nb" "it < length traces"
  shows "\<exists>it' s'. next_command rnd nb traces it s = Inr (it', s') \<and> it' < length traces \<and>
    local_kv s' = local_kv s"
proof (cases "it = length traces - 1")
  case False
  with assms show ?thesis by (auto simp: next_command_def)
next
  case True
  let ?r = "rnd (rand_calls s) mod (nb - 1)"
  have "?r < nb - 1" using assms(1) by simp
  then have "length traces div nb * ?r \<le> length traces div nb * (nb - 1)" by simp
  moreover have "length traces div nb * (nb - 1) < length traces"
  proof (cases "length traces div nb = 0")
    case False
    then have "length traces div nb * (nb - 1) < length traces div nb * nb"
      using assms(1) by simp
    then show ?thesis using div_times_less_eq_dividend [of "length traces" nb] by linarith
  qed (use assms in auto)
  ultimately have "length traces div nb * ?r < length traces" by (rule le_less_trans)
  with True assms(1) show ?thesis by (auto simp: next_command_def)
qed

definition grown :: "kv_state \<Rightarrow> kv_state \<Rightarrow> bool" where
  "grown kv kv' \<longleftrightarrow> length (kv_store kv') \<le> Suc (length (kv_store kv))"

lemma kv_put_grows: "grown kv (snd (kv_put k v kv))"
proof -
  have "length (AList.update k v m) \<le> Suc (length m)" for m :: "(int \<times> string) list"
    by (induction m) auto
  then show ?thesis by (simp add: grown_def kv_put_def)
qed

lemma get_operation_ok:
  assumes "plain_trace traces" "2 \<le> nb" "it < length traces"
  shows "\<exists>request it' s'. get_operation ser rnd nb traces it s = Inr (request, 1, it', s') \<and>
    it' < length traces \<and> grown (local_kv s) (local_kv s')"
proof -
  from assms(1,3) obtain item rest where cmd: "traces ! it = item # rest" "pair_op item \<in> {put, get}"
    unfolding plain_trace_def by (meson nth_mem)
  define filled where "filled = (case pair_op item of put \<Rightarrow> get_operation_put rnd item new_op s
      | _ \<Rightarrow> get_operation_get item new_op s)"
  obtain od s1 where f: "filled = (od, s1)" by (cases filled)
  have g: "grown (local_kv s) (local_kv s1)"
    using f cmd(2) kv_put_grows [of "local_kv s"]
    by (auto simp: filled_def get_operation_put_def get_operation_get_def rand_str_def grown_def)
  obtain it' s' where "next_command rnd nb traces it s1 = Inr (it', s')" "it' < length traces"
    "local_kv s' = local_kv s1"
    using next_command_ok [OF assms(2,3)] by blast
  with f g cmd assms(3) show ?thesis
    by (auto simp: get_operation_def filled_def bind_res_def Let_def)
qed

lemma request_loop_answered:
  assumes "plain_trace traces" "2 \<le> nb" "p \<noteq> []" "length p < 2 ^ 32"
    and "it < length traces" "answered p (n + m) w"
  shows "\<exists>s' c' w'. request_loop ser rnd nb traces n it e s c w =
      Some (Inr (e + word_of_nat n, s', c', w')) \<and> replies c' = replies c + word_of_nat n \<and>
      answered p m w' \<and> length (kv_store (local_kv s')) \<le> n + length (kv_store (local_kv s))"
  using assms(5,6)
proof (induction n arbitrary: it e s c w)
  case (Suc n)
  obtain request it' s' where op: "get_operation ser rnd nb traces it s = Inr (request, 1, it', s')"
    "it' < length traces" "grown (local_kv s) (local_kv s')"
    using get_operation_ok [OF assms(1,2) Suc.prems(1)] by blast
  obtain w1 w2 where ex: "sent_request request w = Some (Inr w1)"
    "recv_ack c w1 = Some (Inr (p, c\<lparr>replies := replies c + 1\<rparr>, w2))" "answered p (n + m) w2"
    using exchange [of p "n + m" w request c] Suc.prems(2) assms(3,4) by auto
  from Suc.IH [OF op(2) ex(3), of "e + 1" s' "c\<lparr>replies := replies c + 1\<rparr>"] op ex show ?case
    by (auto simp: grown_def algebra_simps)
qed simp

lemma verify_keys_answered:
  assumes "p \<noteq> []" "length p < 2 ^ 32" "default_to [] (rp_value (parse p)) = []"
    and "set (iter kv) \<subseteq> fst ` set (kv_store kv)" "answered p (length (iter kv)) w"
  shows "\<exists>r. verify_keys ser parse kv c w = Some (Inr r)"
  using assms(4,5)
proof (induction "iter kv" arbitrary: kv c w)
  case Nil
  then show ?case by (simp add: verify_keys_Nil)
next
  case (Cons k ks)
  note it = Cons.hyps(2) [symmetric]
  obtain w1 w2 where ex: "sent_request (key_request ser k) w = Some (Inr w1)"
    "recv_ack c w1 = Some (Inr (p, c\<lparr>replies := replies c + 1\<rparr>, w2))" "answered p (length ks) w2"
    using exchange [of p "length ks" w "key_request ser k" c] Cons.prems(2) it assms(1,2) by auto
  have "map_of (kv_store kv) k \<noteq> None" using Cons.prems(1) it by (auto simp: map_of_eq_None_iff)
  then have "verify (kv\<lparr>iter := ks\<rparr>) k (default_to [] (rp_value (parse p))) = Inr ()"
    using assms(3) by (auto simp: verify_iff kv_get_def)
  moreover have "\<exists>r. verify_keys ser parse (kv\<lparr>iter := ks\<rparr>) (c\<lparr>replies := replies c + 1\<rparr>) w2 = Some (Inr r)"
    using Cons.hyps(1) [of "kv\<lparr>iter := ks\<rparr>" w2] Cons.prems(1) it ex(3) by simp
  ultimately show ?case using ex it by (auto simp: verify_keys_Cons)
qed

text \<open>C37: the client cannot tell a server that stores nothing from one that works. If every
  request is answered with the same message without a value, which is what the server of
  task 1 does when the operation left over from the greeting is a write, then a client with
  any trace of reads and writes sends its requests, gets all its replies, verifies the keys
  it wrote and ends without an error.\<close>

theorem client_deceived:
  assumes "plain_trace traces" "2 \<le> nb_clients" "tid < nb_clients" "nb_clients \<le> length traces"
    and "answered p (2 * nb_messages) w" "p \<noteq> []" "length p < 2 ^ 32"
    and "default_to [] (rp_value (parse p)) = []" "replies c = 0"
  shows "\<exists>r. client ser parse rnd nb_clients traces nb_messages tid new_client_op c w = Some (Inr r)"
proof -
  let ?it = "length traces div nb_clients * tid"
  have pos: "0 < length traces div nb_clients" using assms(2,4) by (simp add: div_greater_zero_iff)
  have "?it < length traces div nb_clients * nb_clients" using pos assms(3) by simp
  also have "\<dots> \<le> length traces" by simp
  finally have it: "?it < length traces" .
  have "answered p (nb_messages + nb_messages) w" using assms(5) by (simp add: mult_2)
  from request_loop_answered [OF assms(1,2,6,7) it this, of ser rnd 0 new_client_op c]
  obtain s' c' w' where run: "request_loop ser rnd nb_clients traces nb_messages ?it 0 new_client_op c w =
      Some (Inr (word_of_nat nb_messages, s', c', w'))"
    "replies c' = word_of_nat nb_messages" "answered p nb_messages w'"
    "length (kv_store (local_kv s')) \<le> nb_messages"
    using assms(9) by (auto simp: new_client_op_def kv_init_def)
  have aw: "await_replies (word_of_nat nb_messages) c' w' = Some (Inr (c', w'))"
    using run(2) by (simp add: await_replies.simps)
  have "answered p (length (iter (init_it (local_kv s')))) w'"
    using run(3,4) by (auto simp: answered_def init_it_def intro: order_trans)
  moreover have "set (iter (init_it (local_kv s'))) \<subseteq> fst ` set (kv_store (init_it (local_kv s')))"
    by (simp add: init_it_def)
  ultimately obtain kv c2 w2 where
    "verify_keys ser parse (init_it (local_kv s')) c' w' = Some (Inr (kv, c2, w2))"
    using verify_keys_answered [OF assms(6,7), of parse] assms(8) by (metis prod_cases3)
  with run aw show ?thesis
    by (simp add: client_def verify_all_def Let_def)
qed

definition write_trace :: "trace_cmd list" where
  "write_trace = replicate 2 [\<lparr>key_hash = 7, pair_value = ''1'', pair_op = put\<rparr>]"

theorem client_deceived_witness:
  "\<exists>r. client (\<lambda>ops. ''q'') (\<lambda>m. empty_reply) (\<lambda>i. i) 2 write_trace 1 1 new_client_op
     (new_client_thread 1)
     \<lparr>inbox = [Got (frame ''x'' @ frame ''x'')], sends_ok = [True, True], outbox = []\<rparr> = Some (Inr r)"
proof (rule client_deceived [of _ _ _ "''x''"])
  show "plain_trace write_trace" by (simp add: plain_trace_def write_trace_def)
  show "answered ''x'' (2 * 1) \<lparr>inbox = [Got (frame ''x'' @ frame ''x'')], sends_ok = [True, True], outbox = []\<rparr>"
    by (auto simp: answered_def zero_reads_def numeral_2_eq_2 intro!: exI [of _ 2])
       (simp_all add: construct_message_def)
  show "default_to [] (rp_value empty_reply) = []" by (simp add: default_to_def empty_reply_def)
qed (simp_all add: write_trace_def new_client_thread_def)

end
