(* ===== verification/TxnOps.thy ===== *)
theory TxnOps
  imports Prelude
begin

section \<open>Task 1: the commands of transaction traces\<close>

text \<open>
  The first half of \<open>workload_traces/load_txn.cpp\<close> (the same file is in \<open>task2/source\<close>): the
  operations of the transactions on a local store, with the values as decimal strings and the
  arithmetic on \<open>int64_t\<close>.
\<close>

subsection \<open>Values\<close>

type_synonym kv_map = "u32 \<rightharpoonup> string"

text \<open>\<open>convert_key_to_int\<close> copies the bytes of the key over the local variable \<open>key\<close> instead of
  \<open>res\<close>, and returns \<open>res\<close>.\<close>

definition convert_key_to_int :: "string \<Rightarrow> u32" where
  "convert_key_to_int key = 0"

definition in_i64 :: "int \<Rightarrow> bool" where
  "in_i64 v \<longleftrightarrow> - (2 ^ 63) \<le> v \<and> v < 2 ^ 63"

text \<open>\<open>str_value_to_op_value<int64_t>\<close>: \<open>std::from_chars\<close> takes a minus sign and the longest run
  of digits; what follows is not looked at.\<close>

definition str_value_to_op_value :: "string \<Rightarrow> int option" where
  "str_value_to_op_value value =
     (let neg = (take 1 value = ''-'');
          ds = takeWhile is_digit (if neg then tl value else value);
          v = (if neg then - int (digits_val 0 ds) else int (digits_val 0 ds))
      in if ds = [] \<or> \<not> in_i64 v then None else Some v)"

subsection \<open>Operations\<close>

datatype txn_op = get_op | put_op | send_and_execute | prepare | commit | abort | kill | pause

datatype op_func =
  f_pause | f_kill | f_set | f_add | f_sub | f_mult | f_div | f_mod
| f_and | f_or | f_xor | f_not | f_nand | f_nor

datatype txn_op_type = Op txn_op | Func op_func

record txn_cmd =
  c_op :: txn_op_type
  c_key :: u32
  c_value :: string

text \<open>\<open>insert_or_assign\<close> tells whether it inserted.\<close>

definition insert_or_assign :: "u32 \<Rightarrow> string \<Rightarrow> kv_map \<Rightarrow> bool \<times> kv_map" where
  "insert_or_assign key value st = (st key = None, st(key \<mapsto> value))"

definition kv_set :: "txn_cmd \<Rightarrow> kv_map \<Rightarrow> bool \<times> kv_map" where
  "kv_set cmd st = insert_or_assign (c_key cmd) (c_value cmd) st"

definition op_wrapper :: "(int \<Rightarrow> int \<Rightarrow> int res) \<Rightarrow> txn_cmd \<Rightarrow> kv_map \<Rightarrow> (bool \<times> kv_map) res" where
  "op_wrapper f cmd st =
     (case (st (c_key cmd), st (convert_key_to_int (c_value cmd))) of
        (Some lhs, Some rhs) \<Rightarrow>
          (case (str_value_to_op_value lhs, str_value_to_op_value rhs) of
             (Some lhs_v, Some rhs_v) \<Rightarrow>
               map_sum (\<lambda>e. e) (\<lambda>res. insert_or_assign (c_key cmd) (to_string res) st) (f lhs_v rhs_v)
           | _ \<Rightarrow> Inr (False, st))
      | _ \<Rightarrow> Inr (False, st))"

text \<open>Signed arithmetic must not leave the type.\<close>

definition checked :: "int \<Rightarrow> int res" where
  "checked v = (if in_i64 v then Inr v else Inl Signed_Overflow)"

definition add_op :: "int \<Rightarrow> int \<Rightarrow> int res" where "add_op l r = checked (l + r)"
definition sub_op :: "int \<Rightarrow> int \<Rightarrow> int res" where "sub_op l r = checked (l - r)"
definition mult_op :: "int \<Rightarrow> int \<Rightarrow> int res" where "mult_op l r = checked (l * r)"

definition div_op :: "int \<Rightarrow> int \<Rightarrow> int res" where
  "div_op l r = (if r = 0 then Inl Div_By_Zero else checked (l sdiv r))"

text \<open>\<open>INT64_MIN % -1\<close> overflows although its value would be 0.\<close>

definition mod_op :: "int \<Rightarrow> int \<Rightarrow> int res" where
  "mod_op l r =
     (if r = 0 then Inl Div_By_Zero
      else if \<not> in_i64 (l sdiv r) then Inl Signed_Overflow else Inr (l smod r))"

text \<open>\<open>bin_op_wrapper\<close>: the operands are reinterpreted as \<open>uint64_t\<close>, and so is the result that is
  printed.\<close>

definition bin_op :: "(i64 \<Rightarrow> i64 \<Rightarrow> i64) \<Rightarrow> int \<Rightarrow> int \<Rightarrow> int res" where
  "bin_op f l r = Inr (uint (f (word_of_int l) (word_of_int r)))"

text \<open>\<open>not_func\<close> prints its result as a signed number.\<close>

definition not_func :: "txn_cmd \<Rightarrow> kv_map \<Rightarrow> bool \<times> kv_map" where
  "not_func cmd st =
     (case st (c_key cmd) of
        None \<Rightarrow> (False, st)
      | Some lhs \<Rightarrow>
          (case str_value_to_op_value lhs of
             None \<Rightarrow> (False, st)
           | Some res \<Rightarrow>
               insert_or_assign (c_key cmd) (to_string (sint (NOT (word_of_int res :: i64)))) st))"

text \<open>\<open>send_cmd\<close> prints a line and reads the result from the standard input.\<close>

fun call_op :: "bool \<Rightarrow> op_func \<Rightarrow> txn_cmd \<Rightarrow> kv_map \<Rightarrow> (bool \<times> kv_map) res" where
  "call_op input f_pause cmd st = Inr (input, st)"
| "call_op input f_kill cmd st = Inr (input, st)"
| "call_op input f_set cmd st = Inr (kv_set cmd st)"
| "call_op input f_add cmd st = op_wrapper add_op cmd st"
| "call_op input f_sub cmd st = op_wrapper sub_op cmd st"
| "call_op input f_mult cmd st = op_wrapper mult_op cmd st"
| "call_op input f_div cmd st = op_wrapper div_op cmd st"
| "call_op input f_mod cmd st = op_wrapper mod_op cmd st"
| "call_op input f_and cmd st = op_wrapper (bin_op (AND)) cmd st"
| "call_op input f_or cmd st = op_wrapper (bin_op (OR)) cmd st"
| "call_op input f_xor cmd st = op_wrapper (bin_op (XOR)) cmd st"
| "call_op input f_not cmd st = Inr (not_func cmd st)"
| "call_op input f_nand cmd st = op_wrapper (bin_op (\<lambda>a b. NOT (a AND b))) cmd st"
| "call_op input f_nor cmd st = op_wrapper (bin_op (\<lambda>a b. NOT (a OR b))) cmd st"

text \<open>\<open>op_type_map\<close>, by the number of the operation in the trace; \<open>at\<close> throws for others.\<close>

definition op_types :: "txn_op_type list" where
  "op_types = [Op put_op, Op get_op, Op send_and_execute, Op prepare, Op commit, Op abort,
     Func f_pause, Func f_kill, Func f_set, Func f_add, Func f_sub, Func f_mult, Func f_div,
     Func f_mod, Func f_and, Func f_or, Func f_xor, Func f_not, Func f_nand, Func f_nor]"

definition op_type_map :: "nat \<Rightarrow> txn_op_type res" where
  "op_type_map n = (if n < length op_types then Inr (op_types ! n) else Inl Out_Of_Range)"

text \<open>What \<open>get_possible_results\<close> does with one command; results of operations are dropped.\<close>

definition exec_cmd :: "txn_cmd \<Rightarrow> kv_map \<Rightarrow> kv_map res" where
  "exec_cmd cmd st =
     (case c_op cmd of
        Op op \<Rightarrow> Inr (if op = put_op then st(c_key cmd \<mapsto> c_value cmd) else st)
      | Func f \<Rightarrow> map_sum (\<lambda>e. e) snd (call_op False f cmd st))"

fun exec_cmds :: "txn_cmd list \<Rightarrow> kv_map \<Rightarrow> kv_map res" where
  "exec_cmds [] st = Inr st"
| "exec_cmds (c # cs) st = (case exec_cmd c st of Inl f \<Rightarrow> Inl f | Inr st' \<Rightarrow> exec_cmds cs st')"

subsection \<open>What the operations compute\<close>

lemma str_value_to_string: "in_i64 v \<Longrightarrow> str_value_to_op_value (to_string v) = Some v"
proof -
  have tw: "takeWhile is_digit (nat_str m) = nat_str m" for m
    using nat_str_digits [of m] by (simp only: list_all_iff takeWhile_eq_all_conv)
  have "take 1 (nat_str m) \<noteq> ''-''" for m
    using nat_str_digits [of m] by (cases "nat_str m") (auto simp: is_digit_def)
  then show "in_i64 v \<Longrightarrow> str_value_to_op_value (to_string v) = Some v"
    by (auto simp: str_value_to_op_value_def to_string_def tw digits_val_nat_str Let_def)
qed

text \<open>The bitwise operations agree with those of the unsigned reading.\<close>

lemma op_wrapper_number:
  assumes "st (c_key cmd) = Some (to_string v)" "c_key cmd = 0" "in_i64 v"
  shows "op_wrapper f cmd st =
    map_sum (\<lambda>e. e) (\<lambda>r. (False, st(0 \<mapsto> to_string r))) (f v v)"
  using assms
  by (simp add: op_wrapper_def convert_key_to_int_def str_value_to_string insert_or_assign_def)

lemma to_string_small [simp]: "to_string 0 = ''0''" "to_string 1 = ''1''"
  by code_simp+

lemma sint_word_of_int_i64: "in_i64 v \<Longrightarrow> sint (word_of_int v :: i64) = v"
  using signed_take_bit_int_eq_self [of 63 v] by (simp add: in_i64_def sint_sbintrunc')

lemma sint_not_i64: "in_i64 v \<Longrightarrow> sint (NOT (word_of_int v :: i64)) = - v - 1"
proof -
  assume v: "in_i64 v"
  have "NOT (word_of_int v :: i64) = word_of_int (- v - 1)"
    by (simp add: not_eq_complement)
  moreover have "in_i64 (- v - 1)" using v by (auto simp: in_i64_def)
  ultimately show "sint (NOT (word_of_int v :: i64)) = - v - 1"
    by (simp only: sint_word_of_int_i64)
qed

lemma uint_word_of_int_i64: "uint (word_of_int v :: i64) = v mod 2 ^ 64"
  by (simp add: uint_word_of_int)

lemma sdiv_self: "v \<noteq> 0 \<Longrightarrow> v sdiv v = (1 :: int)" "v smod v = (0 :: int)"
  by (auto simp: signed_divide_int_def signed_modulo_int_def sgn_if)

text \<open>Since every key of a parsed trace is 0 and the second operand is looked up under the
  key 0 as well, the operations of a trace work on one number only: on the number \<open>v\<close> an
  addition doubles, a subtraction and an exclusive or clear, a division sets 1 or faults for
  0, \<open>and\<close> and \<open>or\<close> turn a negative number into its unsigned reading, which no later
  operation can parse, and a product or a sum that leaves 64 bits is undefined.\<close>

theorem trace_arithmetic:
  assumes "st 0 = Some (to_string v)" "in_i64 v" "c_key cmd = 0"
  shows "exec_cmd (cmd\<lparr>c_op := Func f_add\<rparr>) st =
      (if in_i64 (2 * v) then Inr (st(0 \<mapsto> to_string (2 * v))) else Inl Signed_Overflow) \<and>
    exec_cmd (cmd\<lparr>c_op := Func f_sub\<rparr>) st = Inr (st(0 \<mapsto> ''0'')) \<and>
    exec_cmd (cmd\<lparr>c_op := Func f_mult\<rparr>) st =
      (if in_i64 (v * v) then Inr (st(0 \<mapsto> to_string (v * v))) else Inl Signed_Overflow) \<and>
    exec_cmd (cmd\<lparr>c_op := Func f_div\<rparr>) st =
      (if v = 0 then Inl Div_By_Zero else Inr (st(0 \<mapsto> ''1''))) \<and>
    exec_cmd (cmd\<lparr>c_op := Func f_mod\<rparr>) st =
      (if v = 0 then Inl Div_By_Zero else Inr (st(0 \<mapsto> ''0''))) \<and>
    exec_cmd (cmd\<lparr>c_op := Func f_and\<rparr>) st = Inr (st(0 \<mapsto> to_string (v mod 2 ^ 64))) \<and>
    exec_cmd (cmd\<lparr>c_op := Func f_or\<rparr>) st = Inr (st(0 \<mapsto> to_string (v mod 2 ^ 64))) \<and>
    exec_cmd (cmd\<lparr>c_op := Func f_xor\<rparr>) st = Inr (st(0 \<mapsto> ''0'')) \<and>
    exec_cmd (cmd\<lparr>c_op := Func f_not\<rparr>) st = Inr (st(0 \<mapsto> to_string (- v - 1)))"
proof -
  have w: "op_wrapper f (cmd\<lparr>c_op := op\<rparr>) st = map_sum (\<lambda>e. e) (\<lambda>r. (False, st(0 \<mapsto> to_string r))) (f v v)"
    for f op
    using assms by (intro op_wrapper_number) simp_all
  have n: "not_func (cmd\<lparr>c_op := op\<rparr>) st = (False, st(0 \<mapsto> to_string (- v - 1)))" for op
    using assms by (simp add: not_func_def str_value_to_string insert_or_assign_def sint_not_i64)
  have one: "in_i64 0" "in_i64 1" by (simp_all add: in_i64_def)
  show ?thesis
    by (intro conjI)
       (auto simp: exec_cmd_def w n add_op_def sub_op_def mult_op_def div_op_def mod_op_def checked_def
          bin_op_def one sdiv_self uint_word_of_int_i64)
qed

theorem trace_arithmetic_witness:
  "exec_cmd \<lparr>c_op = Func f_add, c_key = 0, c_value = ''k''\<rparr> [0 \<mapsto> to_string 21] =
     Inr [0 \<mapsto> to_string 42]"
  using trace_arithmetic [of "[0 \<mapsto> to_string 21]" 21 "\<lparr>c_op = Func f_add, c_key = 0, c_value = ''k''\<rparr>"]
  by (simp add: in_i64_def)

end
