(* ===== verification/TxnGraph.thy ===== *)
theory TxnGraph
  imports TxnOps "HOL-Library.AList"
begin

section \<open>Task 1: the dependency graph of a transaction trace\<close>

text \<open>
  The class \<open>TxnGraph\<close> of \<open>workload_traces/load_txn.h\<close> and the functions that build and explore
  it in \<open>load_txn.cpp\<close>. A node of the graph is owned by the \<open>next\<close> vectors of the nodes it
  depends on; when the last owner goes its destructor moves it to the queue \<open>ready_nodes\<close>.
  The shared pointers are addresses, and the owners of a node are counted in the \<open>next\<close> lists
  of all nodes that are alive.
\<close>

subsection \<open>Nodes and the graph\<close>

record graph_node =
  addr :: nat
  node_id :: nat
  is_txn :: bool
  cmds :: "txn_cmd list"
  next_nodes :: "nat list"

text \<open>\<open>pending\<close>: the graph nodes that are alive and not ready, by address.\<close>

record txn_graph =
  num_nodes :: nat
  remaining_nodes :: "64 word"
  ready_nodes :: "graph_node list"
  pending :: "(nat \<times> graph_node) list"

definition empty_graph :: txn_graph where
  "empty_graph = \<lparr>num_nodes = 0, remaining_nodes = 0, ready_nodes = [], pending = []\<rparr>"

text \<open>The owners of a node: the \<open>next\<close> vectors, and the handles \<open>held\<close> elsewhere.\<close>

definition owners :: "txn_graph \<Rightarrow> nat list \<Rightarrow> nat \<Rightarrow> nat" where
  "owners g held a =
     count_list (concat (map next_nodes (ready_nodes g)) @
                 concat (map (next_nodes \<circ> snd) (pending g)) @ held) a"

text \<open>\<open>~GraphNode\<close> of a graph that is still valid.\<close>

definition add_to_ready :: "nat \<Rightarrow> txn_graph \<Rightarrow> txn_graph" where
  "add_to_ready a g =
     (case map_of (pending g) a of
        None \<Rightarrow> g
      | Some nd \<Rightarrow> g\<lparr>ready_nodes := ready_nodes g @ [nd], pending := AList.delete a (pending g)\<rparr>)"

text \<open>The destruction of a vector of shared pointers, from its front.\<close>

fun release :: "nat list \<Rightarrow> txn_graph \<Rightarrow> txn_graph" where
  "release [] g = g"
| "release (a # held) g = release held (if owners g held a = 0 then add_to_ready a g else g)"

text \<open>\<open>get_ready\<close>: \<open>None\<close> is a thread that waits until another thread makes a node ready.\<close>

definition get_ready :: "txn_graph \<Rightarrow> (graph_node option \<times> txn_graph) option" where
  "get_ready g =
     (case ready_nodes g of
        [] \<Rightarrow> (if remaining_nodes g = 0 then Some (None, g) else None)
      | nd # nds \<Rightarrow>
          Some (Some nd, g\<lparr>ready_nodes := nds, remaining_nodes := remaining_nodes g - 1\<rparr>))"

subsection \<open>Parsing\<close>

record kv_command =
  kv_op :: nat
  kv_key :: string
  kv_value :: string

record txn =
  t_is_txn :: bool
  t_id :: nat
  depends_on :: "nat list"
  t_cmds :: "kv_command list"

fun parse_cmds :: "kv_command list \<Rightarrow> txn_cmd list res" where
  "parse_cmds [] = Inr []"
| "parse_cmds (c # cs) =
     (case op_type_map (kv_op c) of
        Inl f \<Rightarrow> Inl f
      | Inr op \<Rightarrow>
          map_sum (\<lambda>e. e)
            ((#) \<lparr>c_op = op, c_key = convert_key_to_int (kv_key c), c_value = kv_value c\<rparr>)
            (parse_cmds cs))"

text \<open>The map \<open>nodes\<close> from ids to handles and dependencies. A second transaction with the same id
  takes the place of the first, whose node loses its owner.\<close>

type_synonym node_map = "(nat \<times> nat \<times> nat list) list"

fun make_nodes :: "nat \<Rightarrow> txn list \<Rightarrow> node_map \<Rightarrow> txn_graph \<Rightarrow> (node_map \<times> txn_graph) res" where
  "make_nodes a [] nodes g = Inr (nodes, g)"
| "make_nodes a (t # ts) nodes g =
     (case parse_cmds (t_cmds t) of
        Inl f \<Rightarrow> Inl f
      | Inr cs \<Rightarrow>
          (let nd = \<lparr>addr = a, node_id = 0, is_txn = t_is_txn t, cmds = cs, next_nodes = []\<rparr>;
               g' = g\<lparr>pending := pending g @ [(a, nd)]\<rparr>;
               g'' = (case map_of nodes (t_id t) of
                        None \<Rightarrow> g'
                      | Some (old, _) \<Rightarrow> add_to_ready old g')
           in make_nodes (Suc a) ts (AList.update (t_id t) (a, depends_on t) nodes) g''))"

text \<open>\<open>dep_node->next.push_back(node)\<close>; the null pointer of an unknown id is followed.\<close>

definition push_next :: "node_map \<Rightarrow> nat \<Rightarrow> nat \<Rightarrow> txn_graph \<Rightarrow> txn_graph res" where
  "push_next nodes a dep g =
     (case map_of nodes dep of
        None \<Rightarrow> Inl Null_Deref
      | Some (d, _) \<Rightarrow>
          Inr (g\<lparr>pending := map (\<lambda>(b, nd).
            (b, if b = d then nd\<lparr>next_nodes := next_nodes nd @ [a]\<rparr> else nd)) (pending g)\<rparr>))"

fun push_all :: "node_map \<Rightarrow> nat \<Rightarrow> nat list \<Rightarrow> txn_graph \<Rightarrow> txn_graph res" where
  "push_all nodes a [] g = Inr g"
| "push_all nodes a (d # ds) g =
     (case push_next nodes a d g of Inl f \<Rightarrow> Inl f | Inr g' \<Rightarrow> push_all nodes a ds g')"

fun link_nodes :: "node_map \<Rightarrow> node_map \<Rightarrow> txn_graph \<Rightarrow> txn_graph res" where
  "link_nodes nodes [] g = Inr g"
| "link_nodes nodes ((_, a, deps) # es) g =
     (case push_all nodes a deps g of Inl f \<Rightarrow> Inl f | Inr g' \<Rightarrow> link_nodes nodes es g')"

text \<open>\<open>parse_txn_trace\<close>; \<open>None\<close> is input that cannot be parsed. At the end the map \<open>nodes\<close> goes and
  with it one owner of every node.\<close>

definition parse_txn_trace :: "txn list option \<Rightarrow> txn_graph res" where
  "parse_txn_trace test =
     (case test of
        None \<Rightarrow> Inr empty_graph
      | Some txns \<Rightarrow>
          (case make_nodes 0 txns [] empty_graph of
             Inl f \<Rightarrow> Inl f
           | Inr (nodes, g) \<Rightarrow>
               map_sum (\<lambda>e. e)
                 (\<lambda>g'. release (map (\<lambda>(_, a, _). a) nodes)
                    (g'\<lparr>num_nodes := length nodes, remaining_nodes := word_of_nat (length nodes)\<rparr>))
                 (link_nodes nodes nodes g)))"

subsection \<open>Copies\<close>

text \<open>\<open>deep_copy_network\<close>: the nodes that are copied are those reached over \<open>next\<close>; the recursion
  works on one stack.\<close>

definition next_of :: "txn_graph \<Rightarrow> nat \<Rightarrow> nat list" where
  "next_of g a = (case map_of (pending g) a of None \<Rightarrow> [] | Some nd \<Rightarrow> next_nodes nd)"

function copied :: "txn_graph \<Rightarrow> nat list \<Rightarrow> nat list \<Rightarrow> nat list" where
  "copied g known [] = known"
| "copied g known (a # todo) =
     (if a \<in> set known \<or> a \<notin> fst ` set (pending g) then copied g known todo
      else copied g (a # known) (next_of g a @ todo))"
  by pat_completeness auto
termination
proof (relation "measures [\<lambda>(g, known, _). card (fst ` set (pending g) - set known),
    \<lambda>(_, _, todo). length todo]", goal_cases)
  case (3 g known a todo)
  then have "fst ` set (pending g) - set (a # known) \<subset> fst ` set (pending g) - set known" by auto
  then have "card (fst ` set (pending g) - set (a # known)) < card (fst ` set (pending g) - set known)"
    by (intro psubset_card_mono) auto
  then show ?case by simp
qed auto

definition deep_copy :: "txn_graph \<Rightarrow> txn_graph" where
  "deep_copy g =
     (let known = copied g [] (concat (map next_nodes (ready_nodes g)))
      in g\<lparr>pending := filter (\<lambda>(a, _). a \<in> set known) (pending g)\<rparr>)"

subsection \<open>Exploring all orders\<close>

text \<open>The commands of a node, and then the end of its \<open>next\<close> vector.\<close>

definition exec_node :: "graph_node \<Rightarrow> kv_map \<Rightarrow> kv_map res" where
  "exec_node nd st = (if is_txn nd \<or> node_id nd = 0 then exec_cmds (cmds nd) st else Inr st)"

definition take_ready :: "nat \<Rightarrow> txn_graph \<Rightarrow> txn_graph" where
  "take_ready i g =
     (let nd = ready_nodes g ! i
      in release (next_nodes nd) (g\<lparr>ready_nodes := take i (ready_nodes g) @ drop (Suc i) (ready_nodes g)\<rparr>))"

definition alive :: "txn_graph \<Rightarrow> nat" where
  "alive g = length (ready_nodes g) + length (pending g)"

lemma length_delete_le: "map_of m a = Some x \<Longrightarrow> length (AList.delete a m) < length m"
  by (induction m) (auto simp: less_Suc_eq_le AList.delete_eq)

lemma alive_add_to_ready: "alive (add_to_ready a g) \<le> alive g"
  using length_delete_le [of "pending g" a] by (auto simp: add_to_ready_def alive_def split: option.split)

lemma alive_release: "alive (release as g) \<le> alive g"
  by (induction as g rule: release.induct) (auto intro: order_trans alive_add_to_ready)

lemma alive_take_ready: "i < length (ready_nodes g) \<Longrightarrow> alive (take_ready i g) < alive g"
proof -
  assume i: "i < length (ready_nodes g)"
  let ?g = "g\<lparr>ready_nodes := take i (ready_nodes g) @ drop (Suc i) (ready_nodes g)\<rparr>"
  have "alive (take_ready i g) \<le> alive ?g" by (simp add: take_ready_def Let_def alive_release)
  also have "\<dots> < alive g" using i by (simp add: alive_def)
  finally show ?thesis .
qed

lemma alive_deep_copy: "alive (deep_copy g) \<le> alive g"
  by (simp add: deep_copy_def alive_def)

text \<open>\<open>get_possible_results\<close>: with one ready node in place, with several on copies.\<close>

fun concat_res :: "'a list res list \<Rightarrow> 'a list res" where
  "concat_res [] = Inr []"
| "concat_res (r # rs) =
     (case r of Inl f \<Rightarrow> Inl f | Inr xs \<Rightarrow> map_sum (\<lambda>e. e) ((@) xs) (concat_res rs))"

function possible :: "txn_graph \<Rightarrow> kv_map \<Rightarrow> kv_map list res" where
  "possible g st =
     (if ready_nodes g = [] then Inr [st]
      else if length (ready_nodes g) = 1 then
        (case exec_node (hd (ready_nodes g)) st of
           Inl f \<Rightarrow> Inl f
         | Inr st' \<Rightarrow> possible (take_ready 0 g) st')
      else
        concat_res (map (\<lambda>i.
          let g' = deep_copy g
          in if i < length (ready_nodes g') then
               (case exec_node (ready_nodes g' ! i) st of
                  Inl f \<Rightarrow> Inl f
                | Inr st' \<Rightarrow> possible (take_ready i g') st')
             else Inr []) [0..<length (ready_nodes g)]))"
  by pat_completeness auto
termination
proof (relation "measure (\<lambda>(g, _). alive g)", goal_cases)
  case (2 g st st')
  then show ?case using alive_take_ready [of 0 g] by (simp add: alive_def split: if_splits)
next
  case (3 g st i g' st')
  then show ?case using alive_take_ready [of i g'] alive_deep_copy [of g] by auto
qed simp

declare possible.simps [simp del]

definition get_possible_results :: "txn_graph \<Rightarrow> kv_map list res" where
  "get_possible_results g = possible (deep_copy g) Map.empty"

subsection \<open>The state of a graph in terms of what has been executed\<close>

text \<open>\<open>nds a\<close> is the node at address \<open>a < n\<close>, \<open>D\<close> the nodes already executed, \<open>held\<close> the handles
  outside of the graph.\<close>

abbreviation succ :: "(nat \<Rightarrow> graph_node) \<Rightarrow> nat \<Rightarrow> nat set" where
  "succ nds a \<equiv> set (next_nodes (nds a))"

definition nodes_ok :: "(nat \<Rightarrow> graph_node) \<Rightarrow> nat set \<Rightarrow> graph_node list \<Rightarrow> (nat \<times> graph_node) list \<Rightarrow> bool" where
  "nodes_ok nds A R P \<longleftrightarrow>
     distinct (map addr R) \<and> distinct (map fst P) \<and>
     addr ` set R \<inter> fst ` set P = {} \<and> addr ` set R \<union> fst ` set P = A \<and>
     (\<forall>nd\<in>set R. nd = nds (addr nd)) \<and> (\<forall>(a, nd)\<in>set P. nd = nds a)"

abbreviation graph_nodes :: "(nat \<Rightarrow> graph_node) \<Rightarrow> nat set \<Rightarrow> txn_graph \<Rightarrow> bool" where
  "graph_nodes nds A g \<equiv> nodes_ok nds A (ready_nodes g) (pending g)"

text \<open>\<open>A\<close>: the nodes that have not been executed.\<close>

definition graph_inv :: "(nat \<Rightarrow> graph_node) \<Rightarrow> nat set \<Rightarrow> nat list \<Rightarrow> txn_graph \<Rightarrow> bool" where
  "graph_inv nds A held g \<longleftrightarrow>
     graph_nodes nds A g \<and> (\<forall>a\<in>A. addr (nds a) = a) \<and> (\<forall>a\<in>A. succ nds a \<subseteq> A) \<and> set held \<subseteq> A \<and>
     (\<forall>a\<in>A. a \<in> fst ` set (pending g) \<longleftrightarrow> a \<in> set held \<or> (\<exists>j\<in>A. a \<in> succ nds j))"

lemma owners_zero:
  assumes "graph_nodes nds A g"
  shows "owners g held a = 0 \<longleftrightarrow> a \<notin> set held \<and> (\<forall>j\<in>A. a \<notin> succ nds j)"
proof -
  have r: "nd = nds (addr nd)" if "nd \<in> set (ready_nodes g)" for nd
    using assms that by (simp add: nodes_ok_def)
  have p: "snd x = nds (fst x)" if "x \<in> set (pending g)" for x
    using assms that by (auto simp: nodes_ok_def)
  have "A = addr ` set (ready_nodes g) \<union> fst ` set (pending g)"
    using assms by (simp add: nodes_ok_def)
  moreover have "(\<forall>j\<in>addr ` set (ready_nodes g). a \<notin> succ nds j) \<longleftrightarrow>
      (\<forall>nd\<in>set (ready_nodes g). a \<notin> set (next_nodes nd))"
    using r by auto
  moreover have "(\<forall>j\<in>fst ` set (pending g). a \<notin> succ nds j) \<longleftrightarrow>
      (\<forall>x\<in>set (pending g). a \<notin> set (next_nodes (snd x)))"
    using p by auto
  ultimately show ?thesis by (auto simp: owners_def count_list_0_iff)
qed

lemma graph_nodes_ready:
  assumes "graph_nodes nds A g" "a \<in> fst ` set (pending g)" "addr (nds a) = a"
  shows "graph_nodes nds A (add_to_ready a g)"
    "fst ` set (pending (add_to_ready a g)) = fst ` set (pending g) - {a}"
proof -
  note inv = assms(1) [unfolded nodes_ok_def]
  obtain nd where nd: "(a, nd) \<in> set (pending g)" using assms(2) by auto
  moreover from nd inv have "nd = nds a" by blast
  ultimately have m: "map_of (pending g) a = Some (nds a)" using inv by (simp add: map_of_is_SomeI)
  let ?P = "AList.delete a (pending g)"
  have keys: "fst ` set ?P = fst ` set (pending g) - {a}" by (auto simp: AList.delete_eq)
  have sub: "set ?P \<subseteq> set (pending g)" by (auto simp: AList.delete_eq)
  have g': "add_to_ready a g = g\<lparr>ready_nodes := ready_nodes g @ [nds a], pending := ?P\<rparr>"
    using m by (simp add: add_to_ready_def)
  have fresh: "a \<notin> addr ` set (ready_nodes g)" using assms(2) inv by blast
  have "addr ` set (ready_nodes g @ [nds a]) = insert a (addr ` set (ready_nodes g))"
    using assms(3) by simp
  moreover have "distinct (map fst ?P)" using inv by (intro distinct_delete) blast
  moreover have "distinct (map addr (ready_nodes g @ [nds a]))" using inv fresh assms(3) by simp
  moreover have "\<forall>nd\<in>set (ready_nodes g @ [nds a]). nd = nds (addr nd)"
    using inv assms(3) by (metis Un_iff empty_iff insert_iff list.set set_append)
  moreover have "\<forall>(b, nd)\<in>set ?P. nd = nds b" using inv sub by blast
  moreover have "insert a (addr ` set (ready_nodes g)) \<inter> (fst ` set (pending g) - {a}) = {}"
    "insert a (addr ` set (ready_nodes g)) \<union> (fst ` set (pending g) - {a}) = A"
    using inv assms(2) by blast+
  ultimately show "graph_nodes nds A (add_to_ready a g)"
    unfolding g' by (simp add: nodes_ok_def keys)
  show "fst ` set (pending (add_to_ready a g)) = fst ` set (pending g) - {a}"
    using keys by (simp add: g')
qed

lemma graph_inv_release1:
  assumes "graph_inv nds A (a # held) g"
  shows "graph_inv nds A held (if owners g held a = 0 then add_to_ready a g else g)"
proof -
  have nodes: "graph_nodes nds A g" and a: "a \<in> A" and addr: "addr (nds a) = a"
    and p: "a \<in> fst ` set (pending g)"
    using assms by (auto simp: graph_inv_def)
  note z = owners_zero [OF nodes, of held a]
  show ?thesis
  proof (cases "owners g held a = 0")
    case False
    then have "b \<in> set (a # held) \<or> (\<exists>j\<in>A. b \<in> succ nds j) \<longleftrightarrow> b \<in> set held \<or> (\<exists>j\<in>A. b \<in> succ nds j)"
      for b using z by auto
    with assms False show ?thesis by (simp add: graph_inv_def)
  next
    case True
    with z assms graph_nodes_ready [OF nodes p addr] show ?thesis
      by (auto simp: graph_inv_def)
  qed
qed

lemma graph_inv_release: "graph_inv nds A held g \<Longrightarrow> graph_inv nds A [] (release held g)"
  by (induction held g rule: release.induct) (auto dest: graph_inv_release1)

lemma nodes_ok_remove:
  assumes "nodes_ok nds A (R1 @ x # R2) P"
  shows "nodes_ok nds (A - {addr x}) (R1 @ R2) P" "x = nds (addr x)" "addr x \<in> A" "addr x \<notin> fst ` set P"
proof -
  note inv = assms [unfolded nodes_ok_def]
  show "x = nds (addr x)" "addr x \<in> A" "addr x \<notin> fst ` set P" using inv by (simp, auto)
  have "addr x \<notin> addr ` set (R1 @ R2)" using inv by auto
  moreover have "addr ` set (R1 @ x # R2) = insert (addr x) (addr ` set (R1 @ R2))" by auto
  ultimately show "nodes_ok nds (A - {addr x}) (R1 @ R2) P"
    using inv \<open>addr x \<notin> fst ` set P\<close> unfolding nodes_ok_def by auto
qed

text \<open>The nodes that depend on no other one in \<open>A\<close>.\<close>

definition roots :: "(nat \<Rightarrow> graph_node) \<Rightarrow> nat set \<Rightarrow> nat set" where
  "roots nds A = {a \<in> A. \<forall>j\<in>A. a \<notin> succ nds j}"

lemma ready_iff:
  assumes "graph_inv nds A [] g"
  shows "addr ` set (ready_nodes g) = roots nds A"
proof -
  have "addr ` set (ready_nodes g) = A - fst ` set (pending g)"
    using assms by (auto simp: graph_inv_def nodes_ok_def)
  then show ?thesis using assms by (auto simp: graph_inv_def roots_def)
qed

lemma graph_inv_take:
  assumes "graph_inv nds A [] g" "i < length (ready_nodes g)"
  shows "ready_nodes g ! i = nds (addr (ready_nodes g ! i))"
    "graph_inv nds (A - {addr (ready_nodes g ! i)}) [] (take_ready i g)"
proof -
  let ?R = "ready_nodes g" and ?x = "ready_nodes g ! i"
  let ?R' = "take i ?R @ drop (Suc i) ?R"
  have "nodes_ok nds A (take i ?R @ ?x # drop (Suc i) ?R) (pending g)"
    using assms by (simp add: graph_inv_def id_take_nth_drop [symmetric])
  from nodes_ok_remove [OF this]
  have x: "nodes_ok nds (A - {addr ?x}) ?R' (pending g)" "?x = nds (addr ?x)" "addr ?x \<in> A"
    "addr ?x \<notin> fst ` set (pending g)" by auto
  show "?x = nds (addr ?x)" by (rule x(2))
  have none: "\<forall>j\<in>A. addr ?x \<notin> succ nds j"
    using assms(1) x(3,4) by (auto simp: graph_inv_def)
  have nx: "next_nodes ?x = next_nodes (nds (addr ?x))" using x(2) by simp
  have "graph_inv nds (A - {addr ?x}) (next_nodes ?x) (g\<lparr>ready_nodes := ?R'\<rparr>)"
    using assms(1) x(1,3) none unfolding graph_inv_def nx by auto
  then show "graph_inv nds (A - {addr ?x}) [] (take_ready i g)"
    unfolding take_ready_def Let_def by (rule graph_inv_release)
qed

text \<open>The orders in which nodes can be executed until none is ready.\<close>

fun schedule :: "(nat \<Rightarrow> graph_node) \<Rightarrow> nat set \<Rightarrow> nat list \<Rightarrow> bool" where
  "schedule nds A [] \<longleftrightarrow> roots nds A = {}"
| "schedule nds A (x # xs) \<longleftrightarrow>
     x \<in> roots nds A \<and> schedule nds (A - {x}) xs"

fun exec_nodes :: "graph_node list \<Rightarrow> kv_map \<Rightarrow> kv_map res" where
  "exec_nodes [] st = Inr st"
| "exec_nodes (nd # nds) st = (case exec_node nd st of Inl f \<Rightarrow> Inl f | Inr st' \<Rightarrow> exec_nodes nds st')"

lemma schedule_exists: "finite A \<Longrightarrow> \<exists>xs. schedule nds A xs"
proof (induction "card A" arbitrary: A)
  case 0
  then have "schedule nds A []" by (simp add: roots_def)
  then show ?case by blast
next
  case (Suc n)
  show ?case
  proof (cases "roots nds A = {}")
    case True
    then have "schedule nds A []" by simp
    then show ?thesis by blast
  next
    case False
    then obtain x where x: "x \<in> roots nds A" by blast
    then have "x \<in> A" by (simp add: roots_def)
    with Suc obtain xs where "schedule nds (A - {x}) xs" by fastforce
    with x have "schedule nds A (x # xs)" by simp
    then show ?thesis by blast
  qed
qed

text \<open>In a graph without cycles the copies have all nodes.\<close>

definition acyclic_rank :: "(nat \<Rightarrow> graph_node) \<Rightarrow> nat set \<Rightarrow> (nat \<Rightarrow> nat) \<Rightarrow> bool" where
  "acyclic_rank nds A rank \<longleftrightarrow> (\<forall>a\<in>A. \<forall>b\<in>succ nds a. rank a < rank b)"

lemma copied_closed:
  fixes keys :: "nat set"
  assumes "\<forall>k\<in>set known. set (next_of g k) \<inter> fst ` set (pending g) \<subseteq> set known \<union> set todo"
  shows "set known \<subseteq> set (copied g known todo) \<and>
    set todo \<inter> fst ` set (pending g) \<subseteq> set (copied g known todo) \<and>
    (\<forall>k\<in>set (copied g known todo). set (next_of g k) \<inter> fst ` set (pending g) \<subseteq> set (copied g known todo))"
  using assms
proof (induction g known todo rule: copied.induct)
  case (2 g known a todo)
  show ?case
  proof (cases "a \<in> set known \<or> a \<notin> fst ` set (pending g)")
    case skip: True
    with "2.prems" have "\<forall>k\<in>set known. set (next_of g k) \<inter> fst ` set (pending g) \<subseteq> set known \<union> set todo"
      by auto
    from "2.IH"(1) [OF skip this] skip show ?thesis by auto
  next
    case new: False
    with "2.prems" have "\<forall>k\<in>set (a # known). set (next_of g k) \<inter> fst ` set (pending g) \<subseteq>
        set (a # known) \<union> set (next_of g a @ todo)" by auto
    from "2.IH"(2) [OF new this] new show ?thesis by auto
  qed
qed auto

lemma deep_copy_id:
  assumes "graph_inv nds A [] g" "acyclic_rank nds A rank"
  shows "deep_copy g = g"
proof -
  let ?start = "concat (map next_nodes (ready_nodes g))" and ?keys = "fst ` set (pending g)"
  define known where "known = copied g [] ?start"
  have closed: "set ?start \<inter> ?keys \<subseteq> set known"
    "\<forall>k\<in>set known. set (next_of g k) \<inter> ?keys \<subseteq> set known"
    using copied_closed [of "[]" g ?start] by (auto simp: known_def)
  have A: "addr ` set (ready_nodes g) \<union> ?keys = A"
    and R: "\<forall>nd\<in>set (ready_nodes g). nd = nds (addr nd)" and P: "\<forall>(a, nd)\<in>set (pending g). nd = nds a"
    and D: "distinct (map fst (pending g))"
    using assms(1) by (auto simp: graph_inv_def nodes_ok_def)
  have next_of: "next_of g a = next_nodes (nds a)" if "a \<in> ?keys" for a
  proof -
    from that obtain nd where nd: "(a, nd) \<in> set (pending g)" by auto
    with P have "nd = nds a" by blast
    with nd D show ?thesis by (simp add: next_of_def)
  qed
  have "a \<in> set known" if "a \<in> ?keys" for a
    using that
  proof (induction "rank a" arbitrary: a rule: less_induct)
    case less
    then have "a \<in> A" using A by auto
    with less.prems assms(1) obtain j where j: "j \<in> A" "a \<in> succ nds j" by (auto simp: graph_inv_def)
    show ?case
    proof (cases "j \<in> ?keys")
      case True
      have "rank j < rank a" using j assms(2) by (simp add: acyclic_rank_def)
      then have "j \<in> set known" using less.hyps True by blast
      moreover have "a \<in> set (next_of g j) \<inter> ?keys" using next_of [OF True] j(2) less.prems by simp
      ultimately show ?thesis using closed(2) by blast
    next
      case False
      with A j obtain nd where "nd \<in> set (ready_nodes g)" "addr nd = j" by auto
      with R j have "a \<in> set ?start" by fastforce
      with closed(1) less.prems show ?thesis by auto
    qed
  qed
  then have "filter (\<lambda>(a, _). a \<in> set known) (pending g) = pending g"
    by (intro filter_True) force
  then show ?thesis by (simp add: deep_copy_def known_def Let_def)
qed

subsection \<open>The results are those of the schedules\<close>

definition outcomes :: "(nat \<Rightarrow> graph_node) \<Rightarrow> nat set \<Rightarrow> kv_map \<Rightarrow> kv_map res set" where
  "outcomes nds A st = {exec_nodes (map nds xs) st | xs. schedule nds A xs}"

definition first_step :: "(nat \<Rightarrow> graph_node) \<Rightarrow> nat set \<Rightarrow> kv_map \<Rightarrow> nat \<Rightarrow> kv_map res set" where
  "first_step nds A st x =
     (case exec_node (nds x) st of Inl f \<Rightarrow> {Inl f} | Inr st' \<Rightarrow> outcomes nds (A - {x}) st')"

lemma outcomes_rec:
  assumes "finite A"
  shows "outcomes nds A st =
    (let R = roots nds A
     in if R = {} then {Inr st} else (\<Union>x\<in>R. first_step nds A st x))"
proof -
  let ?R = "roots nds A"
  have step: "first_step nds A st x = {exec_nodes (map nds (x # xs)) st | xs. schedule nds (A - {x}) xs}" for x
    using schedule_exists [of "A - {x}" nds] assms
    by (auto simp: first_step_def outcomes_def split: sum.split)
  show ?thesis
  proof (cases "?R = {}")
    case True
    have "schedule nds A xs \<longleftrightarrow> xs = []" for xs
      using True by (cases xs) auto
    with True show ?thesis by (simp add: outcomes_def Let_def)
  next
    case False
    have eq: "schedule nds A xs \<longleftrightarrow> (\<exists>x ys. xs = x # ys \<and> x \<in> ?R \<and> schedule nds (A - {x}) ys)" for xs
      using False by (cases xs) auto
    have "outcomes nds A st = (\<Union>x\<in>?R. {exec_nodes (map nds (x # xs)) st | xs. schedule nds (A - {x}) xs})"
      unfolding outcomes_def by (simp only: eq) blast
    with False step show ?thesis by (simp add: Let_def)
  qed
qed

definition matches :: "'a list res \<Rightarrow> 'a res set \<Rightarrow> bool" where
  "matches r out \<longleftrightarrow> (case r of Inl f \<Rightarrow> Inl f \<in> out | Inr xs \<Rightarrow> out = Inr ` set xs)"

lemma matches_concat:
  "list_all2 matches rs outs \<Longrightarrow> matches (concat_res rs) (\<Union>(set outs))"
proof (induction rs outs rule: list_all2_induct)
  case (Cons r rs out outs)
  then show ?case
    by (cases r; cases "concat_res rs") (auto simp: matches_def)
qed (simp add: matches_def)

lemma possible_outcomes:
  assumes "graph_inv nds A [] g" "acyclic_rank nds A rank" "finite A"
  shows "matches (possible g st) (outcomes nds A st)"
  using assms
proof (induction g st arbitrary: A rule: possible.induct)
  case (1 g st)
  let ?R = "ready_nodes g"
  have R: "addr ` set ?R = roots nds A" by (rule ready_iff [OF "1.prems"(1)])
  have copy: "deep_copy g = g" by (rule deep_copy_id [OF "1.prems"(1,2)])
  have rank: "acyclic_rank nds (A - {x}) rank" for x
    using "1.prems"(2) by (simp add: acyclic_rank_def)
  define step where "step i = (case exec_node (?R ! i) st of
      Inl f \<Rightarrow> Inl f | Inr st' \<Rightarrow> possible (take_ready i g) st')" for i
  have step: "matches (step i) (first_step nds A st (addr (?R ! i)))"
    if i: "i < length ?R" and IH: "\<And>st' A'. exec_node (?R ! i) st = Inr st' \<Longrightarrow>
      graph_inv nds A' [] (take_ready i g) \<Longrightarrow> acyclic_rank nds A' rank \<Longrightarrow> finite A' \<Longrightarrow>
      matches (possible (take_ready i g) st') (outcomes nds A' st')" for i
  proof -
    note take = graph_inv_take [OF "1.prems"(1) i]
    have "exec_node (nds (addr (?R ! i))) st = exec_node (?R ! i) st" using take(1) by simp
    with IH [OF _ take(2) rank] "1.prems"(3) show ?thesis
      by (auto simp: step_def first_step_def matches_def [of "Inl _"] split: sum.split)
  qed
  have one_by_one: "matches (concat_res (map step [0..<length ?R]))
      (\<Union>(set (map (\<lambda>i. first_step nds A st (addr (?R ! i))) [0..<length ?R])))"
    if "\<And>i. i < length ?R \<Longrightarrow> matches (step i) (first_step nds A st (addr (?R ! i)))"
    using that by (intro matches_concat) (simp add: list_all2_conv_all_nth)
  have pieces: "set (map (\<lambda>i. first_step nds A st (addr (?R ! i))) [0..<length ?R]) =
      first_step nds A st ` addr ` set ?R"
  proof -
    have "map (\<lambda>i. first_step nds A st (addr (?R ! i))) [0..<length ?R] =
        map (\<lambda>nd. first_step nds A st (addr nd)) ?R" by (rule nth_equalityI) auto
    then show ?thesis by (simp only: set_map image_image)
  qed
  have all: "matches (concat_res (map step [0..<length ?R])) (outcomes nds A st)"
    if "?R \<noteq> []" "\<And>i. i < length ?R \<Longrightarrow> matches (step i) (first_step nds A st (addr (?R ! i)))"
  proof -
    have "roots nds A \<noteq> {}" using R that(1) by auto
    with outcomes_rec [OF "1.prems"(3), of nds st]
    have "outcomes nds A st = \<Union>(first_step nds A st ` addr ` set ?R)" by (simp only: Let_def if_False R)
    with one_by_one [OF that(2)] pieces show ?thesis by simp
  qed
  consider "?R = []" | "length ?R = 1" | "?R \<noteq> []" "length ?R \<noteq> 1" by blast
  then show ?case
  proof cases
    case 1
    with R outcomes_rec [OF "1.prems"(3), of nds st] show ?thesis
      by (simp add: possible.simps matches_def)
  next
    case 2
    have ne: "?R \<noteq> []" "hd ?R = ?R ! 0" using 2 by (cases ?R; auto)+
    have "matches (step 0) (first_step nds A st (addr (?R ! 0)))"
      by (rule step) (use 2 ne "1.IH"(1) [OF ne(1) 2] in auto)
    then have "matches (concat_res (map step [0..<length ?R])) (outcomes nds A st)"
      using all 2 by fastforce
    moreover have "possible g st = step 0"
      using 2 by (auto simp: possible.simps [of g] step_def hd_conv_nth)
    ultimately show ?thesis
      using 2 by (cases "step 0") auto
  next
    case 3
    have "matches (step i) (first_step nds A st (addr (?R ! i)))" if "i < length ?R" for i
      by (rule step [OF that]) (use that copy "1.IH"(2) [OF 3, of i] in auto)
    with all 3 have "matches (concat_res (map step [0..<length ?R])) (outcomes nds A st)" by blast
    moreover have "possible g st = concat_res (map step [0..<length ?R])"
      using 3 by (subst possible.simps)
        (auto simp: copy step_def intro!: arg_cong [of _ _ concat_res] map_cong split: sum.split)
    ultimately show ?thesis by simp
  qed
qed

subsection \<open>Schedules and orders\<close>

text \<open>An order of the nodes \<open>A\<close>: nothing comes before a node it is a successor of.\<close>

definition node_order :: "(nat \<Rightarrow> graph_node) \<Rightarrow> nat set \<Rightarrow> nat list \<Rightarrow> bool" where
  "node_order nds A xs \<longleftrightarrow> distinct xs \<and> set xs = A \<and>
     sorted_wrt (\<lambda>a b. a \<notin> succ nds b) xs \<and> (\<forall>a\<in>A. a \<notin> succ nds a)"

lemma node_order_Cons:
  "node_order nds A (x # xs) \<longleftrightarrow> x \<in> roots nds A \<and> node_order nds (A - {x}) xs"
  by (auto simp: node_order_def roots_def)

lemma node_order_rank:
  assumes "node_order nds A zs"
  shows "acyclic_rank nds A (\<lambda>a. length (takeWhile (\<lambda>b. b \<noteq> a) zs))"
  using assms
proof (induction zs arbitrary: A)
  case (Cons z zs)
  then have z: "z \<in> roots nds A" and IH: "acyclic_rank nds (A - {z}) (\<lambda>a. length (takeWhile (\<lambda>b. b \<noteq> a) zs))"
    by (auto simp: node_order_Cons)
  then show ?case by (auto simp: acyclic_rank_def roots_def)
qed (simp add: node_order_def acyclic_rank_def)

lemma acyclic_roots:
  assumes "acyclic_rank nds A rank" "A \<noteq> {}"
  shows "roots nds A \<noteq> {}"
proof -
  from assms(2) obtain c where "c \<in> A" by blast
  then obtain a where "a \<in> A" "\<forall>b. b \<in> A \<longrightarrow> rank a \<le> rank b"
    using ex_has_least_nat [of "\<lambda>a. a \<in> A" c rank] by blast
  then have "a \<in> roots nds A" using assms(1) by (fastforce simp: roots_def acyclic_rank_def)
  then show ?thesis by blast
qed

lemma schedule_node_order:
  "acyclic_rank nds A rank \<Longrightarrow> schedule nds A xs \<longleftrightarrow> node_order nds A xs"
proof (induction xs arbitrary: A)
  case Nil
  then show ?case using acyclic_roots [of nds A rank] by (auto simp: node_order_def roots_def)
next
  case (Cons x xs)
  have "acyclic_rank nds (A - {x}) rank" using Cons.prems by (simp add: acyclic_rank_def)
  with Cons.IH show ?case by (simp add: node_order_Cons)
qed

lemma node_order_remove:
  assumes "node_order nds A zs" "x \<in> A"
  shows "node_order nds (A - {x}) (remove1 x zs)"
  using assms
  by (auto simp: node_order_def distinct_remove1_removeAll removeAll_filter_not_eq sorted_wrt_filter)

subsection \<open>A single worker\<close>

text \<open>A thread that takes ready nodes until there are none left: the nodes in its order, or
  \<open>None\<close> when it waits for ever.\<close>

lemma alive_get_ready:
  "get_ready g = Some (Some nd, g') \<Longrightarrow> alive (release (next_nodes nd) g') < alive g"
proof -
  assume "get_ready g = Some (Some nd, g')"
  then have "alive g' < alive g" by (auto simp: get_ready_def alive_def split: list.splits if_splits)
  with alive_release [of "next_nodes nd" g'] show ?thesis by simp
qed

function worker :: "txn_graph \<Rightarrow> nat list option" where
  "worker g =
     (case get_ready g of
        None \<Rightarrow> None
      | Some (None, _) \<Rightarrow> Some []
      | Some (Some nd, g') \<Rightarrow> map_option ((#) (addr nd)) (worker (release (next_nodes nd) g')))"
  by pat_completeness auto
termination
  by (relation "measure alive") (auto dest: alive_get_ready)

declare worker.simps [simp del]

lemma release_remaining [simp]:
  "remaining_nodes (release as g) = remaining_nodes g"
  by (induction as g rule: release.induct) (auto simp: add_to_ready_def split: option.split)

lemma add_to_ready_remaining:
  "add_to_ready a (g\<lparr>remaining_nodes := r\<rparr>) = (add_to_ready a g)\<lparr>remaining_nodes := r\<rparr>"
  by (simp add: add_to_ready_def split: option.split)

lemma release_set_remaining:
  "release as (g\<lparr>remaining_nodes := r\<rparr>) = (release as g)\<lparr>remaining_nodes := r\<rparr>"
proof (induction as g rule: release.induct)
  case (2 a held g)
  have "owners (g\<lparr>remaining_nodes := r\<rparr>) held a = owners g held a" by (simp add: owners_def)
  with 2 show ?case by (cases "owners g held a = 0") (simp_all add: add_to_ready_remaining)
qed simp

lemma graph_inv_remaining [simp]:
  "graph_inv nds A held (g\<lparr>remaining_nodes := r\<rparr>) = graph_inv nds A held g"
  by (simp add: graph_inv_def)

lemma worker_order:
  assumes "graph_inv nds A [] g" "finite A" "remaining_nodes g = word_of_nat (card A)" "card A < 2 ^ 64"
  shows "(case worker g of
      Some xs \<Rightarrow> node_order nds A xs
    | None \<Rightarrow> (\<forall>xs. \<not> node_order nds A xs))"
  using assms
proof (induction g arbitrary: A rule: worker.induct)
  case (1 g)
  let ?R = "ready_nodes g"
  have R: "addr ` set ?R = roots nds A" by (rule ready_iff [OF "1.prems"(1)])
  have zero: "remaining_nodes g = 0 \<longleftrightarrow> A = {}"
  proof -
    have "unat (remaining_nodes g) = card A" using "1.prems"(3,4) by (simp add: unat_of_nat)
    with "1.prems"(2) show ?thesis by (metis card_0_eq unat_0 word_unat_eq_iff)
  qed
  show ?case
  proof (cases ?R)
    case Nil
    then have "roots nds A = {}" using R by simp
    then have none: "node_order nds A xs \<longleftrightarrow> xs = [] \<and> A = {}" for xs
      by (cases xs) (simp_all add: node_order_Cons, auto simp: node_order_def)
    show ?thesis
      using Nil none [of "[]"] none zero by (auto simp: worker.simps [of g] get_ready_def)
  next
    case (Cons nd nds')
    let ?g = "g\<lparr>ready_nodes := nds', remaining_nodes := remaining_nodes g - 1\<rparr>"
    let ?x = "addr nd"
    have step: "get_ready g = Some (Some nd, ?g)" using Cons by (simp add: get_ready_def)
    have "release (next_nodes nd) ?g = (take_ready 0 g)\<lparr>remaining_nodes := remaining_nodes g - 1\<rparr>"
      using Cons release_set_remaining [where as = "next_nodes nd" and g = "g\<lparr>ready_nodes := nds'\<rparr>"]
      by (simp add: take_ready_def)
    moreover have "graph_inv nds (A - {?x}) [] (take_ready 0 g)"
      using graph_inv_take(2) [OF "1.prems"(1), of 0] Cons by simp
    ultimately have inv: "graph_inv nds (A - {?x}) [] (release (next_nodes nd) ?g)" by simp
    have x: "?x \<in> roots nds A" using R Cons by auto
    then have "?x \<in> A" by (simp add: roots_def)
    with "1.prems"(2) have card: "card A = Suc (card (A - {?x}))" by (rule card.remove)
    have rest: "case worker (release (next_nodes nd) ?g) of
        Some xs \<Rightarrow> node_order nds (A - {?x}) xs
      | None \<Rightarrow> \<forall>xs. \<not> node_order nds (A - {?x}) xs"
      using "1.prems" card by (intro "1.IH" [OF step refl refl inv]) simp_all
    have w: "worker g = map_option ((#) ?x) (worker (release (next_nodes nd) ?g))"
      using step by (simp add: worker.simps [of g])
    show ?thesis
    proof (cases "worker (release (next_nodes nd) ?g)")
      case None
      have "?x \<in> A" using x by (simp add: roots_def)
      with rest None show ?thesis by (auto simp: w dest: node_order_remove)
    next
      case (Some xs)
      with rest x show ?thesis by (simp add: w node_order_Cons)
    qed
  qed
qed

subsection \<open>What the parser builds\<close>

text \<open>A trace whose transactions have different ids, depend on transactions of the trace and use
  the operations of the format.\<close>

definition well_formed :: "txn list \<Rightarrow> bool" where
  "well_formed ts \<longleftrightarrow> distinct (map t_id ts) \<and>
     (\<forall>t\<in>set ts. set (depends_on t) \<subseteq> t_id ` set ts \<and> (\<forall>c\<in>set (t_cmds t). kv_op c < 20))"

definition parsed_cmd :: "kv_command \<Rightarrow> txn_cmd" where
  "parsed_cmd c = \<lparr>c_op = op_types ! kv_op c, c_key = 0, c_value = kv_value c\<rparr>"

lemma parse_cmds_ok: "\<forall>c\<in>set cs. kv_op c < 20 \<Longrightarrow> parse_cmds cs = Inr (map parsed_cmd cs)"
  by (induction cs) (simp_all add: op_type_map_def op_types_def parsed_cmd_def convert_key_to_int_def)

text \<open>The node of a transaction before the links are made.\<close>

definition bare_node :: "nat \<Rightarrow> txn \<Rightarrow> graph_node" where
  "bare_node a t = \<lparr>addr = a, node_id = 0, is_txn = t_is_txn t, cmds = map parsed_cmd (t_cmds t),
     next_nodes = []\<rparr>"

definition node_entries :: "nat \<Rightarrow> txn list \<Rightarrow> node_map" where
  "node_entries a ts = map (\<lambda>(i, t). (t_id t, i, depends_on t)) (enumerate a ts)"

lemma node_entries_simps [simp]:
  "node_entries a [] = []"
  "node_entries a (t # ts) = (t_id t, a, depends_on t) # node_entries (Suc a) ts"
  by (simp_all add: node_entries_def)

lemma update_fresh: "k \<notin> fst ` set m \<Longrightarrow> AList.update k v m = m @ [(k, v)]"
  by (induction m) auto

lemma make_nodes_ok:
  assumes "distinct (map t_id ts)" "t_id ` set ts \<inter> fst ` set nodes = {}"
    and "\<forall>t\<in>set ts. \<forall>c\<in>set (t_cmds t). kv_op c < 20"
  shows "make_nodes a ts nodes g = Inr (nodes @ node_entries a ts,
    g\<lparr>pending := pending g @ map (\<lambda>(i, t). (i, bare_node i t)) (enumerate a ts)\<rparr>)"
  using assms
proof (induction ts arbitrary: a nodes g)
  case (Cons t ts)
  let ?g = "g\<lparr>pending := pending g @ [(a, bare_node a t)]\<rparr>"
  have new: "t_id t \<notin> fst ` set nodes" using Cons.prems(2) by auto
  then have "map_of nodes (t_id t) = None" by (simp add: map_of_eq_None_iff)
  moreover have "make_nodes (Suc a) ts (nodes @ [(t_id t, a, depends_on t)]) ?g =
      Inr ((nodes @ [(t_id t, a, depends_on t)]) @ node_entries (Suc a) ts,
        ?g\<lparr>pending := pending ?g @ map (\<lambda>(i, t). (i, bare_node i t)) (enumerate (Suc a) ts)\<rparr>)"
    using Cons.prems by (intro Cons.IH) auto
  ultimately show ?case
    using new Cons.prems(3) by (simp add: parse_cmds_ok update_fresh bare_node_def [symmetric])
qed simp

text \<open>Links added to the nodes of a list.\<close>

definition linked :: "(nat \<Rightarrow> nat list) \<Rightarrow> (nat \<times> graph_node) list \<Rightarrow> (nat \<times> graph_node) list" where
  "linked f P = map (\<lambda>(b, nd). (b, nd\<lparr>next_nodes := next_nodes nd @ f b\<rparr>)) P"

lemma linked_linked [simp]: "linked g (linked f P) = linked (\<lambda>b. f b @ g b) P"
  by (auto simp: linked_def)

lemma linked_none [simp]: "linked (\<lambda>b. []) P = P"
  by (auto simp: linked_def)

definition handle_of :: "node_map \<Rightarrow> nat \<Rightarrow> nat" where
  "handle_of nodes d = fst (the (map_of nodes d))"

lemma push_next_ok:
  assumes "d \<in> fst ` set nodes"
  shows "push_next nodes a d g =
    Inr (g\<lparr>pending := linked (\<lambda>b. if b = handle_of nodes d then [a] else []) (pending g)\<rparr>)"
proof -
  from assms obtain x where "map_of nodes d = Some x" by (metis map_of_eq_None_iff not_None_eq)
  moreover have "map (\<lambda>(b, nd). (b, if b = c then nd\<lparr>next_nodes := next_nodes nd @ [a]\<rparr> else nd)) P =
      linked (\<lambda>b. if b = c then [a] else []) P" for c P
    by (auto simp: linked_def)
  ultimately show ?thesis
    by (cases x) (simp add: push_next_def handle_of_def)
qed

lemma push_all_ok:
  "set ds \<subseteq> fst ` set nodes \<Longrightarrow> push_all nodes a ds g =
    Inr (g\<lparr>pending := linked (\<lambda>b. map (\<lambda>_. a) (filter (\<lambda>d. b = handle_of nodes d) ds)) (pending g)\<rparr>)"
proof (induction ds arbitrary: g)
  case (Cons d ds)
  have "linked (\<lambda>b. (if b = handle_of nodes d then [a] else []) @
      map (\<lambda>_. a) (filter (\<lambda>d. b = handle_of nodes d) ds)) (pending g) =
    linked (\<lambda>b. map (\<lambda>_. a) (filter (\<lambda>d. b = handle_of nodes d) (d # ds))) (pending g)"
    by (intro arg_cong2 [of _ _ _ _ linked]) auto
  with Cons show ?case by (simp add: push_next_ok)
qed simp

definition links :: "node_map \<Rightarrow> node_map \<Rightarrow> nat \<Rightarrow> nat list" where
  "links nodes es b =
     concat (map (\<lambda>(_, a, ds). map (\<lambda>_. a) (filter (\<lambda>d. b = handle_of nodes d) ds)) es)"

lemma link_nodes_ok:
  "\<forall>(_, _, ds)\<in>set es. set ds \<subseteq> fst ` set nodes \<Longrightarrow>
    link_nodes nodes es g = Inr (g\<lparr>pending := linked (links nodes es) (pending g)\<rparr>)"
proof (induction es arbitrary: g)
  case Nil
  then show ?case by (simp add: links_def)
next
  case (Cons e es)
  obtain k a ds where e: "e = (k, a, ds)" by (cases e)
  have "links nodes (e # es) =
      (\<lambda>b. map (\<lambda>_. a) (filter (\<lambda>d. b = handle_of nodes d) ds) @ links nodes es b)"
    by (rule ext) (simp add: links_def e)
  with Cons e show ?case by (simp add: push_all_ok)
qed

definition nodes_of :: "txn list \<Rightarrow> nat \<Rightarrow> graph_node" where
  "nodes_of ts a =
     (bare_node a (ts ! a))\<lparr>next_nodes := links (node_entries 0 ts) (node_entries 0 ts) a\<rparr>"

lemma node_entries_eq:
  "node_entries 0 ts = map (\<lambda>i. (t_id (ts ! i), i, depends_on (ts ! i))) [0..<length ts]"
  by (rule nth_equalityI) (simp_all add: node_entries_def nth_enumerate_eq)

lemma handle_of_entry:
  assumes "distinct (map t_id ts)" "c < length ts"
  shows "handle_of (node_entries 0 ts) (t_id (ts ! c)) = c"
proof -
  have "map fst (node_entries 0 ts) = map t_id ts"
    by (rule nth_equalityI) (simp_all add: node_entries_eq)
  then have "map_of (node_entries 0 ts) (t_id (ts ! c)) = Some (c, depends_on (ts ! c))"
    using assms by (intro map_of_is_SomeI) (auto simp: node_entries_eq)
  then show ?thesis by (simp add: handle_of_def)
qed

lemma entry_ids: "fst ` set (node_entries 0 ts) = t_id ` set ts"
  by (force simp: node_entries_eq in_set_conv_nth)

lemma entries_closed:
  "well_formed ts \<Longrightarrow>
    \<forall>(_, _, ds)\<in>set (node_entries 0 ts). set ds \<subseteq> fst ` set (node_entries 0 ts)"
  unfolding entry_ids by (auto simp: node_entries_eq well_formed_def)

lemma mem_links:
  "b \<in> set (links E (node_entries 0 ts) a) \<longleftrightarrow>
    b < length ts \<and> (\<exists>d\<in>set (depends_on (ts ! b)). a = handle_of E d)"
  by (auto simp: links_def node_entries_eq)

lemma succ_iff:
  assumes "well_formed ts" "a < length ts"
  shows "b \<in> succ (nodes_of ts) a \<longleftrightarrow> b < length ts \<and> t_id (ts ! a) \<in> set (depends_on (ts ! b))"
proof -
  have dist: "distinct (map t_id ts)" using assms(1) by (simp add: well_formed_def)
  have handle: "a = handle_of (node_entries 0 ts) d \<longleftrightarrow> d = t_id (ts ! a)"
    if "b < length ts" "d \<in> set (depends_on (ts ! b))" for d
  proof -
    have "d \<in> t_id ` set ts" using assms(1) that nth_mem unfolding well_formed_def by blast
    then obtain c where c: "c < length ts" "d = t_id (ts ! c)" by (auto simp: in_set_conv_nth)
    moreover have "t_id (ts ! c) = t_id (ts ! a) \<longleftrightarrow> c = a"
      using dist c(1) assms(2) by (auto simp: distinct_conv_nth)
    ultimately show ?thesis using handle_of_entry [OF dist c(1)] by auto
  qed
  have "(\<exists>d\<in>set (depends_on (ts ! b)). a = handle_of (node_entries 0 ts) d) \<longleftrightarrow>
      (\<exists>d\<in>set (depends_on (ts ! b)). d = t_id (ts ! a))" if "b < length ts"
    by (rule bex_cong [OF refl]) (rule handle [OF that])
  moreover have "succ (nodes_of ts) a = set (links (node_entries 0 ts) (node_entries 0 ts) a)"
    by (simp add: nodes_of_def)
  ultimately show ?thesis unfolding mem_links bex_simps(7) by (auto simp: mem_links)
qed

lemma parse_ok:
  assumes "well_formed ts"
  shows "\<exists>g. parse_txn_trace (Some ts) = Inr g \<and> graph_inv (nodes_of ts) {..<length ts} [] g \<and>
    remaining_nodes g = word_of_nat (length ts)"
proof -
  let ?E = "node_entries 0 ts" and ?n = "length ts"
  let ?P = "map (\<lambda>(i, t). (i, bare_node i t)) (enumerate 0 ts)"
  let ?g = "empty_graph\<lparr>pending := linked (links ?E ?E) ?P, num_nodes := ?n, remaining_nodes := word_of_nat ?n\<rparr>"
  have made: "make_nodes 0 ts [] empty_graph = Inr (?E, empty_graph\<lparr>pending := ?P\<rparr>)"
    using make_nodes_ok [of ts "[]" 0 empty_graph] assms
    by (simp add: well_formed_def empty_graph_def)
  have "link_nodes ?E ?E (empty_graph\<lparr>pending := ?P\<rparr>) =
      Inr (empty_graph\<lparr>pending := linked (links ?E ?E) ?P\<rparr>)"
    using link_nodes_ok [OF entries_closed [OF assms]] by (simp del: split_paired_All)
  moreover have "map (\<lambda>(_, a, _). a) ?E = [0..<?n]" "length ?E = ?n"
    by (auto simp: node_entries_eq comp_def map_idI)
  ultimately have parsed: "parse_txn_trace (Some ts) = Inr (release [0..<?n] ?g)"
    using made by (simp add: parse_txn_trace_def)
  have P: "linked (links ?E ?E) ?P = map (\<lambda>i. (i, nodes_of ts i)) [0..<?n]"
    by (rule nth_equalityI) (simp_all add: linked_def nodes_of_def bare_node_def nth_enumerate_eq)
  have "nodes_ok (nodes_of ts) {..<?n} [] (map (\<lambda>i. (i, nodes_of ts i)) [0..<?n])"
    by (auto simp: nodes_ok_def comp_def image_image)
  moreover have "succ (nodes_of ts) a \<subseteq> {..<?n}" if "a < ?n" for a
    using succ_iff [OF assms that] by auto
  moreover have "addr (nodes_of ts a) = a" for a
    by (simp add: nodes_of_def bare_node_def)
  moreover have "pending ?g = map (\<lambda>i. (i, nodes_of ts i)) [0..<?n]" "ready_nodes ?g = []"
    by (simp_all add: P empty_graph_def)
  ultimately have "graph_inv (nodes_of ts) {..<?n} [0..<?n] ?g"
    unfolding graph_inv_def by (simp only:) (simp add: image_image Ball_def subset_iff)
  from graph_inv_release [OF this] parsed show ?thesis by simp
qed

text \<open>The orders of a trace: all transactions, none of them before one it depends on.\<close>

definition txn_order :: "txn list \<Rightarrow> nat list \<Rightarrow> bool" where
  "txn_order ts xs \<longleftrightarrow> distinct xs \<and> set xs = {..<length ts} \<and>
     sorted_wrt (\<lambda>a b. t_id (ts ! b) \<notin> set (depends_on (ts ! a))) xs \<and>
     (\<forall>a<length ts. t_id (ts ! a) \<notin> set (depends_on (ts ! a)))"

lemma node_order_txn:
  assumes "well_formed ts"
  shows "node_order (nodes_of ts) {..<length ts} xs \<longleftrightarrow> txn_order ts xs"
proof -
  have "sorted_wrt (\<lambda>a b. a \<notin> succ (nodes_of ts) b) xs \<longleftrightarrow>
      sorted_wrt (\<lambda>a b. t_id (ts ! b) \<notin> set (depends_on (ts ! a))) xs"
    if "set xs = {..<length ts}"
    using that succ_iff [OF assms] by (auto elim!: sorted_wrt_mono_rel [rotated])
  then show ?thesis using succ_iff [OF assms] by (auto simp: node_order_def txn_order_def)
qed

text \<open>The commands of the transactions one after the other, aborted ones and those that are no
  transactions included.\<close>

fun run_txns :: "txn list \<Rightarrow> kv_map \<Rightarrow> kv_map res" where
  "run_txns [] st = Inr st"
| "run_txns (t # ts) st =
     (case exec_cmds (map parsed_cmd (t_cmds t)) st of Inl f \<Rightarrow> Inl f | Inr st' \<Rightarrow> run_txns ts st')"

lemma exec_nodes_txns: "exec_nodes (map (nodes_of ts) xs) st = run_txns (map ((!) ts) xs) st"
  by (induction xs arbitrary: st)
     (simp_all add: exec_node_def nodes_of_def bare_node_def split: sum.split)

text \<open>A trace of two transactions, the second dependent on the first.\<close>

definition two_txns :: "txn list" where
  "two_txns =
     [\<lparr>t_is_txn = True, t_id = 7, depends_on = [],
       t_cmds = [\<lparr>kv_op = 8, kv_key = ''1'', kv_value = ''5''\<rparr>]\<rparr>,
      \<lparr>t_is_txn = True, t_id = 9, depends_on = [7],
       t_cmds = [\<lparr>kv_op = 8, kv_key = ''1'', kv_value = ''6''\<rparr>]\<rparr>]"

lemma two_txns_ok: "well_formed two_txns \<and> txn_order two_txns [0, 1]"
  by (auto simp: two_txns_def well_formed_def txn_order_def less_Suc_eq lessThan_Suc)

text \<open>C6: the exploration is exact. For a well-formed trace without cyclic dependencies
  \<open>get_possible_results\<close> returns the final states of the sequential runs of the transactions
  in all orders that respect the dependencies, and nothing else; it faults exactly when it
  comes to a run that does.\<close>

theorem possible_results_exact:
  assumes "well_formed ts" "txn_order ts zs"
  shows "\<exists>g. parse_txn_trace (Some ts) = Inr g \<and>
    (case get_possible_results g of
       Inr results \<Rightarrow> {run_txns (map ((!) ts) xs) Map.empty | xs. txn_order ts xs} = Inr ` set results
     | Inl f \<Rightarrow> Inl f \<in> {run_txns (map ((!) ts) xs) Map.empty | xs. txn_order ts xs})"
proof -
  obtain g where g: "parse_txn_trace (Some ts) = Inr g" "graph_inv (nodes_of ts) {..<length ts} [] g"
    using parse_ok [OF assms(1)] by blast
  obtain rank where rank: "acyclic_rank (nodes_of ts) {..<length ts} rank"
    using node_order_rank node_order_txn [OF assms(1)] assms(2) by blast
  have "outcomes (nodes_of ts) {..<length ts} Map.empty =
      {run_txns (map ((!) ts) xs) Map.empty | xs. txn_order ts xs}"
    by (simp add: outcomes_def schedule_node_order [OF rank] node_order_txn [OF assms(1)] exec_nodes_txns)
  with possible_outcomes [OF g(2) rank, of Map.empty] deep_copy_id [OF g(2) rank] g(1) show ?thesis
    by (auto simp: get_possible_results_def matches_def split: sum.splits)
qed

theorem possible_results_exact_witness:
  "\<exists>g. parse_txn_trace (Some two_txns) = Inr g \<and>
    (case get_possible_results g of
       Inr results \<Rightarrow> {run_txns (map ((!) two_txns) xs) Map.empty | xs. txn_order two_txns xs} = Inr ` set results
     | Inl f \<Rightarrow> Inl f \<in> {run_txns (map ((!) two_txns) xs) Map.empty | xs. txn_order two_txns xs})"
  using possible_results_exact [of two_txns "[0, 1]"] two_txns_ok by blast

text \<open>C12: a worker that takes the ready nodes one by one ends with all transactions in an order
  that respects the dependencies if there is one, and waits for ever when the dependencies
  are cyclic: \<open>remaining_nodes\<close> then never reaches 0.\<close>

theorem worker_complete:
  assumes "well_formed ts" "length ts < 2 ^ 64"
  shows "\<exists>g. parse_txn_trace (Some ts) = Inr g \<and>
    (case worker g of Some xs \<Rightarrow> txn_order ts xs | None \<Rightarrow> \<not> (\<exists>xs. txn_order ts xs))"
proof -
  obtain g where g: "parse_txn_trace (Some ts) = Inr g" "graph_inv (nodes_of ts) {..<length ts} [] g"
    "remaining_nodes g = word_of_nat (length ts)"
    using parse_ok [OF assms(1)] by blast
  from worker_order [OF g(2)] g(1,3) assms(2) show ?thesis
    by (simp add: node_order_txn [OF assms(1)] split: option.splits)
qed

theorem worker_complete_witness:
  "\<exists>g. parse_txn_trace (Some two_txns) = Inr g \<and>
    (case worker g of Some xs \<Rightarrow> txn_order two_txns xs | None \<Rightarrow> \<not> (\<exists>xs. txn_order two_txns xs))"
  using two_txns_ok by (intro worker_complete) (simp_all add: two_txns_def)

end
