(* ===== verification/Coding.thy ===== *)
theory Coding
  imports Prelude
begin

section \<open>RocksDB: the encoding of numbers and strings\<close>

text \<open>
  \<open>util/coding.h\<close> and \<open>util/coding.cc\<close> of the RocksDB that the servers link. All files of the
  database are made of these encodings: fixed-width numbers with the least significant byte
  first, variable-length numbers (\<open>varint\<close>) of 7 bits per byte, and strings with their length
  in front. Here a byte is an \<open>8 word\<close>, because the code computes with bytes; a \<open>Slice\<close> is a
  list of bytes, and a function that parses the front of one returns what is left of it. \<open>le\<close>
  is \<open>port::kLittleEndian\<close>, the byte order of the machine.
\<close>

type_synonym byte = "8 word"
type_synonym u64 = "64 word"
type_synonym slice = "byte list"


subsection \<open>Numbers in memory\<close>

fun le_bytes :: "nat \<Rightarrow> 'a::len word \<Rightarrow> byte list" where
  "le_bytes 0 v = []"
| "le_bytes (Suc n) v = ucast v # le_bytes n (drop_bit 8 v)"

fun of_le :: "byte list \<Rightarrow> 'a::len word" where
  "of_le [] = 0"
| "of_le (b # bs) = ucast b OR push_bit 8 (of_le bs)"

text \<open>What \<open>memcpy\<close> from and to a number of \<open>n\<close> bytes moves.\<close>

definition mem_bytes :: "bool \<Rightarrow> nat \<Rightarrow> 'a::len word \<Rightarrow> byte list" where
  "mem_bytes le n v = (if le then le_bytes n v else rev (le_bytes n v))"

definition of_mem :: "bool \<Rightarrow> byte list \<Rightarrow> 'a::len word" where
  "of_mem le bs = of_le (if le then bs else rev bs)"

subsection \<open>Fixed-width numbers\<close>

definition EncodeFixed32 :: "bool \<Rightarrow> u32 \<Rightarrow> byte list" where
  "EncodeFixed32 le value =
     (if le then mem_bytes le 4 value
      else [ucast (value AND 0xff), ucast (drop_bit 8 value AND 0xff),
            ucast (drop_bit 16 value AND 0xff), ucast (drop_bit 24 value AND 0xff)])"

definition EncodeFixed64 :: "bool \<Rightarrow> u64 \<Rightarrow> byte list" where
  "EncodeFixed64 le value =
     (if le then mem_bytes le 8 value
      else [ucast (value AND 0xff), ucast (drop_bit 8 value AND 0xff),
            ucast (drop_bit 16 value AND 0xff), ucast (drop_bit 24 value AND 0xff),
            ucast (drop_bit 32 value AND 0xff), ucast (drop_bit 40 value AND 0xff),
            ucast (drop_bit 48 value AND 0xff), ucast (drop_bit 56 value AND 0xff)])"

text \<open>The decoders do not check bounds: with fewer bytes they read beyond the buffer.\<close>

definition DecodeFixed32 :: "bool \<Rightarrow> byte list \<Rightarrow> u32 res" where
  "DecodeFixed32 le ptr =
     (if length ptr < 4 then Inl Out_Of_Range
      else Inr (if le then of_mem le (take 4 ptr)
                else ucast (ptr ! 0) OR push_bit 8 (ucast (ptr ! 1)) OR
                     push_bit 16 (ucast (ptr ! 2)) OR push_bit 24 (ucast (ptr ! 3))))"

definition DecodeFixed64 :: "bool \<Rightarrow> byte list \<Rightarrow> u64 res" where
  "DecodeFixed64 le ptr =
     (if length ptr < 8 then Inl Out_Of_Range
      else if le then Inr (of_mem le (take 8 ptr))
      else (case (DecodeFixed32 le ptr, DecodeFixed32 le (drop 4 ptr)) of
              (Inr lo, Inr hi) \<Rightarrow> Inr (push_bit 32 (ucast hi) OR ucast lo)
            | _ \<Rightarrow> Inl Out_Of_Range))"

definition PutFixed32 :: "bool \<Rightarrow> slice \<Rightarrow> u32 \<Rightarrow> slice" where
  "PutFixed32 le dst value = (if le then dst @ mem_bytes le 4 value else dst @ EncodeFixed32 le value)"

definition PutFixed64 :: "bool \<Rightarrow> slice \<Rightarrow> u64 \<Rightarrow> slice" where
  "PutFixed64 le dst value = (if le then dst @ mem_bytes le 8 value else dst @ EncodeFixed64 le value)"

text \<open>\<open>None\<close> is the result \<open>false\<close>; nothing is taken from the input then.\<close>

definition GetFixed32 :: "bool \<Rightarrow> slice \<Rightarrow> (u32 \<times> slice) option" where
  "GetFixed32 le input =
     (if length input < 4 then None
      else (case DecodeFixed32 le input of Inr v \<Rightarrow> Some (v, drop 4 input) | Inl _ \<Rightarrow> None))"

definition GetFixed64 :: "bool \<Rightarrow> slice \<Rightarrow> (u64 \<times> slice) option" where
  "GetFixed64 le input =
     (if length input < 8 then None
      else (case DecodeFixed64 le input of Inr v \<Rightarrow> Some (v, drop 8 input) | Inl _ \<Rightarrow> None))"

subsection \<open>Variable-length numbers\<close>

definition EncodeVarint32 :: "u32 \<Rightarrow> byte list" where
  "EncodeVarint32 v =
     (let B = 128 in
      if v < push_bit 7 1 then [ucast v]
      else if v < push_bit 14 1 then [ucast (v OR B), ucast (drop_bit 7 v)]
      else if v < push_bit 21 1 then
        [ucast (v OR B), ucast (drop_bit 7 v OR B), ucast (drop_bit 14 v)]
      else if v < push_bit 28 1 then
        [ucast (v OR B), ucast (drop_bit 7 v OR B), ucast (drop_bit 14 v OR B), ucast (drop_bit 21 v)]
      else
        [ucast (v OR B), ucast (drop_bit 7 v OR B), ucast (drop_bit 14 v OR B),
         ucast (drop_bit 21 v OR B), ucast (drop_bit 28 v)])"

lemma shift_decreases: "128 \<le> v \<Longrightarrow> unat (drop_bit 7 v) < unat (v :: u64)"
  by (simp add: word_le_nat_alt unat_drop_bit_eq drop_bit_nat_def)

function EncodeVarint64 :: "u64 \<Rightarrow> byte list" where
  "EncodeVarint64 v =
     (if 128 \<le> v then ucast (v AND (128 - 1) OR 128) # EncodeVarint64 (drop_bit 7 v) else [ucast v])"
  by pat_completeness auto
termination by (relation "measure unat") (simp_all add: shift_decreases)

function VarintLength :: "u64 \<Rightarrow> nat" where
  "VarintLength v = (if 128 \<le> v then Suc (VarintLength (drop_bit 7 v)) else 1)"
  by pat_completeness auto
termination by (relation "measure unat") (simp_all add: shift_decreases)

declare EncodeVarint64.simps [simp del] VarintLength.simps [simp del]

text \<open>The encoders write to an array on the stack whose first bytes are then appended.\<close>

definition append_buf :: "nat \<Rightarrow> slice \<Rightarrow> byte list \<Rightarrow> slice res" where
  "append_buf cap dst written =
     (if cap < length written then Inl Out_Of_Range else Inr (dst @ written))"

definition PutVarint32 :: "slice \<Rightarrow> u32 \<Rightarrow> slice res" where
  "PutVarint32 dst v = append_buf 5 dst (EncodeVarint32 v)"

definition PutVarint32Varint32 :: "slice \<Rightarrow> u32 \<Rightarrow> u32 \<Rightarrow> slice res" where
  "PutVarint32Varint32 dst v1 v2 = append_buf 10 dst (EncodeVarint32 v1 @ EncodeVarint32 v2)"

definition PutVarint32Varint32Varint32 :: "slice \<Rightarrow> u32 \<Rightarrow> u32 \<Rightarrow> u32 \<Rightarrow> slice res" where
  "PutVarint32Varint32Varint32 dst v1 v2 v3 =
     append_buf 15 dst (EncodeVarint32 v1 @ EncodeVarint32 v2 @ EncodeVarint32 v3)"

definition PutVarint64 :: "slice \<Rightarrow> u64 \<Rightarrow> slice res" where
  "PutVarint64 dst v = append_buf 10 dst (EncodeVarint64 v)"

definition PutVarint64Varint64 :: "slice \<Rightarrow> u64 \<Rightarrow> u64 \<Rightarrow> slice res" where
  "PutVarint64Varint64 dst v1 v2 = append_buf 20 dst (EncodeVarint64 v1 @ EncodeVarint64 v2)"

definition PutVarint32Varint64 :: "slice \<Rightarrow> u32 \<Rightarrow> u64 \<Rightarrow> slice res" where
  "PutVarint32Varint64 dst v1 v2 = append_buf 15 dst (EncodeVarint32 v1 @ EncodeVarint64 v2)"

definition PutVarint32Varint32Varint64 :: "slice \<Rightarrow> u32 \<Rightarrow> u32 \<Rightarrow> u64 \<Rightarrow> slice res" where
  "PutVarint32Varint32Varint64 dst v1 v2 v3 =
     append_buf 20 dst (EncodeVarint32 v1 @ EncodeVarint32 v2 @ EncodeVarint64 v3)"

text \<open>The decoders: the value and what follows it, or the null pointer.\<close>

fun GetVarint32PtrFallback_loop :: "nat \<Rightarrow> u32 \<Rightarrow> slice \<Rightarrow> (u32 \<times> slice) option" where
  "GetVarint32PtrFallback_loop shift result [] = None"
| "GetVarint32PtrFallback_loop shift result (b # p) =
     (if 28 < shift then None
      else (let byte = ucast b :: u32 in
        if byte AND 128 \<noteq> 0
        then GetVarint32PtrFallback_loop (shift + 7) (result OR push_bit shift (byte AND 127)) p
        else Some (result OR push_bit shift byte, p)))"

definition GetVarint32PtrFallback :: "slice \<Rightarrow> (u32 \<times> slice) option" where
  "GetVarint32PtrFallback = GetVarint32PtrFallback_loop 0 0"

definition GetVarint32Ptr :: "slice \<Rightarrow> (u32 \<times> slice) option" where
  "GetVarint32Ptr p =
     (case p of
        b # p' \<Rightarrow>
          (let result = ucast b :: u32 in
           if result AND 128 = 0 then Some (result, p') else GetVarint32PtrFallback p)
      | [] \<Rightarrow> GetVarint32PtrFallback p)"

fun GetVarint64Ptr_loop :: "nat \<Rightarrow> u64 \<Rightarrow> slice \<Rightarrow> (u64 \<times> slice) option" where
  "GetVarint64Ptr_loop shift result [] = None"
| "GetVarint64Ptr_loop shift result (b # p) =
     (if 63 < shift then None
      else (let byte = ucast b :: u64 in
        if byte AND 128 \<noteq> 0
        then GetVarint64Ptr_loop (shift + 7) (result OR push_bit shift (byte AND 127)) p
        else Some (result OR push_bit shift byte, p)))"

definition GetVarint64Ptr :: "slice \<Rightarrow> (u64 \<times> slice) option" where
  "GetVarint64Ptr = GetVarint64Ptr_loop 0 0"

definition GetVarint32 :: "slice \<Rightarrow> (u32 \<times> slice) option" where
  "GetVarint32 input = GetVarint32Ptr input"

definition GetVarint64 :: "slice \<Rightarrow> (u64 \<times> slice) option" where
  "GetVarint64 input = GetVarint64Ptr input"

subsection \<open>Strings\<close>

text \<open>The size is cast to 32 bits.\<close>

definition PutLengthPrefixedSlice :: "slice \<Rightarrow> slice \<Rightarrow> slice res" where
  "PutLengthPrefixedSlice dst value =
     map_sum id (\<lambda>d. d @ value) (PutVarint32 dst (word_of_nat (length value)))"

definition PutLengthPrefixedSliceParts :: "slice \<Rightarrow> slice list \<Rightarrow> slice res" where
  "PutLengthPrefixedSliceParts dst parts =
     (let total_bytes = foldl (\<lambda>n p. n + length p) 0 parts
      in map_sum id (\<lambda>d. foldl (@) d parts) (PutVarint32 dst (word_of_nat total_bytes)))"

text \<open>The result (\<open>None\<close> is \<open>false\<close>) and what is left of the input: a length without its string has
  been taken from it.\<close>

definition GetLengthPrefixedSlice :: "slice \<Rightarrow> slice option \<times> slice" where
  "GetLengthPrefixedSlice input =
     (case GetVarint32 input of
        None \<Rightarrow> (None, input)
      | Some (len, rest) \<Rightarrow>
          (if unat len \<le> length rest then (Some (take (unat len) rest), drop (unat len) rest)
           else (None, rest)))"

text \<open>The variant for data that is known to be well formed looks at five bytes, even when there
  are fewer, and does not look at the result of the parser: five bytes above 127 give the null
  pointer with the length 0, the empty slice.\<close>

definition GetLengthPrefixedSlice_data :: "byte list \<Rightarrow> slice res" where
  "GetLengthPrefixedSlice_data data =
     (case GetVarint32Ptr (take 5 data) of
        None \<Rightarrow> (if length data < 5 then Inl Out_Of_Range else Inr [])
      | Some (len, rest) \<Rightarrow>
          (let p = drop (length (take 5 data) - length rest) data
           in if unat len \<le> length p then Inr (take (unat len) p) else Inl Out_Of_Range))"

definition GetSliceUntil :: "slice \<Rightarrow> byte \<Rightarrow> slice \<times> slice" where
  "GetSliceUntil s delimiter =
     (let ret = takeWhile (\<lambda>b. b \<noteq> delimiter) s
      in (ret, drop (length ret + (if length ret < length s then 1 else 0)) s))"

text \<open>The first \<open>size\<close> bytes of a number in memory, the first becoming the most significant one.\<close>

fun EndianTransform_loop :: "byte list \<Rightarrow> nat \<Rightarrow> nat \<Rightarrow> u64 \<Rightarrow> u64" where
  "EndianTransform_loop pos sz 0 ret_val = ret_val"
| "EndianTransform_loop pos sz (Suc n) ret_val =
     (let i = sz - Suc n
      in EndianTransform_loop pos sz n
           (ret_val OR push_bit (8 * (sz - i - 1)) (ucast (pos ! i))))"

definition EndianTransform :: "bool \<Rightarrow> u64 \<Rightarrow> nat \<Rightarrow> u64 res" where
  "EndianTransform le input sz =
     (if 8 < sz then Inl Out_Of_Range
      else Inr (EndianTransform_loop (mem_bytes le 8 input) sz sz 0))"


subsection \<open>Fixed-width numbers read back\<close>

lemma length_le_bytes [simp]: "length (le_bytes n v) = n"
  by (induction n arbitrary: v) auto

lemma nth_le_bytes: "i < n \<Longrightarrow> le_bytes n v ! i = ucast (drop_bit (8 * i) v)"
proof (induction n arbitrary: v i)
  case (Suc n)
  then show ?case by (cases i) (auto simp: algebra_simps)
qed simp

lemma of_le_le_bytes: "(of_le (le_bytes n v) :: 'a::len word) = take_bit (8 * n) (v :: 'a word)"
proof (induction n arbitrary: v)
  case (Suc n)
  show ?case
    by (rule bit_eqI) (auto simp: Suc bit_simps not_le less_diff_conv2 intro: possible_bit_word)
qed simp

lemma take_bit_full [simp]: "take_bit 64 (v :: u64) = v" "take_bit 32 (w :: u32) = w"
  by (simp_all add: take_bit_word_eq_self)

lemma byte_mask: "(ucast (w AND 0xff) :: byte) = ucast (w :: u32)" "(ucast (x AND 0xff) :: byte) = ucast (x :: u64)"
proof -
  have "w AND 0xff = take_bit 8 w" "x AND 0xff = take_bit 8 x"
    by (simp_all add: take_bit_eq_mask mask_eq_exp_minus_1)
  then show "(ucast (w AND 0xff) :: byte) = ucast w" "(ucast (x AND 0xff) :: byte) = ucast x"
    by (auto intro!: bit_eqI simp: bit_simps)
qed

lemma EncodeFixed32_le: "EncodeFixed32 le v = le_bytes 4 v"
  by (simp add: EncodeFixed32_def mem_bytes_def byte_mask eval_nat_numeral)

lemma EncodeFixed64_le: "EncodeFixed64 le v = le_bytes 8 v"
  by (simp add: EncodeFixed64_def mem_bytes_def byte_mask eval_nat_numeral)

lemma bit_of_le:
  "bit (of_le xs :: 'a::len word) n \<longleftrightarrow>
     n < LENGTH('a) \<and> n div 8 < length xs \<and> bit (xs ! (n div 8)) (n mod 8)"
proof (induction xs arbitrary: n)
  case (Cons b bs)
  show ?case
  proof (cases "n < 8")
    case True
    then show ?thesis by (auto simp: bit_simps)
  next
    case False
    then have "n div 8 = Suc ((n - 8) div 8)" "(n - 8) mod 8 = n mod 8"
      by (simp_all add: le_div_geq le_mod_geq)
    with False show ?thesis
      using bit_imp_le_length [of b n] by (auto simp: bit_simps Cons)
  qed
qed simp

lemma of_le_append: "of_le (xs @ ys) = of_le xs OR push_bit (8 * length xs) (of_le ys)"
  by (induction xs) (auto simp: push_bit_or or.assoc algebra_simps)

lemma of_le_ucast: "length xs = 4 \<Longrightarrow> of_le xs = (ucast (of_le xs :: u32) :: u64)"
  by (rule bit_eqI) (auto simp: bit_of_le bit_simps)

lemma take_4: "4 \<le> length p \<Longrightarrow> take 4 p = [p ! 0, p ! 1, p ! 2, p ! 3]"
  by (rule nth_equalityI) (auto simp: less_Suc_eq numeral_nat)

lemma take_8: "8 \<le> length p \<Longrightarrow> take 8 p = take 4 p @ take 4 (drop 4 p)"
  by (simp flip: take_add)

lemma DecodeFixed32_le: "4 \<le> length p \<Longrightarrow> DecodeFixed32 le p = Inr (of_le (take 4 p))"
  by (auto simp: DecodeFixed32_def of_mem_def take_4 push_bit_or)

lemma DecodeFixed64_le: "8 \<le> length p \<Longrightarrow> DecodeFixed64 le p = Inr (of_le (take 8 p))"
  using of_le_ucast [of "take 4 p"] of_le_ucast [of "take 4 (drop 4 p)"]
  by (auto simp: DecodeFixed64_def of_mem_def DecodeFixed32_le take_8 of_le_append or.commute)

lemma Put_le:
  "PutFixed32 le dst v = dst @ le_bytes 4 v" "PutFixed64 le dst w = dst @ le_bytes 8 w"
  by (simp_all add: PutFixed32_def PutFixed64_def mem_bytes_def EncodeFixed32_le EncodeFixed64_le)

lemma DecodeFixed32_bytes [simp]: "DecodeFixed32 le (le_bytes 4 v @ rest) = Inr v"
  and DecodeFixed64_bytes [simp]: "DecodeFixed64 le (le_bytes 8 w @ rest) = Inr w"
  by (simp_all add: DecodeFixed32_le DecodeFixed64_le of_le_le_bytes)

lemma Get_le:
  "GetFixed32 le (le_bytes 4 v @ rest) = Some (v, rest)"
  "GetFixed64 le (le_bytes 8 w @ rest) = Some (w, rest)"
  by (simp_all add: GetFixed32_def GetFixed64_def)

subsection \<open>Variable-length numbers read back\<close>

text \<open>What a decoder makes of any bytes: the groups of 7 bits up to the first byte below 128, at most
  \<open>n\<close> of them, as a number modulo the size of the type.\<close>

fun varint_val :: "byte list \<Rightarrow> nat" where
  "varint_val [] = 0"
| "varint_val (b # bs) = unat b mod 128 + 128 * varint_val bs"

abbreviation more_bytes :: "slice \<Rightarrow> nat" where
  "more_bytes p \<equiv> length (takeWhile (\<lambda>b. 128 \<le> b) p)"

definition varint_of :: "nat \<Rightarrow> slice \<Rightarrow> ('a::len word \<times> slice) option" where
  "varint_of n p =
     (if more_bytes p < length p \<and> more_bytes p < n
      then Some (word_of_nat (varint_val (take (Suc (more_bytes p)) p)), drop (Suc (more_bytes p)) p)
      else None)"

lemma byte_high: "(128 \<le> (b :: byte)) \<longleftrightarrow> bit b 7"
proof -
  have "unat b < 256" using unsigned_less [of b, where ?'a = nat] by simp
  then have "unat b div 2 ^ 7 = (if 128 \<le> unat b then 1 else 0)"
    by (auto intro!: div_nat_eqI)
  then have "bit (unat b) 7 \<longleftrightarrow> 128 \<le> unat b" by (simp only: bit_iff_odd) simp
  then show ?thesis by (simp add: word_le_nat_alt bit_unsigned_iff)
qed

lemma and_127: "((w :: 'a::len word) AND 127) = take_bit 7 w"
  by (simp add: take_bit_eq_mask mask_eq_exp_minus_1)

lemma and_128: "7 < LENGTH('a) \<Longrightarrow> ((w :: 'a::len word) AND 128 \<noteq> 0) \<longleftrightarrow> bit w 7"
proof -
  have "(128 :: 'a word) = push_bit 7 1" by (simp add: push_bit_eq_mult)
  then show "7 < LENGTH('a) \<Longrightarrow> (w AND 128 \<noteq> 0) \<longleftrightarrow> bit w 7"
    by (metis and_exp_eq_0_iff_not_bit push_bit_eq_mult mult_1)
qed

lemma ucast_byte: "(ucast (b :: byte) :: 'a::len word) = word_of_nat (unat b)"
  by simp

lemma or_shift:
  assumes "r < 2 ^ k"
  shows "(word_of_nat r :: 'a::len word) OR push_bit k (word_of_nat m) = word_of_nat (r + 2 ^ k * m)"
proof -
  have "r AND push_bit k m = 0"
    using assms by (auto intro!: bit_eqI simp: bit_simps) (metis bit_take_bit_iff not_le take_bit_nat_eq_self)
  then have "r + 2 ^ k * m = r OR push_bit k m"
    using disjunctive_add_eq_or [of r "push_bit k m"] by (simp add: push_bit_eq_mult mult.commute)
  then show ?thesis by (simp only: of_nat_or_eq push_bit_of_nat)
qed

lemma and_127_byte: "(ucast (b :: byte) :: 'a::len word) AND 127 = word_of_nat (unat b mod 128)"
  unfolding and_127 ucast_byte take_bit_of_nat by (simp add: take_bit_eq_mod)

lemma varint_loop32:
  assumes "r < 2 ^ (7 * i)"
  shows "GetVarint32PtrFallback_loop (7 * i) (word_of_nat r) p =
    (if more_bytes p < length p \<and> i + more_bytes p < 5
     then Some (word_of_nat (r + 2 ^ (7 * i) * varint_val (take (Suc (more_bytes p)) p)),
                drop (Suc (more_bytes p)) p)
     else None)"
  using assms
proof (induction p arbitrary: i r)
  case (Cons b p)
  have r': "r + 2 ^ (7 * i) * (unat b mod 128) < 2 ^ (7 * Suc i)"
  proof -
    have "2 ^ (7 * i) * (unat b mod 128) \<le> 2 ^ (7 * i) * (127 :: nat)" by (intro mult_le_mono2) simp
    moreover have "(2 :: nat) ^ (7 * Suc i) = 128 * 2 ^ (7 * i)" by (simp add: power_add)
    ultimately show ?thesis using Cons.prems by linarith
  qed
  show ?case
  proof (cases "128 \<le> b")
    case True
    have st: "GetVarint32PtrFallback_loop (7 * i) (word_of_nat r) (b # p) =
      (if 28 < 7 * i then None else GetVarint32PtrFallback_loop (7 * Suc i) (word_of_nat (r + 2 ^ (7 * i) * (unat b mod 128))) p)"
      using True by (simp add: and_128 byte_high bit_simps and_127_byte or_shift [OF Cons.prems] Let_def add.commute [of _ 7])
    show ?thesis unfolding st Cons.IH [OF r'] using True by (auto simp: power_add algebra_simps)
  next
    case False
    then have "unat b mod 128 = unat b" by (simp add: word_le_nat_alt)
    with False show ?thesis using or_shift [OF Cons.prems, of "unat b", where 'a = 32]
      by (simp add: and_128 byte_high bit_simps Let_def)
  qed
qed simp
lemma varint_loop64:
  assumes "r < 2 ^ (7 * i)"
  shows "GetVarint64Ptr_loop (7 * i) (word_of_nat r) p =
    (if more_bytes p < length p \<and> i + more_bytes p < 10
     then Some (word_of_nat (r + 2 ^ (7 * i) * varint_val (take (Suc (more_bytes p)) p)),
                drop (Suc (more_bytes p)) p)
     else None)"
  using assms
proof (induction p arbitrary: i r)
  case (Cons b p)
  have r': "r + 2 ^ (7 * i) * (unat b mod 128) < 2 ^ (7 * Suc i)"
  proof -
    have "2 ^ (7 * i) * (unat b mod 128) \<le> 2 ^ (7 * i) * (127 :: nat)" by (intro mult_le_mono2) simp
    moreover have "(2 :: nat) ^ (7 * Suc i) = 128 * 2 ^ (7 * i)" by (simp add: power_add)
    ultimately show ?thesis using Cons.prems by linarith
  qed
  show ?case
  proof (cases "128 \<le> b")
    case True
    have st: "GetVarint64Ptr_loop (7 * i) (word_of_nat r) (b # p) =
      (if 63 < 7 * i then None else GetVarint64Ptr_loop (7 * Suc i) (word_of_nat (r + 2 ^ (7 * i) * (unat b mod 128))) p)"
      using True by (simp add: and_128 byte_high bit_simps and_127_byte or_shift [OF Cons.prems] Let_def add.commute [of _ 7])
    show ?thesis unfolding st Cons.IH [OF r'] using True by (auto simp: power_add algebra_simps)
  next
    case False
    then have "unat b mod 128 = unat b" by (simp add: word_le_nat_alt)
    with False show ?thesis using or_shift [OF Cons.prems, of "unat b", where 'a = 64]
      by (simp add: and_128 byte_high bit_simps Let_def)
  qed
qed simp

lemma GetVarint64_spec: "GetVarint64 p = varint_of 10 p"
  using varint_loop64 [of 0 0 p] by (simp add: GetVarint64_def GetVarint64Ptr_def varint_of_def)

lemma GetVarint32PtrFallback_spec: "GetVarint32PtrFallback p = varint_of 5 p"
  using varint_loop32 [of 0 0 p] by (simp add: GetVarint32PtrFallback_def varint_of_def)

lemma GetVarint32Ptr_spec: "GetVarint32Ptr p = varint_of 5 p"
proof (cases p)
  case (Cons b bs)
  have hi: "(ucast b :: u32) AND 128 = 0 \<longleftrightarrow> \<not> 128 \<le> b"
    using and_128 [of "ucast b :: u32"] by (auto simp: byte_high bit_simps)
  show ?thesis
  proof (cases "128 \<le> b")
    case True
    with Cons show ?thesis by (simp add: GetVarint32Ptr_def GetVarint32PtrFallback_spec hi)
  next
    case False
    then have "unat b mod 128 = unat b" by (simp add: word_le_nat_alt)
    with False Cons show ?thesis by (simp add: GetVarint32Ptr_def varint_of_def hi)
  qed
qed (simp add: GetVarint32Ptr_def GetVarint32PtrFallback_spec)

lemma GetVarint32_spec: "GetVarint32 p = varint_of 5 p"
  by (simp add: GetVarint32_def GetVarint32Ptr_spec)

fun varint :: "nat \<Rightarrow> byte list" where
  "varint n = (if n < 128 then [word_of_nat n] else word_of_nat (128 + n mod 128) # varint (n div 128))"

declare varint.simps [simp del]

lemma unat_byte [simp]: "n < 256 \<Longrightarrow> unat (word_of_nat n :: byte) = n"
  by (simp add: unat_of_nat)

lemma unat_high_byte [simp]: "unat (128 + word_of_nat (n mod 128) :: byte) = 128 + n mod 128"
  using unat_byte [of "128 + n mod 128"] by simp

lemma high_byte [simp]:
  "128 \<le> (128 + word_of_nat (n mod 128) :: byte)" "n < 128 \<Longrightarrow> \<not> 128 \<le> (word_of_nat n :: byte)"
  by (simp_all add: word_le_nat_alt)

lemma varint_props:
  "varint_val (varint n) = n" "more_bytes (varint n @ rest) = length (varint n) - 1" "varint n \<noteq> []"
proof (induction n rule: varint.induct)
  case (1 n)
  { case 1 then show ?case using "1.IH"(1) by (subst varint.simps) auto }
  { case 2 then show ?case using "1.IH"(2,3)
      by (subst (1 2) varint.simps) auto }
  { case 3 then show ?case by (subst varint.simps) simp }
qed

lemma varint_of_varint:
  "length (varint n) \<le> m \<Longrightarrow> varint_of m (varint n @ rest) = Some (word_of_nat n, rest)"
  using varint_props [of n] varint_props(2) [of n rest]
  by (cases "varint n") (auto simp: varint_of_def)

lemma length_varint: "n < 128 ^ Suc k \<Longrightarrow> length (varint n) \<le> Suc k"
proof (induction k arbitrary: n)
  case 0
  then show ?case by (subst varint.simps) simp
next
  case (Suc k)
  then have "n div 128 < 128 ^ Suc k" by (simp add: less_mult_imp_div_less)
  with Suc.IH [OF this] show ?case by (subst varint.simps) simp
qed

lemma push_7: "(128 :: 'a::len word) = push_bit 7 1"
  by (simp add: push_bit_eq_mult)

lemma byte_more_aux:
  "word_of_nat (128 + unat v mod 128) = ((ucast (take_bit 7 (v :: 'a::len word)) :: byte) OR push_bit 7 1)"
proof -
  have "word_of_nat (128 + unat v mod 128) = ((word_of_nat (unat v mod 128) :: byte) OR push_bit 7 (word_of_nat 1))"
    by (subst or_shift) (simp_all add: add.commute)
  moreover have "(word_of_nat (unat v mod 128) :: byte) = ucast (take_bit 7 v)"
  proof -
    have "unat v mod 128 = unat (take_bit 7 v)"
      unfolding unsigned_take_bit_eq by (simp add: take_bit_eq_mod)
    then show ?thesis by simp
  qed
  ultimately show ?thesis by (simp only: of_nat_1)
qed

lemma byte_more:
  "(ucast (v OR 128) :: byte) = word_of_nat (128 + unat (v :: u32) mod 128)"
  "(ucast (w AND (128 - 1) OR 128) :: byte) = word_of_nat (128 + unat (w :: u64) mod 128)"
  unfolding byte_more_aux push_7
  by (rule bit_eqI; auto simp: bit_simps and_127 less_Suc_eq numeral_nat)+

lemma byte_last: "(ucast v :: byte) = word_of_nat (unat (v :: 'a::len word))"
  by simp

lemma EncodeVarint64_varint: "EncodeVarint64 v = varint (unat v)"
proof (induction v rule: EncodeVarint64.induct)
  case (1 v)
  have "128 \<le> v \<longleftrightarrow> \<not> unat v < 128" by (auto simp: word_le_nat_alt)
  moreover have "unat (drop_bit 7 v) = unat v div 128" by (simp add: unat_drop_bit_eq drop_bit_nat_def)
  ultimately show ?case
    using 1 by (subst EncodeVarint64.simps, subst varint.simps) (simp only: byte_more, simp)
qed

lemma varint_u32:
  "varint (unat v) = (if v < 128 then [ucast v] else ucast (v OR 128) # varint (unat (drop_bit 7 (v :: u32))))"
proof -
  have "v < 128 \<longleftrightarrow> unat v < 128" by (simp add: word_less_nat_alt)
  moreover have "unat (drop_bit 7 v) = unat v div 128" by (simp add: unat_drop_bit_eq drop_bit_nat_def)
  ultimately show ?thesis by (subst varint.simps) (simp only: byte_more, simp)
qed

lemma drop_less_128:
  "drop_bit 7 v < 128 \<longleftrightarrow> v < push_bit 14 1" "drop_bit 14 v < 128 \<longleftrightarrow> v < push_bit 21 1"
  "drop_bit 21 v < 128 \<longleftrightarrow> v < push_bit 28 1" "drop_bit 28 v < 128" for v :: u32
  using unsigned_less [of v, where ?'a = nat]
  by (simp_all add: word_less_nat_alt unat_drop_bit_eq drop_bit_nat_def push_bit_eq_mult div_less_iff_less_mult less_mult_imp_div_less)

lemma EncodeVarint32_varint: "EncodeVarint32 v = varint (unat v)"
proof -
  have "push_bit 7 1 = (128 :: u32)" by (simp add: push_bit_eq_mult)
  then show ?thesis
    using varint_u32 [of v] varint_u32 [of "drop_bit 7 v"] varint_u32 [of "drop_bit 14 v"]
      varint_u32 [of "drop_bit 21 v"] varint_u32 [of "drop_bit 28 v"]
    unfolding EncodeVarint32_def Let_def
    by (simp add: drop_bit_drop_bit drop_less_128 del: push_bit_of_1)
qed

lemma VarintLength_varint: "VarintLength v = length (varint (unat v))"
proof (induction v rule: VarintLength.induct)
  case (1 v)
  then show ?case
    by (subst VarintLength.simps, subst varint.simps)
       (auto simp: word_le_nat_alt unat_drop_bit_eq drop_bit_nat_def)
qed

subsection \<open>What the encodings promise\<close>

lemma length_EncodeVarint: "length (EncodeVarint32 v) \<le> 5" "length (EncodeVarint64 w) \<le> 10"
  using length_varint [of "unat v" 4] length_varint [of "unat w" 9]
    unsigned_less [of v, where ?'a = nat] unsigned_less [of w, where ?'a = nat]
  by (simp_all add: EncodeVarint32_varint EncodeVarint64_varint)

lemma VarintLength_Encode:
  "length (EncodeVarint64 (ucast v)) = length (EncodeVarint32 v)" "VarintLength w = length (EncodeVarint64 w)"
proof -
  have "unat (ucast v :: u64) = unat v"
    using unsigned_less [of v, where ?'a = nat] by (simp add: unsigned_ucast_eq take_bit_nat_eq_self)
  then show "length (EncodeVarint64 (ucast v)) = length (EncodeVarint32 v)" "VarintLength w = length (EncodeVarint64 w)"
    by (simp_all add: VarintLength_varint EncodeVarint32_varint EncodeVarint64_varint)
qed

lemma GetVarint_Encode:
  "GetVarint32 (EncodeVarint32 v @ rest) = Some (v, rest)"
  "GetVarint32Ptr (EncodeVarint32 v @ rest) = Some (v, rest)"
  "GetVarint64 (EncodeVarint64 w @ rest) = Some (w, rest)"
  using length_EncodeVarint(1) [of v] length_EncodeVarint(2) [of w]
  by (simp_all add: GetVarint32_spec GetVarint32Ptr_spec GetVarint64_spec EncodeVarint32_varint
      EncodeVarint64_varint varint_of_varint)

lemma Put_Encode:
  "PutVarint32 dst v1 = Inr (dst @ EncodeVarint32 v1)"
  "PutVarint32Varint32 dst v1 v2 = Inr (dst @ EncodeVarint32 v1 @ EncodeVarint32 v2)"
  "PutVarint32Varint32Varint32 dst v1 v2 v3 =
     Inr (dst @ EncodeVarint32 v1 @ EncodeVarint32 v2 @ EncodeVarint32 v3)"
  "PutVarint64 dst w1 = Inr (dst @ EncodeVarint64 w1)"
  "PutVarint64Varint64 dst w1 w2 = Inr (dst @ EncodeVarint64 w1 @ EncodeVarint64 w2)"
  "PutVarint32Varint64 dst v1 w1 = Inr (dst @ EncodeVarint32 v1 @ EncodeVarint64 w1)"
  "PutVarint32Varint32Varint64 dst v1 v2 w1 =
     Inr (dst @ EncodeVarint32 v1 @ EncodeVarint32 v2 @ EncodeVarint64 w1)"
  using length_EncodeVarint(1) [of v1] length_EncodeVarint(1) [of v2] length_EncodeVarint(1) [of v3]
    length_EncodeVarint(2) [of w1] length_EncodeVarint(2) [of w2]
  by (simp_all add: PutVarint32_def PutVarint32Varint32_def PutVarint32Varint32Varint32_def
      PutVarint64_def PutVarint64Varint64_def PutVarint32Varint64_def PutVarint32Varint32Varint64_def
      append_buf_def)

lemma PutLengthPrefixedSlice_eq:
  "PutLengthPrefixedSlice dst s = Inr (dst @ EncodeVarint32 (word_of_nat (length s)) @ s)"
  by (simp add: PutLengthPrefixedSlice_def Put_Encode)

lemma foldl_append: "foldl (@) d ps = d @ concat ps"
  by (induction ps arbitrary: d) auto

lemma foldl_length: "foldl (\<lambda>n p. n + length p) n ps = n + length (concat ps)"
  by (induction ps arbitrary: n) auto

lemma PutLengthPrefixedSliceParts_eq:
  "PutLengthPrefixedSliceParts dst parts = PutLengthPrefixedSlice dst (concat parts)"
  by (simp add: PutLengthPrefixedSliceParts_def PutLengthPrefixedSlice_eq Put_Encode foldl_append foldl_length)

lemma GetLengthPrefixedSlice_Encode:
  assumes "length s < 2 ^ 32"
  shows "GetLengthPrefixedSlice (EncodeVarint32 (word_of_nat (length s)) @ s @ rest) = (Some s, rest)"
  using assms by (simp add: GetLengthPrefixedSlice_def GetVarint_Encode unat_of_nat)

lemma GetLengthPrefixedSlice_data_Encode:
  assumes "length s < 2 ^ 32"
  shows "GetLengthPrefixedSlice_data (EncodeVarint32 (word_of_nat (length s)) @ s @ rest) = Inr s"
proof -
  let ?e = "EncodeVarint32 (word_of_nat (length s))"
  have "take 5 (?e @ s @ rest) = ?e @ take (5 - length ?e) (s @ rest)"
    using length_EncodeVarint(1) by simp
  then show ?thesis
    using assms by (simp add: GetLengthPrefixedSlice_data_def GetVarint_Encode unat_of_nat)
qed

text \<open>C16: what is put is read back. Fixed-width numbers are read back on a machine of either byte
  order, whichever wrote them; the encoders of variable-length numbers stay within their
  buffers and write as many bytes as \<open>VarintLength\<close> says; a string shorter than \<open>2 ^ 32\<close> is read
  back by both readers, also when it was put in parts; and what follows is left untouched.\<close>

theorem coding_roundtrip:
  assumes "length (concat parts) < 2 ^ 32"
  shows "GetFixed32 le' (PutFixed32 le [] v @ rest) = Some (v, rest) \<and>
    GetFixed64 le' (PutFixed64 le [] w @ rest) = Some (w, rest) \<and>
    (\<exists>bs. PutVarint32 dst v = Inr (dst @ bs) \<and> length bs = VarintLength (ucast v) \<and>
      GetVarint32 (bs @ rest) = Some (v, rest)) \<and>
    (\<exists>bs. PutVarint64 dst w = Inr (dst @ bs) \<and> length bs = VarintLength w \<and>
      GetVarint64 (bs @ rest) = Some (w, rest)) \<and>
    (\<exists>bs. PutLengthPrefixedSlice dst (concat parts) = Inr (dst @ bs) \<and>
      PutLengthPrefixedSliceParts dst parts = Inr (dst @ bs) \<and>
      GetLengthPrefixedSlice (bs @ rest) = (Some (concat parts), rest) \<and>
      GetLengthPrefixedSlice_data (bs @ rest) = Inr (concat parts))"
  using assms GetLengthPrefixedSlice_Encode [OF assms, of rest]
    GetLengthPrefixedSlice_data_Encode [OF assms, of rest]
  by (simp add: Put_le Get_le Put_Encode GetVarint_Encode VarintLength_Encode
      PutLengthPrefixedSliceParts_eq PutLengthPrefixedSlice_eq)

theorem coding_roundtrip_witness:
  "GetFixed32 False (PutFixed32 True [] 0x01020304 @ [9]) = Some (0x01020304, [9]) \<and>
   (\<exists>bs. PutVarint32 [] 300 = Inr bs \<and> length bs = VarintLength 300 \<and> GetVarint32 (bs @ [9]) = Some (300, [9]))"
  using coding_roundtrip [of "[[1, 2], [3]]" False True "0x01020304" "[9]" 0 "[]"]
    coding_roundtrip [of "[[1, 2], [3]]" False True 300 "[9]" 0 "[]"] by auto

text \<open>The decoders of variable-length numbers are total. They accept exactly the inputs with a
  byte below 128 among the first 5 (10 for 64 bits), take the bytes up to it, and return the
  number of its groups of 7 bits modulo the size of the type: a last byte that does not fit
  is cut off instead of being refused.\<close>

theorem varint_decoding:
  "GetVarint32 p = varint_of 5 p \<and> GetVarint64 p = varint_of 10 p"
  by (simp add: GetVarint32_spec GetVarint64_spec)

lemma EndianTransform_loop_eq:
  "n \<le> sz \<Longrightarrow> sz \<le> length pos \<Longrightarrow>
    EndianTransform_loop pos sz n r = r OR of_le (rev (take n (drop (sz - n) pos)))"
proof (induction n arbitrary: r)
  case (Suc n)
  define m where "m = sz - Suc n"
  have m: "m < length pos" "sz - n = Suc m" "sz - m - 1 = n" using Suc.prems by (simp_all add: m_def)
  then have "take (Suc n) (drop m pos) = pos ! m # take n (drop (Suc m) pos)"
    by (simp add: Cons_nth_drop_Suc [symmetric])
  moreover have "EndianTransform_loop pos sz (Suc n) r =
      EndianTransform_loop pos sz n (r OR push_bit (8 * n) (ucast (pos ! m)))"
    using m(3) by (simp add: Let_def m_def)
  ultimately show ?case
    using Suc m by (simp add: of_le_append or.assoc or.commute or.left_commute flip: m_def del: EndianTransform_loop.simps)
qed simp

lemma EndianTransform_eq:
  "EndianTransform le v sz =
    (if 8 < sz then Inl Out_Of_Range else Inr (of_le (rev (take sz (mem_bytes le 8 v)))))"
  by (simp add: EndianTransform_def EndianTransform_loop_eq mem_bytes_def)
end
