(* ===== verification/Crc32c.thy ===== *)
theory Crc32c
  imports CrcTables
begin

section \<open>RocksDB: the checksum\<close>

text \<open>
  \<open>util/crc32c.h\<close> and \<open>util/crc32c.cc\<close>: CRC-32C with four tables, four bytes at a time, or with
  the instructions of SSE 4.2. The reference is the division bit by bit. The state of the
  loops is the 64-bit register \<open>l\<close> and what is left from the pointer \<open>p\<close> to the end \<open>e\<close>.
\<close>

subsection \<open>The code\<close>

type_synonym crc_state = "u64 \<times> byte list"

definition LE_LOAD32 :: "bool \<Rightarrow> byte list \<Rightarrow> u32 res" where
  "LE_LOAD32 le p = DecodeFixed32 le p"

definition LE_LOAD64 :: "bool \<Rightarrow> byte list \<Rightarrow> u64 res" where
  "LE_LOAD64 le p = DecodeFixed64 le p"

text \<open>One half of \<open>Slow_CRC32\<close>, which does it twice.\<close>

definition Slow_CRC32_once :: "bool \<Rightarrow> crc_state \<Rightarrow> crc_state res" where
  "Slow_CRC32_once le = (\<lambda>(l, p).
     bind_res (LE_LOAD32 le p) (\<lambda>w.
       let c = ucast (l XOR ucast w) :: u32
       in Inr (ucast (table3 ! unat (c AND 0xff) XOR
                      table2 ! unat (drop_bit 8 c AND 0xff) XOR
                      table1 ! unat (drop_bit 16 c AND 0xff) XOR
                      table0 ! unat (drop_bit 24 c)), drop 4 p)))"

definition Slow_CRC32 :: "bool \<Rightarrow> crc_state \<Rightarrow> crc_state res" where
  "Slow_CRC32 le s = bind_res (Slow_CRC32_once le s) (Slow_CRC32_once le)"

text \<open>\<open>mm_crc32_u64\<close> and \<open>mm_crc32_u32\<close> are the compiler's intrinsics for the instructions;
  \<open>have_sse42\<close> and \<open>lp64\<close> are settings of the build.\<close>

definition Fast_CRC32 ::
  "bool \<Rightarrow> bool \<Rightarrow> bool \<Rightarrow> (u64 \<Rightarrow> u64 \<Rightarrow> u64) \<Rightarrow> (u32 \<Rightarrow> u32 \<Rightarrow> u32) \<Rightarrow> crc_state \<Rightarrow> crc_state res" where
  "Fast_CRC32 have_sse42 lp64 le mm_crc32_u64 mm_crc32_u32 s =
     (if \<not> have_sse42 then Slow_CRC32 le s
      else if lp64 then
        (case s of (l, p) \<Rightarrow> bind_res (LE_LOAD64 le p) (\<lambda>w. Inr (mm_crc32_u64 l w, drop 8 p)))
      else
        (let once = (\<lambda>(l, p). bind_res (LE_LOAD32 le p)
               (\<lambda>w. Inr (ucast (mm_crc32_u32 (ucast l) w), drop 4 p)))
         in bind_res (once s) once))"

definition STEP1 :: "crc_state \<Rightarrow> crc_state res" where
  "STEP1 = (\<lambda>(l, p).
     case p of
       [] \<Rightarrow> Inl Out_Of_Range
     | b # p' \<Rightarrow>
         (let c = (l AND 0xff) XOR ucast b
          in Inr (ucast (table0 ! unat c) XOR drop_bit 8 l, p')))"

text \<open>A loop that runs while at least \<open>n\<close> bytes are left; \<open>None\<close> if it does not end.\<close>

partial_function (option) crc_while ::
  "nat \<Rightarrow> (crc_state \<Rightarrow> crc_state res) \<Rightarrow> crc_state \<Rightarrow> crc_state res option" where
  "crc_while n body s =
     (if n \<le> length (snd s)
      then (case body s of Inl f \<Rightarrow> Some (Inl f) | Inr s' \<Rightarrow> crc_while n body s')
      else Some (Inr s))"

definition ALIGN :: "u64 \<Rightarrow> nat \<Rightarrow> u64" where
  "ALIGN n m = (n + (push_bit m 1 - 1)) AND NOT (push_bit m 1 - 1)"

text \<open>\<open>pval\<close> is the address of \<open>buf\<close>; \<open>x\<close> how far it is to the next multiple of 16.\<close>

definition ExtendImpl ::
  "(crc_state \<Rightarrow> crc_state res) \<Rightarrow> u64 \<Rightarrow> u32 \<Rightarrow> byte list \<Rightarrow> u32 res option" where
  "ExtendImpl CRC32 pval crc buf =
     (let size = length buf; x = unat (ALIGN pval 4 - pval); s = (ucast (crc XOR 0xffffffff), buf)
      in bind_run (if x \<le> size then crc_while (size - x + 1) STEP1 s else Some (Inr s)) (\<lambda>s.
         bind_run (crc_while 16 (\<lambda>s. bind_res (CRC32 s) CRC32) s) (\<lambda>s.
         bind_run (crc_while 8 CRC32 s) (\<lambda>s.
         bind_run (crc_while 1 STEP1 s) (\<lambda>(l, _).
         Some (Inr (ucast (l XOR 0xffffffff))))))))"

definition Choose_Extend ::
  "bool \<Rightarrow> bool \<Rightarrow> bool \<Rightarrow> (u64 \<Rightarrow> u64 \<Rightarrow> u64) \<Rightarrow> (u32 \<Rightarrow> u32 \<Rightarrow> u32) \<Rightarrow> bool \<Rightarrow>
     u64 \<Rightarrow> u32 \<Rightarrow> byte list \<Rightarrow> u32 res option" where
  "Choose_Extend have_sse42 lp64 le mm_crc32_u64 mm_crc32_u32 cpu_has_sse42 =
     (if have_sse42 \<and> cpu_has_sse42
      then ExtendImpl (Fast_CRC32 have_sse42 lp64 le mm_crc32_u64 mm_crc32_u32)
      else ExtendImpl (Slow_CRC32 le))"

definition kMaskDelta :: u32 where
  "kMaskDelta = 0xa282ead8"

definition Mask :: "u32 \<Rightarrow> u32" where
  "Mask crc = (drop_bit 15 crc OR push_bit 17 crc) + kMaskDelta"

definition Unmask :: "u32 \<Rightarrow> u32" where
  "Unmask masked_crc =
     (let rot = masked_crc - kMaskDelta in drop_bit 17 rot OR push_bit 15 rot)"

subsection \<open>The reference\<close>

definition crc_byte :: "u32 \<Rightarrow> byte \<Rightarrow> u32" where
  "crc_byte c b = crc_steps 8 (c XOR ucast b)"

abbreviation crc_bytes :: "u32 \<Rightarrow> byte list \<Rightarrow> u32" where
  "crc_bytes \<equiv> foldl crc_byte"

definition crc32c :: "u32 \<Rightarrow> byte list \<Rightarrow> u32" where
  "crc32c crc data = NOT (crc_bytes (NOT crc) data)"

subsection \<open>Division of several bytes at once\<close>

lemma crc_steps_low_zero: "\<forall>i<n. \<not> bit w i \<Longrightarrow> crc_steps n w = drop_bit n w"
proof (induction n arbitrary: w)
  case (Suc n)
  have "crc_bit w = drop_bit 1 w" using Suc.prems by (simp add: crc_bit_def)
  moreover have "\<forall>i<n. \<not> bit (drop_bit 1 w) i" using Suc.prems by (simp add: bit_simps)
  ultimately show ?case using Suc.IH [of "drop_bit 1 w"] by (simp add: funpow_swap1)
qed simp

lemma byte_bit_less: "bit (b :: byte) n \<Longrightarrow> n < 8"
  using bit_imp_le_length [of b n] by simp

lemma u32_bit_less: "bit (c :: u32) n \<Longrightarrow> n < 32"
  using bit_imp_le_length [of c n] by simp

lemma crc_steps_push:
  assumes "i + 8 \<le> 32"
  shows "crc_steps i (push_bit i (ucast (b :: byte))) = ucast b"
proof -
  have "crc_steps i (push_bit i (ucast b)) = drop_bit i (push_bit i (ucast b :: u32))"
    by (rule crc_steps_low_zero) (simp add: bit_simps)
  also have "\<dots> = ucast b"
    using assms by (auto intro!: bit_eqI simp: bit_simps) (use byte_bit_less in fastforce)
  finally show ?thesis .
qed

lemma crc_steps_push_more:
  "i + 8 \<le> 32 \<Longrightarrow> crc_steps (j + i) (push_bit i (ucast (b :: byte))) = crc_steps j (ucast b)"
  by (simp add: crc_steps_push flip: crc_steps_add)

lemma of_le_split:
  "(c :: u32) = of_le [ucast c, ucast (drop_bit 8 c), ucast (drop_bit 16 c), ucast (drop_bit 24 c)]"
proof -
  have "of_le (le_bytes 4 c) = c" by (simp add: of_le_le_bytes)
  then show ?thesis by (simp add: eval_nat_numeral)
qed

lemma crc_steps_shift:
  assumes "8 * length bs \<le> 24"
  shows "crc_steps 8 (push_bit 8 (of_le bs)) = of_le bs"
proof -
  have "crc_steps 8 (push_bit 8 (of_le bs :: u32)) = drop_bit 8 (push_bit 8 (of_le bs))"
    by (rule crc_steps_low_zero) (simp add: bit_simps)
  also have "\<dots> = of_le bs"
    using assms by (auto intro!: bit_eqI simp: bit_simps bit_of_le)
  finally show ?thesis .
qed

lemma push_8_or: "(ucast (b :: byte) OR push_bit 8 x :: 'a::len word) = ucast b XOR push_bit 8 x"
proof (rule disjunctive_xor_eq_or [symmetric])
  have "\<not> (bit b n \<and> 8 \<le> n)" for n using byte_bit_less [of b n] by auto
  then show "ucast b AND push_bit 8 x = (0 :: 'a word)"
    by (auto intro!: bit_eqI simp: bit_simps)
qed

lemma of_le_xor: "of_le (b # bs) = ucast b XOR push_bit 8 (of_le bs)"
  by (simp add: push_8_or)

lemma crc_bytes_word:
  "length bs \<le> 4 \<Longrightarrow> crc_bytes c bs = crc_steps (8 * length bs) (c XOR of_le bs)"
proof (induction bs arbitrary: c)
  case (Cons b bs)
  have "crc_bytes c (b # bs) = crc_steps (8 * length bs) (crc_steps 8 (c XOR ucast b) XOR of_le bs)"
    using Cons.IH [of "crc_byte c b"] Cons.prems by (simp add: crc_byte_def [of c b])
  also have "\<dots> = crc_steps (8 * length bs) (crc_steps 8 ((c XOR ucast b) XOR push_bit 8 (of_le bs)))"
    using Cons.prems by (subst (2) crc_steps_linear) (simp add: crc_steps_shift)
  finally show ?case by (simp add: crc_steps_add push_8_or xor.assoc add.commute)
qed simp

lemma table_byte:
  "table0 ! unat (ucast (b :: byte) :: u32) = crc_steps 8 (ucast b)"
  "table1 ! unat (ucast b :: u32) = crc_steps 16 (ucast b)"
  "table2 ! unat (ucast b :: u32) = crc_steps 24 (ucast b)"
  "table3 ! unat (ucast b :: u32) = crc_steps 32 (ucast b)"
proof -
  have "unat b < 256" using unsigned_less [of b, where ?'a = nat] by simp
  then have "unat (ucast b :: u32) = unat b" by (simp add: unsigned_ucast_eq take_bit_nat_eq_self)
  moreover note table_entries [OF _ \<open>unat b < 256\<close>, of 0] table_entries [OF _ \<open>unat b < 256\<close>, of 1]
    table_entries [OF _ \<open>unat b < 256\<close>, of 2] table_entries [OF _ \<open>unat b < 256\<close>, of 3]
  ultimately show "table0 ! unat (ucast b :: u32) = crc_steps 8 (ucast b)"
    "table1 ! unat (ucast b :: u32) = crc_steps 16 (ucast b)"
    "table2 ! unat (ucast b :: u32) = crc_steps 24 (ucast b)"
    "table3 ! unat (ucast b :: u32) = crc_steps 32 (ucast b)"
    by simp_all
qed


lemma and_255: "(w :: 'a::len word) AND 0xff = ucast (ucast w :: byte)"
proof -
  have "w AND 0xff = take_bit 8 w" by (simp add: take_bit_eq_mask mask_eq_exp_minus_1)
  also have "\<dots> = ucast (ucast w :: byte)"
    by (auto intro!: bit_eqI simp: bit_simps dest: bit_imp_le_length)
  finally show ?thesis .
qed

lemma crc_steps_table:
  "crc_steps 32 c = table3 ! unat (c AND 0xff) XOR table2 ! unat (drop_bit 8 c AND 0xff) XOR
     table1 ! unat (drop_bit 16 c AND 0xff) XOR table0 ! unat (drop_bit 24 c)"
proof -
  define b0 b1 b2 b3 :: byte where bs:
    "b0 = ucast c" "b1 = ucast (drop_bit 8 c)" "b2 = ucast (drop_bit 16 c)" "b3 = ucast (drop_bit 24 c)"
  have ix: "c AND 0xff = ucast b0" "drop_bit 8 c AND 0xff = ucast b1" "drop_bit 16 c AND 0xff = ucast b2"
    "drop_bit 24 c = ucast b3"
    unfolding and_255 bs by (auto intro!: bit_eqI simp: bit_simps) (use u32_bit_less in fastforce)
  have "c = ucast b0 XOR push_bit 8 (ucast b1) XOR push_bit 16 (ucast b2) XOR push_bit 24 (ucast b3)"
    using of_le_split [of c] by (simp add: of_le_xor push_bit_xor bs xor.assoc del: of_le.simps(2))
  then have "crc_steps 32 c = crc_steps 32 (ucast b0) XOR crc_steps 32 (push_bit 8 (ucast b1)) XOR
      crc_steps 32 (push_bit 16 (ucast b2)) XOR crc_steps 32 (push_bit 24 (ucast b3))"
    by (simp only: crc_steps_linear)
  moreover have "crc_steps 32 (push_bit 8 (ucast b)) = crc_steps 24 (ucast b)"
    "crc_steps 32 (push_bit 16 (ucast b)) = crc_steps 16 (ucast b)"
    "crc_steps 32 (push_bit 24 (ucast b)) = crc_steps 8 (ucast b)" for b :: byte
    using crc_steps_push_more [of 8 24 b] crc_steps_push_more [of 16 16 b] crc_steps_push_more [of 24 8 b]
    by simp_all
  ultimately show ?thesis unfolding ix table_byte by (simp only: )
qed

lemma crc_byte_shift: "crc_byte c b = table0 ! unat ((c AND 0xff) XOR ucast b) XOR drop_bit 8 c"
proof -
  have "\<not> (bit b n \<and> 8 \<le> n)" for n using byte_bit_less [of b n] by auto
  then have y: "c XOR ucast b = ucast (ucast c XOR b) XOR push_bit 8 (drop_bit 8 c)"
    by (auto intro!: bit_eqI simp: bit_simps)
  have "crc_steps 8 (push_bit 8 (drop_bit 8 c)) = drop_bit 8 (push_bit 8 (drop_bit 8 c))"
    by (rule crc_steps_low_zero) (simp add: bit_simps)
  also have "\<dots> = drop_bit 8 c" 
    by (auto intro!: bit_eqI simp: bit_simps) (use u32_bit_less in fastforce)
  finally have "crc_byte c b = table0 ! unat (ucast (ucast c XOR b) :: u32) XOR drop_bit 8 c"
    by (simp add: crc_byte_def y crc_steps_linear table_byte)
  moreover have "(c AND 0xff) XOR ucast b = ucast (ucast c XOR b)"
    unfolding and_255 by (auto intro!: bit_eqI simp: bit_simps)
  ultimately show ?thesis by simp
qed

subsection \<open>The loops\<close>

lemma ucast_u64:
  "unat (ucast a :: u64) = unat (a :: u32)" "ucast (a XOR b) = (ucast a XOR ucast b :: u64)"
  "ucast (drop_bit 8 a) = (drop_bit 8 (ucast a) :: u64)"
proof -
  show "unat (ucast a :: u64) = unat (a :: u32)"
    using unsigned_less [of a, where ?'a = nat] by (simp add: unsigned_ucast_eq take_bit_nat_eq_self)
qed ((auto intro!: bit_eqI simp: bit_simps)[], (auto intro!: bit_eqI simp: bit_simps)[],
     use u32_bit_less [of a] in fastforce)

lemma STEP1_crc: "STEP1 (ucast c, b # p) = Inr (ucast (crc_byte c b), p)"
proof -
  have "(ucast c AND 0xff :: u64) XOR ucast b = ucast ((c AND 0xff) XOR ucast b)"
    unfolding and_255 using byte_bit_less [of b] by (auto intro!: bit_eqI simp: bit_simps) (fastforce)+
  then have "unat ((ucast c AND 0xff :: u64) XOR ucast b) = unat ((c AND 0xff) XOR ucast b)"
    by (simp only: ucast_u64(1))
  then show ?thesis by (simp add: STEP1_def crc_byte_shift Let_def ucast_u64)
qed

text \<open>What the two variants of the inner step promise: eight bytes are divided at once.\<close>

locale crc_block =
  fixes CRC32 :: "crc_state \<Rightarrow> crc_state res"
  assumes eight: "8 \<le> length p \<Longrightarrow> CRC32 (ucast c, p) = Inr (ucast (crc_bytes c (take 8 p)), drop 8 p)"
begin

lemma crc_while_blocks:
  "\<exists>q r. p = q @ r \<and> length r < 8 \<and>
     crc_while 8 CRC32 (ucast c, p) = Some (Inr (ucast (crc_bytes c q), r))"
proof (induction "length p" arbitrary: p c rule: less_induct)
  case less
  show ?case
  proof (cases "8 \<le> length p")
    case True
    then have "length (drop 8 p) < length p" by simp
    from less [OF this] obtain q r where qr: "drop 8 p = q @ r" "length r < 8"
      "crc_while 8 CRC32 (ucast (crc_bytes c (take 8 p)), drop 8 p) =
        Some (Inr (ucast (crc_bytes (crc_bytes c (take 8 p)) q), r))"
      by blast
    have "p = (take 8 p @ q) @ r" by (simp flip: qr(1))
    moreover have "crc_while 8 CRC32 (ucast c, p) = Some (Inr (ucast (crc_bytes c (take 8 p @ q)), r))"
      using True qr(3) by (subst crc_while.simps) (simp add: eight)
    ultimately show ?thesis using qr(2) by blast
  next
    case False
    then show ?thesis by (intro exI [of _ "[]"] exI [of _ p]) (simp add: crc_while.simps)
  qed
qed

lemma sixteen:
  "16 \<le> length p \<Longrightarrow> bind_res (CRC32 (ucast c, p)) CRC32 =
     Inr (ucast (crc_bytes c (take 16 p)), drop 16 p)"
  using take_add [of 8 8 p] by (simp add: eight flip: foldl_append)

lemma crc_while_sixteen:
  "\<exists>q r. p = q @ r \<and>
     crc_while 16 (\<lambda>s. bind_res (CRC32 s) CRC32) (ucast c, p) = Some (Inr (ucast (crc_bytes c q), r))"
proof (induction "length p" arbitrary: p c rule: less_induct)
  case less
  show ?case
  proof (cases "16 \<le> length p")
    case True
    then have "length (drop 16 p) < length p" by simp
    from less [OF this] obtain q r where qr: "drop 16 p = q @ r"
      "crc_while 16 (\<lambda>s. bind_res (CRC32 s) CRC32) (ucast (crc_bytes c (take 16 p)), drop 16 p) =
        Some (Inr (ucast (crc_bytes (crc_bytes c (take 16 p)) q), r))"
      by blast
    have "p = (take 16 p @ q) @ r" by (simp flip: qr(1))
    moreover have "crc_while 16 (\<lambda>s. bind_res (CRC32 s) CRC32) (ucast c, p) =
        Some (Inr (ucast (crc_bytes c (take 16 p @ q)), r))"
      using True qr(2) by (subst crc_while.simps) (simp add: sixteen)
    ultimately show ?thesis by blast
  next
    case False
    then show ?thesis by (intro exI [of _ "[]"] exI [of _ p]) (simp add: crc_while.simps)
  qed
qed

end

lemma crc_while_STEP1:
  "0 < n \<Longrightarrow> crc_while n STEP1 (ucast c, p) =
     Some (Inr (ucast (crc_bytes c (take (length p - (n - 1)) p)), drop (length p - (n - 1)) p))"
proof (induction p arbitrary: c)
  case Nil
  then show ?case by (simp add: crc_while.simps)
next
  case (Cons b p)
  show ?case
  proof (cases "n \<le> length (b # p)")
    case True
    then have "length (b # p) - (n - 1) = Suc (length p - (n - 1))" using Cons.prems by auto
    with True Cons show ?thesis by (subst crc_while.simps) (simp add: STEP1_crc)
  next
    case False
    then show ?thesis by (subst crc_while.simps) simp
  qed
qed

context crc_block
begin

lemma ExtendImpl_crc32c: "ExtendImpl CRC32 pval crc buf = Some (Inr (crc32c crc buf))"
proof -
  let ?c = "NOT crc" and ?x = "unat (ALIGN pval 4 - pval)"
  have init: "crc XOR 0xffffffff = ?c" and final: "ucast (ucast w XOR 0xffffffff :: u64) = NOT w" for w :: u32
  proof -
    have m: "(0xffffffff :: u32) = mask 32" "(0xffffffff :: u64) = mask 32"
      by (simp_all add: mask_eq_exp_minus_1)
    show "crc XOR 0xffffffff = ?c" "ucast (ucast w XOR 0xffffffff :: u64) = NOT w"
      unfolding m by (auto intro!: bit_eqI simp: bit_simps)
  qed
  obtain q r where 1: "buf = q @ r"
    "(if ?x \<le> length buf then crc_while (length buf - ?x + 1) STEP1 (ucast ?c, buf) else Some (Inr (ucast ?c, buf))) =
      Some (Inr (ucast (crc_bytes ?c q), r))"
    using crc_while_STEP1 [of "length buf - ?x + 1" ?c buf]
    by (cases "?x \<le> length buf") (auto intro: that [of "take ?x buf" "drop ?x buf"] that [of "[]" buf])
  obtain q2 r2 where 2: "r = q2 @ r2"
    "crc_while 16 (\<lambda>s. bind_res (CRC32 s) CRC32) (ucast (crc_bytes ?c q), r) =
      Some (Inr (ucast (crc_bytes ?c (q @ q2)), r2))"
    using crc_while_sixteen [of r "crc_bytes ?c q"] by auto
  obtain q3 r3 where 3: "r2 = q3 @ r3"
    "crc_while 8 CRC32 (ucast (crc_bytes ?c (q @ q2)), r2) =
      Some (Inr (ucast (crc_bytes ?c (q @ q2 @ q3)), r3))"
    using crc_while_blocks [of r2 "crc_bytes ?c (q @ q2)"] by auto
  have 4: "crc_while 1 STEP1 (ucast (crc_bytes ?c (q @ q2 @ q3)), r3) = Some (Inr (ucast (crc_bytes ?c buf), []))"
    using crc_while_STEP1 [of 1] 1(1) 2(1) 3(1) by simp
  show ?thesis
    unfolding ExtendImpl_def Let_def init 1(2) bind_run_simps 2(2) 3(2) 4
    by (simp add: final crc32c_def)
qed

end

lemma Slow_CRC32_once_crc:
  assumes "4 \<le> length p"
  shows "Slow_CRC32_once le (ucast c, p) = Inr (ucast (crc_bytes c (take 4 p)), drop 4 p)"
proof -
  have "(ucast (ucast a :: u64) :: u32) = a" for a :: u32
    by (auto intro!: bit_eqI simp: bit_simps)
  then have c: "(ucast (ucast c XOR ucast w :: u64) :: u32) = c XOR w" for w :: u32
    by (simp only: ucast_u64(2) [symmetric])
  show ?thesis
    using assms crc_bytes_word [of "take 4 p" c]
    by (simp add: Slow_CRC32_once_def LE_LOAD32_def DecodeFixed32_le c Let_def flip: crc_steps_table)
qed

interpretation slow: crc_block "Slow_CRC32 le"
proof
  show "Slow_CRC32 le (ucast c, p) = Inr (ucast (crc_bytes c (take 8 p)), drop 8 p)" if "8 \<le> length p" for p c
    using that by (simp add: Slow_CRC32_def Slow_CRC32_once_crc take_8)
qed

text \<open>What the instructions compute, as the manual of the processor has it.\<close>

definition sse42 :: "(u64 \<Rightarrow> u64 \<Rightarrow> u64) \<Rightarrow> (u32 \<Rightarrow> u32 \<Rightarrow> u32) \<Rightarrow> bool" where
  "sse42 mm_crc32_u64 mm_crc32_u32 \<longleftrightarrow>
     (\<forall>c w. mm_crc32_u64 (ucast c) w = ucast (crc_bytes c (le_bytes 8 w))) \<and>
     (\<forall>c w. mm_crc32_u32 c w = crc_bytes c (le_bytes 4 w))"

lemma le_bytes_of_le:
  "le_bytes (length xs) (of_le xs :: 'a::len word) = xs" if "8 * length xs \<le> LENGTH('a)"
proof (rule nth_equalityI)
  fix i
  assume "i < length (le_bytes (length xs) (of_le xs :: 'a word))"
  then have i: "i < length xs" by simp
  show "le_bytes (length xs) (of_le xs :: 'a word) ! i = xs ! i"
  proof (rule bit_eqI)
    fix k assume "possible_bit TYPE(byte) k"
    then have k: "k < 8" by simp
    have "8 * i + k < 8 * length xs" using i k by linarith
    with that have "8 * i + k < LENGTH('a)" by linarith
    with i k show "bit (le_bytes (length xs) (of_le xs :: 'a word) ! i) k = bit (xs ! i) k"
      by (simp add: nth_le_bytes bit_simps bit_of_le)
  qed
qed simp

lemma fast_block:
  assumes "sse42 mm64 mm32"
  shows "crc_block (Fast_CRC32 have_sse42 lp64 le mm64 mm32)"
proof
  fix p c
  assume p: "8 \<le> length (p :: byte list)"
  show "Fast_CRC32 have_sse42 lp64 le mm64 mm32 (ucast c, p) = Inr (ucast (crc_bytes c (take 8 p)), drop 8 p)"
  proof -
    have once: "bind_res (LE_LOAD32 le q) (\<lambda>w. Inr (ucast (mm32 (ucast (ucast d :: u64)) w), drop 4 q)) =
        Inr (ucast (crc_bytes d (take 4 q)) :: u64, drop 4 q)" if "4 \<le> length q" for q d
    proof -
      have "ucast (ucast d :: u64) = d" by (auto intro!: bit_eqI simp: bit_simps)
      with that assms le_bytes_of_le [of "take 4 q", where 'a = 32] show ?thesis
        by (simp add: LE_LOAD32_def DecodeFixed32_le sse42_def)
    qed
    show ?thesis
      using p assms le_bytes_of_le [of "take 8 p", where 'a = 64] slow.eight [OF p] once [of p c]
        once [of "drop 4 p" "crc_bytes c (take 4 p)"]
      by (simp add: Fast_CRC32_def LE_LOAD64_def DecodeFixed64_le sse42_def take_8)
  qed
qed

lemma crc32c_append: "crc32c (crc32c crc xs) ys = crc32c crc (xs @ ys)"
  by (simp add: crc32c_def)

lemma rotate_back: "drop_bit 17 (drop_bit 15 c OR push_bit 17 c) OR push_bit 15 (drop_bit 15 c OR push_bit 17 c) = (c :: u32)"
  by (rule bit_eqI) (auto simp: bit_simps, metis le_add_diff_inverse not_less)

lemma rotate_forth: "drop_bit 15 (drop_bit 17 c OR push_bit 15 c) OR push_bit 17 (drop_bit 17 c OR push_bit 15 c) = (c :: u32)"
  by (rule bit_eqI) (auto simp: bit_simps, metis le_add_diff_inverse not_less)

lemma Unmask_Mask: "Unmask (Mask c) = c"
  by (simp only: Unmask_def Mask_def Let_def add_diff_cancel_right' rotate_back)

lemma Mask_Unmask: "Mask (Unmask c) = c"
  by (simp only: Unmask_def Mask_def Let_def rotate_forth diff_add_cancel)

text \<open>C14: the checksum. Whichever variant the build and the processor select, and wherever the
  bytes lie in memory, \<open>Extend\<close> ends without reading beyond them and returns the CRC-32C of the
  reference, bit by bit; a string can be checked in pieces; and masking is undone by \<open>Unmask\<close>.\<close>

theorem extend_correct:
  assumes "sse42 mm64 mm32"
  shows "Choose_Extend have_sse42 lp64 le mm64 mm32 cpu pval crc buf = Some (Inr (crc32c crc buf)) \<and>
    crc32c (crc32c crc buf) more = crc32c crc (buf @ more) \<and>
    Unmask (Mask crc) = crc \<and> Mask (Unmask crc) = crc"
  using crc_block.ExtendImpl_crc32c [OF fast_block [OF assms]]
  by (simp add: Choose_Extend_def slow.ExtendImpl_crc32c crc32c_append Unmask_Mask Mask_Unmask)

text \<open>The instructions as functions; the check value of CRC-32C is that of the digits 1 to 9.\<close>

definition model_u64 :: "u64 \<Rightarrow> u64 \<Rightarrow> u64" where
  "model_u64 c w = ucast (crc_bytes (ucast c) (le_bytes 8 w))"

definition model_u32 :: "u32 \<Rightarrow> u32 \<Rightarrow> u32" where
  "model_u32 c w = crc_bytes c (le_bytes 4 w)"

lemma sse42_model: "sse42 model_u64 model_u32"
proof -
  have "ucast (ucast d :: u64) = (d :: u32)" for d by (auto intro!: bit_eqI simp: bit_simps)
  then show ?thesis by (simp add: sse42_def model_u64_def model_u32_def)
qed

lemma check_steps:
  "crc_byte (- 1) 49 = 0x6f0a661c"
  "crc_byte 0x6f0a661c 50 = 0x8caa3b9f"
  "crc_byte 0x8caa3b9f 51 = 0xef84d04d"
  "crc_byte 0xef84d04d 52 = 0x09c50b11"
  "crc_byte 0x09c50b11 53 = 0xe72edcca"
  "crc_byte 0xe72edcca 54 = 0xbeca8e79"
  "crc_byte 0xbeca8e79 55 = 0xedbd6815"
  "crc_byte 0xedbd6815 56 = 0x9f787f65"
  "crc_byte 0x9f787f65 57 = 0x1cf96d7c"
  by (simp_all only: crc_byte_shift) (simp_all add: table0_def mask_eq_exp_minus_1)

lemma check_value: "crc32c 0 [49, 50, 51, 52, 53, 54, 55, 56, 57] = 0xe3069283"
proof -
  have "NOT 0 = (- 1 :: u32)" "NOT 0x1cf96d7c = (0xe3069283 :: u32)" by simp_all
  then show ?thesis by (simp add: crc32c_def check_steps)
qed

theorem extend_correct_witness:
  "Choose_Extend True True True model_u64 model_u32 True 7 0 [49, 50, 51, 52, 53, 54, 55, 56, 57] =
     Some (Inr 0xe3069283)"
  using extend_correct [OF sse42_model, of True True True True 7 0 "[49, 50, 51, 52, 53, 54, 55, 56, 57]" "[]"]
  by (simp add: check_value)

subsection \<open>What the checksum detects\<close>

lemma crc_bit_eq_0: "crc_bit x = 0 \<Longrightarrow> x = 0"
proof -
  assume z: "crc_bit x = 0"
  have "\<not> bit x 0"
  proof
    assume "bit x 0"
    then have "bit (drop_bit 1 x XOR 0x82f63b78) 31" by (simp add: bit_simps) (use u32_bit_less in fastforce)
    with z \<open>bit x 0\<close> show False by (simp add: crc_bit_def)
  qed
  then have "drop_bit 1 x = 0" using z by (simp add: crc_bit_def)
  moreover have "bit (drop_bit 1 x) n = bit x (Suc n)" for n by (simp add: bit_simps)
  ultimately have "\<not> bit x (Suc n)" for n by (metis bit_0_eq bot_apply bot_bool_def)
  with \<open>\<not> bit x 0\<close> have "\<not> bit x n" for n by (cases n) simp_all
  then show ?thesis by (simp add: bit_eq_iff)
qed

lemma xor_cancel: "a XOR c = b XOR c \<Longrightarrow> a = b" "c XOR a = c XOR b \<Longrightarrow> a = (b :: u32)"
  by (metis xor.assoc xor.commute xor.right_neutral xor_self_eq)+

lemma crc_steps_eq_0: "crc_steps n x = 0 \<Longrightarrow> x = 0"
  by (induction n) (auto dest: crc_bit_eq_0)

lemma crc_steps_inj: "crc_steps n x = crc_steps n y \<Longrightarrow> x = y"
  using crc_steps_eq_0 [of n "x XOR y"] xor_cancel(1) [of x y y] by (simp add: crc_steps_linear)

lemma crc_bytes_inj: "crc_bytes c ys = crc_bytes c' ys \<Longrightarrow> c = c'"
  by (induction ys rule: rev_induct) (auto simp: crc_byte_def dest!: crc_steps_inj xor_cancel)

text \<open>C36: an error of up to four bytes in a row is always detected: two strings that differ only
  there have different checksums, wherever they lie in memory.\<close>

theorem burst_detected:
  assumes "length d = length d'" "length d \<le> 4" "d \<noteq> d'"
  shows "ExtendImpl (Slow_CRC32 le) pval crc (xs @ d @ ys) \<noteq> ExtendImpl (Slow_CRC32 le') pval' crc (xs @ d' @ ys)"
proof
  assume "ExtendImpl (Slow_CRC32 le) pval crc (xs @ d @ ys) = ExtendImpl (Slow_CRC32 le') pval' crc (xs @ d' @ ys)"
  then have "crc_bytes (crc_bytes (NOT crc) (xs @ d)) ys = crc_bytes (crc_bytes (NOT crc) (xs @ d')) ys"
    by (simp add: slow.ExtendImpl_crc32c crc32c_def)
  then have "crc_bytes (crc_bytes (NOT crc) xs) d = crc_bytes (crc_bytes (NOT crc) xs) d'"
    by (auto dest: crc_bytes_inj)
  then have "crc_steps (8 * length d) (crc_bytes (NOT crc) xs XOR of_le d) =
      crc_steps (8 * length d) (crc_bytes (NOT crc) xs XOR of_le d')"
    using assms(1,2) by (simp add: crc_bytes_word)
  from crc_steps_inj [OF this] have "of_le d = (of_le d' :: u32)" by (rule xor_cancel(2))
  then have "d = d'"
  proof -
    have "le_bytes (length d) (of_le d :: u32) = d" "le_bytes (length d') (of_le d' :: u32) = d'"
      by (rule le_bytes_of_le, use assms(1,2) in simp)+
    with \<open>of_le d = (of_le d' :: u32)\<close> assms(1) show ?thesis by metis
  qed
  with assms(3) show False by simp
qed

theorem burst_detected_witness:
  "ExtendImpl (Slow_CRC32 True) 3 0 [1, 2, 3, 4] \<noteq> ExtendImpl (Slow_CRC32 True) 3 0 [1, 9, 3, 4]"
  using burst_detected [of "[2]" "[9]" True 3 0 "[1]" "[3, 4]" True 3] by simp

end
