(* ===== verification/LogFile.thy ===== *)
theory LogFile
  imports Crc32c
begin

section \<open>RocksDB: the write-ahead log\<close>

text \<open>
  \<open>db/log_format.h\<close>, \<open>db/log_writer.cc\<close> and \<open>db/log_reader.cc\<close>: every batch of updates is one
  record of the log, cut into physical records that do not cross the borders of blocks of 32768
  bytes, and read back when the database is opened. \<open>Extend\<close> is its result \<open>crc32c\<close>
  (\<open>extend_correct\<close>). The file that is written is a parameter with the interface \<open>log_dest\<close>; the
  file that is read is what is left of its bytes, with a list that says which of the next
  reads fail.
\<close>

subsection \<open>The format\<close>

datatype record_type =
    kZeroType
  | kFullType
  | kFirstType
  | kMiddleType
  | kLastType
  | kRecyclableFullType
  | kRecyclableFirstType
  | kRecyclableMiddleType
  | kRecyclableLastType

fun type_no :: "record_type \<Rightarrow> nat" where
  "type_no kZeroType = 0"
| "type_no kFullType = 1"
| "type_no kFirstType = 2"
| "type_no kMiddleType = 3"
| "type_no kLastType = 4"
| "type_no kRecyclableFullType = 5"
| "type_no kRecyclableFirstType = 6"
| "type_no kRecyclableMiddleType = 7"
| "type_no kRecyclableLastType = 8"

definition kMaxRecordType :: nat where
  "kMaxRecordType = type_no kRecyclableLastType"

definition kBlockSize :: nat where
  "kBlockSize = 32768"

definition kHeaderSize :: nat where
  "kHeaderSize = 4 + 2 + 1"

definition kRecyclableHeaderSize :: nat where
  "kRecyclableHeaderSize = 4 + 1 + 4 + 2"

lemmas format_consts = kMaxRecordType_def kBlockSize_def kHeaderSize_def kRecyclableHeaderSize_def

text \<open>\<open>crc32c::Value\<close>.\<close>

definition crc_value :: "byte list \<Rightarrow> u32" where
  "crc_value data = crc32c 0 data"

subsection \<open>The writer\<close>

text \<open>\<open>Append\<close> and \<open>Flush\<close> of the file; the \<open>bool\<close> is \<open>status.ok()\<close>.\<close>

record 'f file_ops =
  f_append :: "'f \<Rightarrow> slice \<Rightarrow> bool \<times> 'f"
  f_flush :: "'f \<Rightarrow> bool \<times> 'f"

record 'f log_writer =
  dest :: 'f
  block_offset :: nat
  wr_log_number :: u64
  recycle_log_files :: bool
  type_crc :: "u32 list"

definition new_writer :: "'f \<Rightarrow> u64 \<Rightarrow> bool \<Rightarrow> 'f log_writer" where
  "new_writer f log_number recycle =
     \<lparr>dest = f, block_offset = 0, wr_log_number = log_number, recycle_log_files = recycle,
      type_crc = map (\<lambda>i. crc_value [word_of_nat i]) [0..<Suc kMaxRecordType]\<rparr>"

text \<open>The header: checksum, length, type, and the log number for recycled files. A length above
  65535 or a record beyond the block fails an assertion.\<close>

definition record_header :: "bool \<Rightarrow> 'f log_writer \<Rightarrow> record_type \<Rightarrow> slice \<Rightarrow> byte list" where
  "record_header le w t payload =
     (let n = word_of_nat (length payload) :: u64;
          log_no = (if type_no t < type_no kRecyclableFullType then []
                    else EncodeFixed32 le (ucast (wr_log_number w)));
          crc = crc32c (crc32c (type_crc w ! type_no t) log_no) payload
      in EncodeFixed32 le (Mask crc) @
         [ucast (n AND 0xff), ucast (drop_bit 8 n), word_of_nat (type_no t)] @ log_no)"

definition EmitPhysicalRecord ::
  "bool \<Rightarrow> 'f file_ops \<Rightarrow> record_type \<Rightarrow> slice \<Rightarrow> 'f log_writer \<Rightarrow> (bool \<times> 'f log_writer) res" where
  "EmitPhysicalRecord le ops t payload w =
     (let n = length payload;
          header_size = (if type_no t < type_no kRecyclableFullType then kHeaderSize
                         else kRecyclableHeaderSize);
          moved = w\<lparr>block_offset := block_offset w + header_size + n\<rparr>
      in if 0xffff < n \<or> kBlockSize < block_offset w + header_size + n then Inl Assert_Failed
         else (case f_append ops (dest w) (record_header le w t payload) of
             (False, f) \<Rightarrow> Inr (False, moved\<lparr>dest := f\<rparr>)
           | (True, f) \<Rightarrow>
               (case f_append ops f payload of
                  (False, f') \<Rightarrow> Inr (False, moved\<lparr>dest := f'\<rparr>)
                | (True, f') \<Rightarrow>
                    (case f_flush ops f' of (s, f'') \<Rightarrow> Inr (s, moved\<lparr>dest := f''\<rparr>)))))"

text \<open>The first part of the loop of \<open>AddRecord\<close>: a rest of the block that is too short for a header is
  filled with zeros. The status of that \<open>Append\<close> is dropped.\<close>

definition writer_header_size :: "'f log_writer \<Rightarrow> nat" where
  "writer_header_size w = (if recycle_log_files w then kRecyclableHeaderSize else kHeaderSize)"

definition switch_block :: "'f file_ops \<Rightarrow> 'f log_writer \<Rightarrow> 'f log_writer" where
  "switch_block ops w =
     (let leftover = kBlockSize - block_offset w
      in if leftover < writer_header_size w
         then (let w' = (if 0 < leftover
                         then w\<lparr>dest := snd (f_append ops (dest w) (take leftover (replicate 10 0)))\<rparr>
                         else w)
               in w'\<lparr>block_offset := 0\<rparr>)
         else w)"

definition fragment_type :: "bool \<Rightarrow> bool \<Rightarrow> bool \<Rightarrow> record_type" where
  "fragment_type recycle is_first is_last =
     (if is_first \<and> is_last then if recycle then kRecyclableFullType else kFullType
      else if is_first then if recycle then kRecyclableFirstType else kFirstType
      else if is_last then if recycle then kRecyclableLastType else kLastType
      else if recycle then kRecyclableMiddleType else kMiddleType)"

lemma writer_fields [simp]:
  "recycle_log_files (switch_block ops w) = recycle_log_files w"
  "writer_header_size (switch_block ops w) = writer_header_size w"
  "wr_log_number (switch_block ops w) = wr_log_number w"
  "type_crc (switch_block ops w) = type_crc w"
  by (simp_all add: switch_block_def writer_header_size_def Let_def)

lemma emit_fields:
  assumes "EmitPhysicalRecord le ops t p w = Inr (s, w')"
  shows "recycle_log_files w' = recycle_log_files w" "wr_log_number w' = wr_log_number w"
    "type_crc w' = type_crc w"
    "block_offset w' = block_offset w +
      (if type_no t < type_no kRecyclableFullType then kHeaderSize else kRecyclableHeaderSize) + length p"
  using assms by (auto simp: EmitPhysicalRecord_def Let_def split: if_splits prod.splits bool.splits)

lemma header_by_type:
  "(if type_no (fragment_type recycle is_first is_last) < type_no kRecyclableFullType
    then kHeaderSize else kRecyclableHeaderSize) =
   (if recycle then kRecyclableHeaderSize else kHeaderSize)"
  by (simp add: fragment_type_def)

text \<open>\<open>AddRecord\<close> from the top of its loop; \<open>is_first\<close> is the variable \<open>begin\<close>, \<open>left\<close> the bytes from
  \<open>ptr\<close> on.\<close>

function add_loop ::
  "bool \<Rightarrow> 'f file_ops \<Rightarrow> bool \<Rightarrow> slice \<Rightarrow> 'f log_writer \<Rightarrow> (bool \<times> 'f log_writer) res" where
  "add_loop le ops is_first left w =
     (if kBlockSize < block_offset w then Inl Assert_Failed
      else (let w1 = switch_block ops w;
                avail = kBlockSize - block_offset w1 - writer_header_size w1;
                fragment_length = min (length left) avail;
                t = fragment_type (recycle_log_files w1) is_first (length left = fragment_length)
            in if kBlockSize < block_offset w1 + writer_header_size w1 then Inl Assert_Failed
               else bind_res (EmitPhysicalRecord le ops t (take fragment_length left) w1) (\<lambda>(s, w2).
                 if s \<and> drop fragment_length left \<noteq> []
                 then add_loop le ops False (drop fragment_length left) w2
                 else Inr (s, w2))))"
  by pat_completeness auto
termination
proof (relation "measure (\<lambda>(_, _, _, left, w).
    2 * length left + (if kBlockSize - block_offset w < writer_header_size w then 0 else 1))", goal_cases)
  case (2 le ops is_first left w w1 avail fragment_length t x s w2)
  note emit = emit_fields [OF 2(7) [unfolded 2(8) [symmetric]]]
  show ?case
  proof (cases "avail = 0")
    case False
    with 2 show ?thesis by (auto simp: min_def split: if_splits)
  next
    case True
    have "w1 = w \<and> \<not> kBlockSize - block_offset w < writer_header_size w"
      using True 2(2,3,6) by (auto simp: switch_block_def writer_header_size_def format_consts Let_def split: if_splits)
    moreover have "kBlockSize - block_offset w2 < writer_header_size w2"
      using emit True 2(3) unfolding 2(5) header_by_type
      by (auto simp: writer_header_size_def format_consts split: if_splits)
    ultimately show ?thesis using True 2(4) by simp
  qed
qed simp

declare add_loop.simps [simp del]

lemma add_loop_unfold:
  assumes "w1 = switch_block ops w"
    "fl = min (length left) (kBlockSize - block_offset w1 - writer_header_size w1)"
    "t = fragment_type (recycle_log_files w1) is_first (length left = fl)"
  shows "add_loop le ops is_first left w =
    (if kBlockSize < block_offset w \<or> kBlockSize < block_offset w1 + writer_header_size w1 then Inl Assert_Failed
     else bind_res (EmitPhysicalRecord le ops t (take fl left) w1) (\<lambda>(s, w2).
       if s \<and> drop fl left \<noteq> [] then add_loop le ops False (drop fl left) w2 else Inr (s, w2)))"
proof -
  have "(if A then x else if B then x else y) = (if A \<or> B then x else y)"
    for A B and x y :: "(bool \<times> 'a log_writer) res" by simp
  then show ?thesis by (subst add_loop.simps) (simp only: Let_def assms)
qed

definition AddRecord ::
  "bool \<Rightarrow> 'f file_ops \<Rightarrow> slice \<Rightarrow> 'f log_writer \<Rightarrow> (bool \<times> 'f log_writer) res" where
  "AddRecord le ops s w = add_loop le ops True s w"

subsection \<open>The reader\<close>

text \<open>The file: \<open>Read\<close> returns fewer bytes than asked for only at its end.\<close>

record seq_file =
  seq_rest :: slice
  seq_fails :: "bool list"

definition seq_read :: "nat \<Rightarrow> seq_file \<Rightarrow> bool \<times> slice \<times> seq_file" where
  "seq_read n f =
     (case seq_fails f of
        True # bs \<Rightarrow> (False, [], f\<lparr>seq_fails := bs\<rparr>)
      | bs \<Rightarrow> (True, take n (seq_rest f), f\<lparr>seq_rest := drop n (seq_rest f), seq_fails := tl bs\<rparr>))"

definition seq_skip :: "nat \<Rightarrow> seq_file \<Rightarrow> bool \<times> seq_file" where
  "seq_skip n f =
     (case seq_fails f of
        True # bs \<Rightarrow> (False, f\<lparr>seq_fails := bs\<rparr>)
      | bs \<Rightarrow> (True, f\<lparr>seq_rest := drop n (seq_rest f), seq_fails := tl bs\<rparr>))"

record log_reader =
  rd_file :: seq_file
  checksum :: bool
  buffer :: slice
  eof :: bool
  read_error :: bool
  eof_offset :: nat
  last_record_offset :: u64
  end_of_buffer_offset :: u64
  initial_offset :: u64
  rd_log_number :: u64
  recycled :: bool
  reports :: "(nat \<times> string) list option"

text \<open>\<open>reports\<close> is what the reporter has been told; \<open>None\<close> is the null pointer.\<close>

definition new_reader ::
  "slice \<Rightarrow> bool list \<Rightarrow> bool \<Rightarrow> bool \<Rightarrow> u64 \<Rightarrow> u64 \<Rightarrow> log_reader" where
  "new_reader contents fails has_reporter cs initial log_num =
     \<lparr>rd_file = \<lparr>seq_rest = contents, seq_fails = fails\<rparr>, checksum = cs, buffer = [], eof = False,
      read_error = False, eof_offset = 0, last_record_offset = 0, end_of_buffer_offset = 0,
      initial_offset = initial, rd_log_number = log_num, recycled = False,
      reports = (if has_reporter then Some [] else None)\<rparr>"

definition ReportDrop :: "nat \<Rightarrow> string \<Rightarrow> log_reader \<Rightarrow> log_reader" where
  "ReportDrop bytes reason r =
     (case reports r of
        None \<Rightarrow> r
      | Some rs \<Rightarrow>
          (if initial_offset r \<le> end_of_buffer_offset r - word_of_nat (length (buffer r)) - word_of_nat bytes
           then r\<lparr>reports := Some (rs @ [(bytes, reason)])\<rparr> else r))"

definition ReportCorruption :: "nat \<Rightarrow> string \<Rightarrow> log_reader \<Rightarrow> log_reader" where
  "ReportCorruption bytes reason r = ReportDrop bytes reason r"

definition SkipToInitialBlock :: "log_reader \<Rightarrow> bool \<times> log_reader" where
  "SkipToInitialBlock r =
     (let initial_offset_in_block = initial_offset r mod word_of_nat kBlockSize;
          start = initial_offset r - initial_offset_in_block;
          start = (if word_of_nat kBlockSize - 6 < initial_offset_in_block
                   then start + word_of_nat kBlockSize else start);
          r = r\<lparr>end_of_buffer_offset := start\<rparr>
      in if 0 < start then
           (case seq_skip (unat start) (rd_file r) of
              (True, f) \<Rightarrow> (True, r\<lparr>rd_file := f\<rparr>)
            | (False, f) \<Rightarrow> (False, ReportDrop (unat start) ''skip'' (r\<lparr>rd_file := f\<rparr>)))
         else (True, r))"

text \<open>The results of \<open>ReadPhysicalRecord\<close>: a type of the format, or a special value.\<close>

definition kEof :: u32 where "kEof = word_of_nat (kMaxRecordType + 1)"
definition kBadRecord :: u32 where "kBadRecord = word_of_nat (kMaxRecordType + 2)"
definition kBadHeader :: u32 where "kBadHeader = word_of_nat (kMaxRecordType + 3)"
definition kOldRecord :: u32 where "kOldRecord = word_of_nat (kMaxRecordType + 4)"
definition kBadRecordLen :: u32 where "kBadRecordLen = word_of_nat (kMaxRecordType + 5)"
definition kBadRecordChecksum :: u32 where "kBadRecordChecksum = word_of_nat (kMaxRecordType + 6)"

text \<open>\<open>ReadMore\<close>: \<open>None\<close> is the result \<open>true\<close>, else the error with what becomes of \<open>drop_size\<close>.\<close>

definition ReadMore :: "nat \<Rightarrow> log_reader \<Rightarrow> (u32 \<times> nat) option \<times> log_reader" where
  "ReadMore drop_size r =
     (if \<not> eof r \<and> \<not> read_error r then
        (case seq_read kBlockSize (rd_file r) of
           (ok, data, f) \<Rightarrow>
             (let r = r\<lparr>rd_file := f, buffer := data,
                        end_of_buffer_offset := end_of_buffer_offset r + word_of_nat (length data)\<rparr>
              in if \<not> ok then
                   (Some (kEof, drop_size), (ReportDrop kBlockSize ''read'' (r\<lparr>buffer := []\<rparr>))\<lparr>read_error := True\<rparr>)
                 else if length data < kBlockSize then
                   (None, r\<lparr>eof := True, eof_offset := length data\<rparr>)
                 else (None, r)))
      else if buffer r \<noteq> [] then (Some (kBadHeader, length (buffer r)), r\<lparr>buffer := []\<rparr>)
      else (Some (kEof, drop_size), r))"

definition reader_left :: "log_reader \<Rightarrow> nat" where
  "reader_left r = 2 * length (seq_rest (rd_file r)) + (if eof r then 0 else 1)"

lemma ReadMore_decreases: "ReadMore d r = (None, r') \<Longrightarrow> reader_left r' < reader_left r"
  by (auto simp: ReadMore_def seq_read_def reader_left_def kBlockSize_def Let_def ReportDrop_def
      split: if_splits list.splits bool.splits prod.splits)

text \<open>\<open>ReadPhysicalRecord\<close>: the result, the fragment when \<open>result\<close> is written, \<open>drop_size\<close>.\<close>

function ReadPhysicalRecord ::
  "bool \<Rightarrow> nat \<Rightarrow> log_reader \<Rightarrow> (u32 \<times> slice option \<times> nat \<times> log_reader) res" where
  "ReadPhysicalRecord le drop_size r =
     (let more = (case ReadMore drop_size r of
                    (None, r') \<Rightarrow> ReadPhysicalRecord le drop_size r'
                  | (Some (e, d), r') \<Rightarrow> Inr (e, None, d, r'));
          header = buffer r
      in if length header < kHeaderSize then more
         else
           (let type = scast (header ! 6) :: u32;
                len = unat (ucast (header ! 4) OR push_bit 8 (ucast (header ! 5)) :: u32);
                recyclable = word_of_nat (type_no kRecyclableFullType) \<le> type \<and>
                             type \<le> word_of_nat (type_no kRecyclableLastType);
                header_size = (if recyclable then kRecyclableHeaderSize else kHeaderSize);
                r = (if recyclable \<and> end_of_buffer_offset r - word_of_nat (length (buffer r)) = 0
                     then r\<lparr>recycled := True\<rparr> else r)
            in if recyclable \<and> length header < kRecyclableHeaderSize then
                 (case ReadMore drop_size r of
                    (None, r') \<Rightarrow> ReadPhysicalRecord le drop_size r'
                  | (Some (e, d), r') \<Rightarrow> Inr (e, None, d, r'))
               else bind_res (if recyclable then DecodeFixed32 le (drop 7 header) else Inr 0) (\<lambda>log_num.
                 if recyclable \<and> ucast log_num \<noteq> rd_log_number r then Inr (kOldRecord, None, drop_size, r)
                 else if length header < header_size + len then
                   Inr (if \<not> eof r then kBadRecordLen else if header \<noteq> [] then kBadHeader else kEof,
                        None, length header, r\<lparr>buffer := []\<rparr>)
                 else if type = 0 \<and> len = 0 then Inr (kBadRecord, None, drop_size, r\<lparr>buffer := []\<rparr>)
                 else bind_res (DecodeFixed32 le header) (\<lambda>stored.
                   if checksum r \<and> crc_value (take (len + header_size - 6) (drop 6 header)) \<noteq> Unmask stored
                   then Inr (kBadRecordChecksum, None, length header, r\<lparr>buffer := []\<rparr>)
                   else (let r = r\<lparr>buffer := drop (header_size + len) header\<rparr>
                         in if end_of_buffer_offset r - word_of_nat (length (buffer r)) -
                               word_of_nat header_size - word_of_nat len < initial_offset r
                            then Inr (kBadRecord, Some [], drop_size, r)
                            else Inr (type, Some (take len (drop header_size header)), drop_size, r))))))"
  by pat_completeness auto
termination
proof (relation "measure (\<lambda>(_, _, r). reader_left r)", goal_cases)
  case (3 le drop_size r)
  then show ?case
    by (auto dest!: sym [of "(None, _)"] ReadMore_decreases simp: reader_left_def split: if_splits)
qed (auto dest!: ReadMore_decreases [OF sym])

declare ReadPhysicalRecord.simps [simp del]

datatype recovery_mode =
    kTolerateCorruptedTailRecords
  | kAbsoluteConsistency
  | kPointInTimeRecovery
  | kSkipAnyCorruptedRecords

text \<open>The variables of the loop of \<open>ReadRecord\<close>.\<close>

record scan =
  in_fragmented_record :: bool
  scratch :: slice
  prospective_record_offset :: u64
  fragment :: slice

definition no_scan :: scan where
  "no_scan = \<lparr>in_fragmented_record = False, scratch = [], prospective_record_offset = 0, fragment = []\<rparr>"

abbreviation code_of :: "record_type \<Rightarrow> u32" where
  "code_of t \<equiv> word_of_nat (type_no t)"

text \<open>A report only when the reader is inside a fragmented record, and the record is given up.\<close>

definition give_up :: "string \<Rightarrow> scan \<Rightarrow> log_reader \<Rightarrow> scan \<times> log_reader" where
  "give_up reason s r =
     (if in_fragmented_record s
      then (s\<lparr>in_fragmented_record := False, scratch := []\<rparr>, ReportCorruption (length (scratch s)) reason r)
      else (s, r))"

definition end_of_input :: "recovery_mode \<Rightarrow> scan \<Rightarrow> log_reader \<Rightarrow> log_reader" where
  "end_of_input mode s r =
     (if in_fragmented_record s \<and> mode = kAbsoluteConsistency
      then ReportCorruption (length (scratch s)) ''error reading trailing data'' r else r)"

text \<open>One round of the loop: the result (\<open>None\<close> is \<open>false\<close>), or the variables of the next round.\<close>

definition read_round ::
  "bool \<Rightarrow> recovery_mode \<Rightarrow> scan \<Rightarrow> log_reader \<Rightarrow>
     (slice option \<times> log_reader + scan \<times> log_reader) res" where
  "read_round le mode s r =
     (let physical_record_offset = end_of_buffer_offset r - word_of_nat (length (buffer r))
      in bind_res (ReadPhysicalRecord le 0 r) (\<lambda>(record_type, result, drop_size, r).
        let s = (case result of None \<Rightarrow> s | Some f \<Rightarrow> s\<lparr>fragment := f\<rparr>);
            partial = in_fragmented_record s \<and> scratch s \<noteq> [] in
        Inr (
        if record_type = code_of kFullType \<or> record_type = code_of kRecyclableFullType then
          (let r = (if partial then ReportCorruption (length (scratch s)) ''partial record without end(1)'' r else r)
           in Inl (Some (fragment s), r\<lparr>last_record_offset := physical_record_offset\<rparr>))
        else if record_type = code_of kFirstType \<or> record_type = code_of kRecyclableFirstType then
          (let r = (if partial then ReportCorruption (length (scratch s)) ''partial record without end(2)'' r else r)
           in Inr (s\<lparr>prospective_record_offset := physical_record_offset, scratch := fragment s,
                     in_fragmented_record := True\<rparr>, r))
        else if record_type = code_of kMiddleType \<or> record_type = code_of kRecyclableMiddleType then
          Inr (if \<not> in_fragmented_record s
               then (s, ReportCorruption (length (fragment s)) ''missing start of fragmented record(1)'' r)
               else (s\<lparr>scratch := scratch s @ fragment s\<rparr>, r))
        else if record_type = code_of kLastType \<or> record_type = code_of kRecyclableLastType then
          (if \<not> in_fragmented_record s
           then Inr (s, ReportCorruption (length (fragment s)) ''missing start of fragmented record(2)'' r)
           else Inl (Some (scratch s @ fragment s), r\<lparr>last_record_offset := prospective_record_offset s\<rparr>))
        else if record_type = kBadHeader then
          (let r = (if mode = kAbsoluteConsistency then ReportCorruption drop_size ''truncated header'' r else r)
           in Inl (None, end_of_input mode s r))
        else if record_type = kEof then Inl (None, end_of_input mode s r)
        else if record_type = kOldRecord then
          (if mode \<noteq> kSkipAnyCorruptedRecords then Inl (None, end_of_input mode s r)
           else Inr (give_up ''error in middle of record'' s r))
        else if record_type = kBadRecord then Inr (give_up ''error in middle of record'' s r)
        else if record_type = kBadRecordLen \<or> record_type = kBadRecordChecksum then
          (if recycled r \<and> mode = kTolerateCorruptedTailRecords then Inl (None, r)
           else Inr (give_up ''error in middle of record'' s
             (ReportCorruption drop_size
               (if record_type = kBadRecordLen then ''bad record length'' else ''checksum mismatch'') r)))
        else
          Inr (s\<lparr>in_fragmented_record := False, scratch := []\<rparr>,
            ReportCorruption (length (fragment s) + (if in_fragmented_record s then length (scratch s) else 0))
              ''unknown record type'' r))))"

partial_function (option) read_loop ::
  "bool \<Rightarrow> recovery_mode \<Rightarrow> scan \<Rightarrow> log_reader \<Rightarrow> (slice option \<times> log_reader) res option" where
  "read_loop le mode s r =
     (case read_round le mode s r of
        Inl f \<Rightarrow> Some (Inl f)
      | Inr (Inl result) \<Rightarrow> Some (Inr result)
      | Inr (Inr (s', r')) \<Rightarrow> read_loop le mode s' r')"

definition ReadRecord ::
  "bool \<Rightarrow> recovery_mode \<Rightarrow> log_reader \<Rightarrow> (slice option \<times> log_reader) res option" where
  "ReadRecord le mode r =
     (if last_record_offset r < initial_offset r then
        (case SkipToInitialBlock r of
           (False, r) \<Rightarrow> Some (Inr (None, r))
         | (True, r) \<Rightarrow> read_loop le mode no_scan r)
      else read_loop le mode no_scan r)"

definition UnmarkEOF :: "log_reader \<Rightarrow> log_reader" where
  "UnmarkEOF r =
     (if read_error r then r
      else if eof_offset r = 0 then r\<lparr>eof := False\<rparr>
      else (let remaining = kBlockSize - eof_offset r in
        case seq_read remaining (rd_file r) of
          (ok, added, f) \<Rightarrow>
            (let r = r\<lparr>rd_file := f, eof := False,
                       end_of_buffer_offset := end_of_buffer_offset r + word_of_nat (length added)\<rparr>
             in if \<not> ok then (if added \<noteq> [] then ReportDrop (length added) ''read'' r else r)\<lparr>read_error := True\<rparr>
                else if length added < remaining
                then r\<lparr>buffer := buffer r @ added, eof := True, eof_offset := eof_offset r + length added\<rparr>
                else r\<lparr>buffer := buffer r @ added, eof_offset := 0\<rparr>)))"

end
