(* ===== verification/LogLayout.thy ===== *)
theory LogLayout
  imports LogFile
begin

section \<open>RocksDB: what is in the log\<close>

text \<open>
  What \<open>AddRecord\<close> puts into the file, one physical record at a time: the fragments of every record
  in order, behind a rest of a block that is too short for a header (\<open>fragments\<close>, \<open>layout\<close>). The
  file is any that satisfies \<open>log_dest\<close>.
\<close>

subsection \<open>The file of the writer\<close>

locale log_dest =
  fixes ops :: "'f file_ops" and contents :: "'f \<Rightarrow> slice" and stored :: "'f \<Rightarrow> slice"
  assumes append_ok: "f_append ops f d = (True, f') \<Longrightarrow> contents f' = contents f @ d"
    and flush_ok: "f_flush ops f = (True, f') \<Longrightarrow> contents f' = contents f \<and> stored f' = contents f"

text \<open>A physical record.\<close>

definition phys :: "'f log_writer \<Rightarrow> record_type \<Rightarrow> slice \<Rightarrow> slice" where
  "phys w t p = record_header True w t p @ p"

definition header_of :: "record_type \<Rightarrow> nat" where
  "header_of t = (if type_no t < type_no kRecyclableFullType then kHeaderSize else kRecyclableHeaderSize)"

lemma record_header_le: "record_header le w t p = record_header True w t p"
  by (simp add: record_header_def EncodeFixed32_le)

lemma length_header: "length (record_header le w t p) = header_of t"
  by (cases t) (simp_all add: record_header_def EncodeFixed32_le header_of_def format_consts Let_def)

definition log_table :: "u32 list" where
  "log_table = map (\<lambda>i. crc_value [word_of_nat i]) [0..<Suc kMaxRecordType]"

lemma log_table_nth: "log_table ! type_no t = crc_value [word_of_nat (type_no t)]"
  by (cases t) (simp_all add: log_table_def kMaxRecordType_def nth_append del: upt_Suc)

text \<open>The fields of the header, read back.\<close>

lemma header_layout:
  "record_header le w t p =
    le_bytes 4 (Mask (crc32c (crc32c (type_crc w ! type_no t)
        (if type_no t < 5 then [] else le_bytes 4 (ucast (wr_log_number w) :: u32))) p)) @
    [ucast (word_of_nat (length p) AND 0xff :: u64), ucast (drop_bit 8 (word_of_nat (length p) :: u64)),
     word_of_nat (type_no t)] @
    (if type_no t < 5 then [] else le_bytes 4 (ucast (wr_log_number w) :: u32))"
  by (simp add: record_header_def EncodeFixed32_le Let_def)

lemma bit_nat_less: "bit (n :: nat) k \<Longrightarrow> n < 2 ^ m \<Longrightarrow> k < m"
proof (rule ccontr)
  assume "bit n k" "n < 2 ^ m" "\<not> k < m"
  then have "n < 2 ^ k" by (meson less_le_trans not_le one_le_numeral power_increasing)
  with \<open>bit n k\<close> show False by (simp add: bit_iff_odd)
qed

lemma length_decoded:
  assumes "n \<le> 0xffff"
  shows "unat (ucast (ucast (word_of_nat n AND 0xff :: u64) :: byte) OR
      push_bit 8 (ucast (ucast (drop_bit 8 (word_of_nat n :: u64)) :: byte)) :: u32) = n"
proof -
  have "of_le [ucast (word_of_nat n :: u64), ucast (drop_bit 8 (word_of_nat n :: u64))] = (word_of_nat n :: u32)"
  proof (rule bit_eqI)
    fix k assume "possible_bit TYPE(u32) k"
    then have k: "k < 32" by simp
    have "bit n k \<Longrightarrow> k < 16"
      using assms by (intro bit_nat_less [of n k]) simp_all
    then show "bit (of_le [ucast (word_of_nat n :: u64), ucast (drop_bit 8 (word_of_nat n :: u64))] :: u32) k =
        bit (word_of_nat n :: u32) k"
      using k by (auto simp: bit_of_le bit_simps)
  qed
  then have "unat (of_le [ucast (word_of_nat n :: u64), ucast (drop_bit 8 (word_of_nat n :: u64))] :: u32) = n"
    using assms by (simp add: unat_of_nat)
  then show ?thesis by (simp add: byte_mask)
qed

lemma type_decoded [simp]: "scast (word_of_nat (type_no t) :: byte) = (code_of t :: u32)"
  by (cases t) simp_all


definition trailer :: "'f log_writer \<Rightarrow> slice" where
  "trailer w =
     (if kBlockSize - block_offset w < writer_header_size w then replicate (kBlockSize - block_offset w) 0 else [])"

definition trailer_ok :: "'f file_ops \<Rightarrow> 'f log_writer \<Rightarrow> bool" where
  "trailer_ok ops w \<longleftrightarrow> trailer w \<noteq> [] \<longrightarrow> fst (f_append ops (dest w) (trailer w))"

definition same_log :: "'f log_writer \<Rightarrow> 'f log_writer \<Rightarrow> bool" where
  "same_log w w' \<longleftrightarrow> recycle_log_files w' = recycle_log_files w \<and> wr_log_number w' = wr_log_number w \<and>
     type_crc w' = type_crc w"

lemma writer_header_of: "header_of (fragment_type (recycle_log_files w) a b) = writer_header_size w"
  by (simp add: header_of_def writer_header_size_def fragment_type_def)

lemma header_sizes: "writer_header_size w \<le> 11" "7 \<le> writer_header_size w" "header_of t \<le> 11" "7 \<le> header_of t"
  by (simp_all add: writer_header_size_def header_of_def format_consts)

context log_dest
begin

abbreviation written :: "'f log_writer \<Rightarrow> slice" where
  "written w \<equiv> contents (dest w)"

definition good :: "'f log_writer \<Rightarrow> bool" where
  "good w \<longleftrightarrow> block_offset w \<le> kBlockSize \<and> block_offset w mod kBlockSize = length (written w) mod kBlockSize \<and>
     type_crc w = log_table"

lemma emit_ok:
  assumes "EmitPhysicalRecord le ops t p w = Inr (True, w')"
  shows "written w' = written w @ phys w t p" "length p \<le> 0xffff"
    "block_offset w + header_of t + length p \<le> kBlockSize"
    "block_offset w' = block_offset w + header_of t + length p" "same_log w w'"
    "stored (dest w') = written w'"
proof -
  from assms obtain f1 f2 f3 where f: "f_append ops (dest w) (record_header le w t p) = (True, f1)"
    "f_append ops f1 p = (True, f2)" "f_flush ops f2 = (True, f3)" "dest w' = f3"
    by (auto simp: EmitPhysicalRecord_def Let_def split: if_splits prod.splits bool.splits)
  show "written w' = written w @ phys w t p"
    using append_ok [OF f(1)] append_ok [OF f(2)] flush_ok [OF f(3)] f(4) record_header_le [of le w t p]
    by (simp add: phys_def)
  show "stored (dest w') = written w'" using flush_ok [OF f(3)] f(4) by simp
  show "length p \<le> 0xffff" "block_offset w + header_of t + length p \<le> kBlockSize"
    using assms by (auto simp: EmitPhysicalRecord_def header_of_def Let_def split: if_splits)
  show "block_offset w' = block_offset w + header_of t + length p"
    using emit_fields(4) [OF assms] by (simp only: header_of_def)
  show "same_log w w'" using emit_fields(1-3) [OF assms] by (simp add: same_log_def)
qed

lemma emit_good:
  assumes "EmitPhysicalRecord le ops t p w = Inr (True, w')"
    "block_offset w mod kBlockSize = length (written w) mod kBlockSize" "type_crc w = log_table"
  shows "good w'"
proof -
  note em = emit_ok [OF assms(1)]
  have "block_offset w' mod kBlockSize = length (written w') mod kBlockSize"
    unfolding em(1,4) using mod_add_cong [OF assms(2) refl, of "header_of t + length p"]
    by (simp add: phys_def length_header add.assoc)
  with em(3,4,5) assms(3) show ?thesis by (simp add: good_def same_log_def)
qed

lemma switch_ok:
  assumes "trailer_ok ops w" "good w"
  shows "written (switch_block ops w) = written w @ trailer w"
    "block_offset (switch_block ops w) = length (written w @ trailer w) mod kBlockSize"
      "block_offset (switch_block ops w) + writer_header_size w \<le> kBlockSize"
proof -
  have bo: "block_offset w \<le> kBlockSize" "block_offset w mod kBlockSize = length (written w) mod kBlockSize"
    using assms(2) by (simp_all add: good_def)
  have z: "min n 10 = n" if "n < writer_header_size w" for n
    using that header_sizes(1) [of w] by (simp add: min_def)
  show "written (switch_block ops w) = written w @ trailer w"
    using assms(1) append_ok [of "dest w" "trailer w"]
    by (cases "f_append ops (dest w) (trailer w)")
       (auto simp: switch_block_def trailer_def trailer_ok_def z Let_def split: if_splits)
  show "block_offset (switch_block ops w) + writer_header_size w \<le> kBlockSize"
    using bo(1) header_sizes(1) [of w] by (auto simp: switch_block_def Let_def kBlockSize_def)
  show "block_offset (switch_block ops w) = length (written w @ trailer w) mod kBlockSize"
  proof (cases "kBlockSize - block_offset w < writer_header_size w")
    case True
    have "(length (written w) + (kBlockSize - block_offset w)) mod kBlockSize =
        (block_offset w + (kBlockSize - block_offset w)) mod kBlockSize"
      by (rule mod_add_cong) (simp_all add: bo)
    with True bo(1) show ?thesis by (simp add: switch_block_def trailer_def Let_def)
  next
    case False
    then have "block_offset w < kBlockSize" using header_sizes(2) [of w] bo(1) by linarith
    with False bo show ?thesis by (simp add: switch_block_def trailer_def Let_def)
  qed
qed

lemma add_step:
  assumes "add_loop le ops is_first left w = Inr (True, w')" "trailer_ok ops w" "good w"
  obtains fr rest t w2 where "left = fr @ rest" "t = fragment_type (recycle_log_files w) is_first (rest = [])"
    "written w2 = written w @ trailer w @ phys w t fr" "length fr \<le> 0xffff"
    "length (written w @ trailer w) mod kBlockSize + header_of t + length fr \<le> kBlockSize"
    "good w2" "same_log w w2" "stored (dest w2) = written w2" "rest = [] \<Longrightarrow> w' = w2"
    "rest \<noteq> [] \<Longrightarrow> add_loop le ops False rest w2 = Inr (True, w') \<and> trailer w2 = [] \<and>
       length (written w @ trailer w) mod kBlockSize + header_of t + length fr = kBlockSize"
proof -
  define w1 where "w1 = switch_block ops w"
  define fl where "fl = min (length left) (kBlockSize - block_offset w1 - writer_header_size w1)"
  define t where "t = fragment_type (recycle_log_files w1) is_first (length left = fl)"
  note sw = switch_ok [OF assms(2,3), folded w1_def]
  have same: "recycle_log_files w1 = recycle_log_files w" "writer_header_size w1 = writer_header_size w"
    "phys w1 t' p' = phys w t' p'" "type_crc w1 = type_crc w" "wr_log_number w1 = wr_log_number w" for t' p'
    by (simp_all add: w1_def phys_def record_header_def)
  obtain s w2 where e: "EmitPhysicalRecord le ops t (take fl left) w1 = Inr (s, w2)"
    "(if s \<and> drop fl left \<noteq> [] then add_loop le ops False (drop fl left) w2 else Inr (s, w2)) = Inr (True, w')"
    using assms(1) unfolding add_loop_unfold [OF w1_def fl_def t_def]
    by (auto simp: bind_res_Inr simp del: drop_eq_Nil split: if_splits)
  have s: "s" using e(2) by (auto split: if_splits)
  note em = emit_ok [OF e(1) [unfolded eqTrueI [OF s]]]
  have h: "header_of t = writer_header_size w" using same by (simp add: t_def writer_header_of)
  have end_iff: "length left = fl \<longleftrightarrow> drop fl left = []" by (auto simp: fl_def)
  have bo2: "block_offset w2 = length (written w @ trailer w) mod kBlockSize + header_of t + length (take fl left)"
    using em(4) sw(2) by simp
  show thesis
  proof (rule that [of "take fl left" "drop fl left" t w2])
    show "t = fragment_type (recycle_log_files w) is_first (drop fl left = [])"
      by (simp add: t_def end_iff same)
    show "written w2 = written w @ trailer w @ phys w t (take fl left)"
      using em(1) sw(1) same(3) by simp
    show "good w2" using emit_good [OF e(1) [unfolded eqTrueI [OF s]]] sw(1,2) assms(3) same
      by (simp add: good_def)
    show "same_log w w2" using em(5) same by (simp add: same_log_def)
    show "length (written w @ trailer w) mod kBlockSize + header_of t + length (take fl left) \<le> kBlockSize"
      using em(3) sw(2) by simp
    show "add_loop le ops False (drop fl left) w2 = Inr (True, w') \<and> trailer w2 = [] \<and>
        length (written w @ trailer w) mod kBlockSize + header_of t + length (take fl left) = kBlockSize"
      if "drop fl left \<noteq> []"
    proof -
      have "fl = kBlockSize - block_offset w1 - writer_header_size w1" "fl < length left"
        using that by (auto simp: fl_def)
      then have "block_offset w2 = kBlockSize" using em(4) h same(2) sw(3) by simp
      with that e(2) s bo2 show ?thesis by (simp add: trailer_def)
    qed
  qed (use em(2,6) e(2) s in auto)
qed

end

lemma length_phys: "length (phys w t p) = header_of t + length p"
  by (simp add: phys_def length_header)

definition block_end :: "nat \<Rightarrow> nat" where
  "block_end p = (p div kBlockSize + 1) * kBlockSize"

lemma block_end_props: "p < block_end p" "block_end p \<le> p + kBlockSize" "block_end p mod kBlockSize = 0"
  "block_end p = p - p mod kBlockSize + kBlockSize"
proof -
  have d: "p = p div kBlockSize * kBlockSize + p mod kBlockSize" "p mod kBlockSize < kBlockSize"
    by (simp_all add: kBlockSize_def)
  have e: "block_end p = p div kBlockSize * kBlockSize + kBlockSize" by (simp add: block_end_def)
  show "p < block_end p" using d e by linarith
  show "block_end p \<le> p + kBlockSize" using d e by linarith
  show "block_end p = p - p mod kBlockSize + kBlockSize" using d e by linarith
  show "block_end p mod kBlockSize = 0" by (simp add: block_end_def)
qed

lemma kBlockSize_pos [simp]: "0 < kBlockSize"
  by (simp add: kBlockSize_def)

lemma block_end_same: "p \<le> q \<Longrightarrow> q < block_end p \<Longrightarrow> block_end q = block_end p"
proof -
  assume q: "p \<le> q" "q < block_end p"
  have "q div kBlockSize < p div kBlockSize + 1"
    using q(2) by (simp add: block_end_def less_mult_imp_div_less)
  moreover have "p div kBlockSize \<le> q div kBlockSize" using q(1) by (rule div_le_mono)
  ultimately show ?thesis by (simp add: block_end_def)
qed

subsection \<open>The layout of a log\<close>

text \<open>The bytes from position \<open>q\<close> on are the fragments of a record, of a writer with the settings of \<open>w\<close>.\<close>

inductive fragments :: "'f log_writer \<Rightarrow> bool \<Rightarrow> nat \<Rightarrow> slice \<Rightarrow> slice \<Rightarrow> bool" for w where
  last: "t = fragment_type (recycle_log_files w) is_first True \<Longrightarrow> length fr \<le> 0xffff \<Longrightarrow>
    q mod kBlockSize + header_of t + length fr \<le> kBlockSize \<Longrightarrow> fragments w is_first q (phys w t fr) fr"
| further: "t = fragment_type (recycle_log_files w) is_first False \<Longrightarrow> length fr \<le> 0xffff \<Longrightarrow>
    q mod kBlockSize + header_of t + length fr \<le> kBlockSize \<Longrightarrow>
    fragments w False (q + length (phys w t fr)) bs rest \<Longrightarrow>
    fragments w is_first q (phys w t fr @ bs) (fr @ rest)"

text \<open>The bytes from position \<open>p\<close> on are a log of the records \<open>rs\<close>, which end at the positions \<open>ends\<close>.\<close>

inductive layout :: "'f log_writer \<Rightarrow> nat \<Rightarrow> slice \<Rightarrow> slice list \<Rightarrow> nat list \<Rightarrow> bool" for w where
  nil: "layout w p [] [] []"
| cons: "k = 0 \<or> (p + k = block_end p \<and> k \<le> 10) \<Longrightarrow> fragments w True (p + k) bs x \<Longrightarrow>
    layout w (p + k + length bs) later rs ends \<Longrightarrow>
    layout w p (replicate k 0 @ bs @ later) (x # rs) ((p + k + length bs) # ends)"

lemma fragments_same: "fragments w b q bs x \<Longrightarrow> same_log w w' \<Longrightarrow> fragments w' b q bs x"
proof (induction rule: fragments.induct)
  case (last t is_first fr q)
  have "phys w t fr = phys w' t fr" using last.prems by (simp add: phys_def record_header_def same_log_def)
  with last show ?case by (auto simp: same_log_def intro!: fragments.last)
next
  case (further t is_first fr q bs rest)
  have "phys w t fr = phys w' t fr" using further.prems by (simp add: phys_def record_header_def same_log_def)
  with further show ?case by (auto simp: same_log_def intro!: fragments.further)
qed

lemma layout_same: "layout w p bs rs es \<Longrightarrow> same_log w w' \<Longrightarrow> layout w' p bs rs es"
  by (induction rule: layout.induct) (auto intro: layout.intros fragments_same)

lemma same_log_sym: "same_log w w' \<Longrightarrow> same_log w' w"
  by (simp add: same_log_def)

lemma same_log_trans: "same_log w w' \<Longrightarrow> same_log w' w'' \<Longrightarrow> same_log w w''"
  by (simp add: same_log_def)

lemma header_pos: "0 < header_of t"
  using header_sizes(4) [of t] by linarith

lemma fragments_end: "fragments w b q bs x \<Longrightarrow> q < q + length bs"
  by (induction rule: fragments.induct) (auto simp: length_phys header_pos)

text \<open>Records added one after the other; every call succeeds, and so does what it appends to
  fill a block.\<close>

fun add_records :: "bool \<Rightarrow> 'f file_ops \<Rightarrow> slice list \<Rightarrow> 'f log_writer \<Rightarrow> (bool \<times> 'f log_writer) res" where
  "add_records le ops [] w = Inr (True, w)"
| "add_records le ops (x # rs) w =
     bind_res (AddRecord le ops x w) (\<lambda>(s, w'). if s then add_records le ops rs w' else Inr (False, w'))"

fun trailers_ok :: "bool \<Rightarrow> 'f file_ops \<Rightarrow> slice list \<Rightarrow> 'f log_writer \<Rightarrow> bool" where
  "trailers_ok le ops [] w = True"
| "trailers_ok le ops (x # rs) w = (trailer_ok ops w \<and>
     (case AddRecord le ops x w of Inr (True, w') \<Rightarrow> trailers_ok le ops rs w' | _ \<Rightarrow> True))"

text \<open>The length of the file after each of the records.\<close>

fun record_ends :: "bool \<Rightarrow> 'f file_ops \<Rightarrow> ('f \<Rightarrow> slice) \<Rightarrow> slice list \<Rightarrow> 'f log_writer \<Rightarrow> nat list" where
  "record_ends le ops contents [] w = []"
| "record_ends le ops contents (x # rs) w =
     (case AddRecord le ops x w of
        Inr (True, w') \<Rightarrow> length (contents (dest w')) # record_ends le ops contents rs w'
      | _ \<Rightarrow> [])"

context log_dest
begin

lemma add_fragments:
  assumes "add_loop le ops is_first left w = Inr (True, w')" "trailer_ok ops w" "good w"
  shows "\<exists>bs. written w' = written w @ trailer w @ bs \<and> good w' \<and> same_log w w' \<and> stored (dest w') = written w' \<and>
    fragments w is_first (length (written w @ trailer w)) bs left"
  using assms
proof (induction "2 * length left + (if length (written w @ trailer w) mod kBlockSize = 0 then 0 else 1)"
    arbitrary: is_first left w rule: less_induct)
  case less
  from less.prems obtain fr rest t w2 where st:
    "left = fr @ rest" "t = fragment_type (recycle_log_files w) is_first (rest = [])"
    "written w2 = written w @ trailer w @ phys w t fr" "length fr \<le> 0xffff"
    "length (written w @ trailer w) mod kBlockSize + header_of t + length fr \<le> kBlockSize"
    "good w2" "same_log w w2" "stored (dest w2) = written w2" "rest = [] \<Longrightarrow> w' = w2"
    "rest \<noteq> [] \<Longrightarrow> add_loop le ops False rest w2 = Inr (True, w') \<and> trailer w2 = [] \<and>
       length (written w @ trailer w) mod kBlockSize + header_of t + length fr = kBlockSize"
    by (rule add_step) blast
  define q where "q = length (written w @ trailer w)"
  show ?case
  proof (cases "rest = []")
    case True
    with st fragments.last [of t w is_first fr q] show ?thesis by (simp add: q_def)
  next
    case False
    have w2: "add_loop le ops False rest w2 = Inr (True, w')" "trailer w2 = []" and
      full: "q mod kBlockSize + header_of t + length fr = kBlockSize"
      using st(10) False by (simp_all add: q_def)
    have len: "length (written w2 @ trailer w2) = q + length (phys w t fr)"
      using st(3) w2(2) by (simp add: q_def)
    have "(q mod kBlockSize + (header_of t + length fr)) mod kBlockSize = 0"
      using full by (simp add: add.assoc)
    then have z: "length (written w2 @ trailer w2) mod kBlockSize = 0"
      unfolding len length_phys by (simp only: mod_simps)
    have "fr = [] \<Longrightarrow> q mod kBlockSize \<noteq> 0"
      using full header_sizes(3) [of t] by (auto simp: kBlockSize_def)
    then have "2 * length rest + 0 < 2 * length left + (if q mod kBlockSize = 0 then 0 else 1)"
      by (cases fr) (simp_all add: st(1))
    with less.hyps [OF _ w2(1)] w2(2) st(6) z obtain bs where bs:
      "written w' = written w2 @ bs" "good w'" "same_log w2 w'" "stored (dest w') = written w'" "fragments w2 False (length (written w2)) bs rest"
      by (fastforce simp: trailer_ok_def q_def)
    have "fragments w False (q + length (phys w t fr)) bs rest"
      using fragments_same [OF bs(5) same_log_sym [OF st(7)]] len w2(2) by simp
    from fragments.further [OF _ st(4) _ this, of is_first] st False bs same_log_trans show ?thesis
      by (auto simp: q_def)
  qed
qed

lemma trailer_zeros:
  assumes "good w"
  obtains k where "trailer w = replicate k 0"
    "k = 0 \<or> (length (written w) + k = block_end (length (written w)) \<and> k \<le> 10)"
proof (cases "kBlockSize - block_offset w < writer_header_size w \<and> block_offset w < kBlockSize")
  case True
  then have "block_offset w = length (written w) mod kBlockSize" using assms by (simp add: good_def)
  moreover have "kBlockSize - block_offset w \<le> 10" using True header_sizes(1) [of w] by simp
  moreover have "length (written w) mod kBlockSize \<le> length (written w)" by simp
  ultimately have "length (written w) + (kBlockSize - block_offset w) = block_end (length (written w))"
    using block_end_props(4) [of "length (written w)"] True by linarith
  with True \<open>kBlockSize - block_offset w \<le> 10\<close> that [of "kBlockSize - block_offset w"] show ?thesis
    by (simp add: trailer_def)
next
  case False
  with that [of 0] show ?thesis by (auto simp: trailer_def)
qed

lemma add_layout:
  assumes "add_records le ops rs w = Inr (True, w')" "trailers_ok le ops rs w" "good w"
  shows "\<exists>bs. written w' = written w @ bs \<and> (rs \<noteq> [] \<longrightarrow> stored (dest w') = written w') \<and>
    layout w (length (written w)) bs rs (record_ends le ops contents rs w)"
  using assms
proof (induction rs arbitrary: w)
  case (Cons x rs)
  from Cons.prems(1) obtain w1 where w1: "add_loop le ops True x w = Inr (True, w1)"
    "add_records le ops rs w1 = Inr (True, w')"
    by (auto simp: bind_res_Inr AddRecord_def split: if_splits)
  with Cons.prems(2) have t: "trailer_ok ops w" "trailers_ok le ops rs w1" by (simp_all add: AddRecord_def)
  from add_fragments [OF w1(1) t(1) Cons.prems(3)] obtain bs where bs:
    "written w1 = written w @ trailer w @ bs" "good w1" "same_log w w1" "stored (dest w1) = written w1"
    "fragments w True (length (written w @ trailer w)) bs x" by blast
  obtain k where k: "trailer w = replicate k 0"
    "k = 0 \<or> (length (written w) + k = block_end (length (written w)) \<and> k \<le> 10)"
    using trailer_zeros [OF Cons.prems(3)] .
  from Cons.IH [OF w1(2) t(2) bs(2)] obtain later where later: "written w' = written w1 @ later"
    "rs \<noteq> [] \<longrightarrow> stored (dest w') = written w'" "layout w1 (length (written w1)) later rs (record_ends le ops contents rs w1)" by blast
  have "layout w (length (written w1)) later rs (record_ends le ops contents rs w1)"
    using layout_same [OF later(3) same_log_sym [OF bs(3)]] .
  then have "layout w (length (written w)) (replicate k 0 @ bs @ later) (x # rs)
      ((length (written w) + k + length bs) # record_ends le ops contents rs w1)"
    using k(2) bs(1,5) k(1) by (intro layout.cons) (simp_all add: add.assoc)
  moreover have "stored (dest w') = written w'" using later(2) w1(2) bs(4) by (cases rs) simp_all
  ultimately show ?case using w1(1) later(1) bs(1) k(1) by (simp add: AddRecord_def add.assoc)
qed (simp add: layout.nil)

end

end
