(* ===== verification/FileWriter.thy ===== *)
theory FileWriter
  imports LogLayout
begin

section \<open>RocksDB: the file of the log\<close>

text \<open>
  \<open>util/file_reader_writer.cc\<close>, \<open>util/aligned_buffer.h\<close> and the appending part of \<open>env/io_posix.cc\<close>: the writer
  of the log appends to a \<open>WritableFileWriter\<close>, which collects the bytes in a buffer and hands them on
  to a \<open>WritableFile\<close>. The interface of the latter is the locale \<open>file_laws\<close>; \<open>PosixWritableFile\<close>
  provides it. Direct I/O, preallocation and statistics are left out.
\<close>

subsection \<open>\<open>PosixWritableFile\<close>\<close>

text \<open>What the next calls of \<open>write\<close> return, and whether the next calls that synchronise succeed; when
  a list is used up, all further calls succeed. A call never writes more than it is given.\<close>

datatype write_result = Wrote nat | Interrupted | Write_Error

record posix_file =
  pf_data :: slice
  pf_size :: u64
  pf_writes :: "write_result list"
  pf_syncs :: "bool list"

fun write_all :: "write_result list \<Rightarrow> slice \<Rightarrow> slice \<Rightarrow> bool \<times> slice \<times> write_result list" where
  "write_all [] left data = (True, data @ left, [])"
| "write_all (x # ws) left data =
     (if left = [] then (True, data, x # ws)
      else (case x of
          Interrupted \<Rightarrow> write_all ws left data
        | Write_Error \<Rightarrow> (False, data, ws)
        | Wrote n \<Rightarrow> write_all ws (drop n left) (data @ take n left)))"

definition posix_append :: "slice \<Rightarrow> posix_file \<Rightarrow> bool \<times> posix_file" where
  "posix_append data f =
     (case write_all (pf_writes f) data (pf_data f) of
        (ok, d, ws) \<Rightarrow>
          (ok, f\<lparr>pf_data := d, pf_writes := ws,
                 pf_size := (if ok then pf_size f + word_of_nat (length data) else pf_size f)\<rparr>))"

definition posix_flush :: "posix_file \<Rightarrow> bool \<times> posix_file" where
  "posix_flush f = (True, f)"

definition posix_sync :: "posix_file \<Rightarrow> bool \<times> posix_file" where
  "posix_sync f = (case pf_syncs f of [] \<Rightarrow> (True, f) | b # bs \<Rightarrow> (b, f\<lparr>pf_syncs := bs\<rparr>))"

definition posix_fsync :: "posix_file \<Rightarrow> bool \<times> posix_file" where
  "posix_fsync f = posix_sync f"

definition posix_range_sync :: "u64 \<Rightarrow> u64 \<Rightarrow> posix_file \<Rightarrow> bool \<times> posix_file" where
  "posix_range_sync offset nbytes f = posix_sync f"

subsection \<open>\<open>WritableFileWriter\<close>\<close>

text \<open>The virtual functions of the file.\<close>

record 'o file_methods =
  m_append :: "slice \<Rightarrow> 'o \<Rightarrow> bool \<times> 'o"
  m_flush :: "'o \<Rightarrow> bool \<times> 'o"
  m_sync :: "'o \<Rightarrow> bool \<times> 'o"
  m_fsync :: "'o \<Rightarrow> bool \<times> 'o"
  m_range_sync :: "u64 \<Rightarrow> u64 \<Rightarrow> 'o \<Rightarrow> bool \<times> 'o"
  m_sync_thread_safe :: bool

text \<open>\<open>burst\<close> is what the rate limiter allows at once, if there is one and the priority of the file
  is one that it limits.\<close>

record 'o file_writer =
  writable_file :: 'o
  buf :: slice
  capacity :: nat
  alignment :: nat
  max_buffer_size :: nat
  filesize :: u64
  pending_sync :: bool
  last_sync_size :: u64
  bytes_per_sync :: u64
  burst :: "nat option"

definition Roundup :: "nat \<Rightarrow> nat \<Rightarrow> nat" where
  "Roundup x y = (x + y - 1) div y * y"

definition AllocateNewBuffer :: "nat \<Rightarrow> 'o file_writer \<Rightarrow> 'o file_writer" where
  "AllocateNewBuffer requested w = w\<lparr>capacity := Roundup requested (alignment w), buf := []\<rparr>"

definition new_file_writer :: "'o \<Rightarrow> nat \<Rightarrow> nat \<Rightarrow> u64 \<Rightarrow> nat option \<Rightarrow> 'o file_writer" where
  "new_file_writer f align max_size per_sync limit =
     AllocateNewBuffer (min 65536 max_size)
       \<lparr>writable_file = f, buf = [], capacity = 0, alignment = align, max_buffer_size = max_size,
        filesize = 0, pending_sync = False, last_sync_size = 0, bytes_per_sync = per_sync, burst = limit\<rparr>"

text \<open>The number of bytes copied is the length of the first component.\<close>

definition buffer_append :: "slice \<Rightarrow> 'o file_writer \<Rightarrow> slice \<times> 'o file_writer" where
  "buffer_append src w =
     (let to_copy = min (length src) (capacity w - length (buf w))
      in (take to_copy src, w\<lparr>buf := buf w @ take to_copy src\<rparr>))"

definition RequestToken :: "nat \<Rightarrow> 'o file_writer \<Rightarrow> nat" where
  "RequestToken bytes w = (case burst w of None \<Rightarrow> bytes | Some b \<Rightarrow> min bytes b)"

text \<open>The loop of \<open>WriteBuffered\<close>; it does not end when nothing is allowed.\<close>

partial_function (option) write_loop ::
  "'o file_methods \<Rightarrow> slice \<Rightarrow> 'o file_writer \<Rightarrow> (bool \<times> 'o file_writer) option" where
  "write_loop fm left w =
     (if left = [] then Some (True, w\<lparr>buf := []\<rparr>)
      else (let allowed = RequestToken (length left) w in
        case m_append fm (take allowed left) (writable_file w) of
          (s, f) \<Rightarrow>
            (if \<not> s then Some (False, w\<lparr>writable_file := f\<rparr>)
             else write_loop fm (drop allowed left) (w\<lparr>writable_file := f\<rparr>))))"

definition WriteBuffered ::
  "'o file_methods \<Rightarrow> slice \<Rightarrow> 'o file_writer \<Rightarrow> (bool \<times> 'o file_writer) res option" where
  "WriteBuffered fm data w = map_option Inr (write_loop fm data w)"

definition kBytesNotSyncRange :: u64 where
  "kBytesNotSyncRange = 1024 * 1024"

definition kBytesAlignWhenSync :: u64 where
  "kBytesAlignWhenSync = 4 * 1024"

definition sync_range :: "'o file_methods \<Rightarrow> 'o file_writer \<Rightarrow> (bool \<times> 'o file_writer) res option" where
  "sync_range fm w =
     (if bytes_per_sync w \<noteq> 0 \<and> kBytesNotSyncRange < filesize w
      then (let offset_sync_to = filesize w - kBytesNotSyncRange;
                offset_sync_to = offset_sync_to - offset_sync_to mod kBytesAlignWhenSync
            in if offset_sync_to < last_sync_size w then Some (Inl Assert_Failed)
               else if 0 < offset_sync_to \<and> bytes_per_sync w \<le> offset_sync_to - last_sync_size w
               then (case m_range_sync fm (last_sync_size w) (offset_sync_to - last_sync_size w) (writable_file w) of
                   (s, f) \<Rightarrow> Some (Inr (s, w\<lparr>writable_file := f, last_sync_size := offset_sync_to\<rparr>)))
               else Some (Inr (True, w)))
      else Some (Inr (True, w)))"

definition Flush :: "'o file_methods \<Rightarrow> 'o file_writer \<Rightarrow> (bool \<times> 'o file_writer) res option" where
  "Flush fm w =
     bind_run (if 0 < length (buf w) then WriteBuffered fm (buf w) w else Some (Inr (True, w))) (\<lambda>(s, w).
       if \<not> s then Some (Inr (False, w))
       else (case m_flush fm (writable_file w) of
           (False, f) \<Rightarrow> Some (Inr (False, w\<lparr>writable_file := f\<rparr>))
         | (True, f) \<Rightarrow> sync_range fm (w\<lparr>writable_file := f\<rparr>)))"

definition grow :: "'o file_writer \<Rightarrow> 'o file_writer" where
  "grow w =
     (if capacity w < max_buffer_size w
      then AllocateNewBuffer (min (capacity w * 2) (max_buffer_size w)) w else w)"

text \<open>The copying loop of \<open>Append\<close>.\<close>

partial_function (option) append_loop ::
  "'o file_methods \<Rightarrow> slice \<Rightarrow> 'o file_writer \<Rightarrow> (bool \<times> 'o file_writer) res option" where
  "append_loop fm left w =
     (if left = [] then Some (Inr (True, w))
      else (case buffer_append left w of
        (appended, w) \<Rightarrow>
          (if length left \<le> length appended then Some (Inr (True, w))
           else (case Flush fm w of
               None \<Rightarrow> None
             | Some (Inl e) \<Rightarrow> Some (Inl e)
             | Some (Inr (s, w')) \<Rightarrow>
                 (if \<not> s then Some (Inr (False, w'))
                  else append_loop fm (drop (length appended) left) (grow w'))))))"

definition Append :: "'o file_methods \<Rightarrow> slice \<Rightarrow> 'o file_writer \<Rightarrow> (bool \<times> 'o file_writer) res option" where
  "Append fm data w0 =
     (let w = w0\<lparr>pending_sync := True\<rparr>;
          full = capacity w - length (buf w) < length data
      in bind_run (if full \<and> 0 < length (buf w) then Flush fm w else Some (Inr (True, w))) (\<lambda>(s, w).
         if \<not> s then Some (Inr (False, w))
         else (let w = (if full then grow w else w)
               in if full \<and> length (buf w) \<noteq> 0 then Some (Inl Assert_Failed)
                  else bind_run
                    (if length data \<le> capacity w then append_loop fm data w
                     else if length (buf w) \<noteq> 0 then Some (Inl Assert_Failed)
                     else WriteBuffered fm data w)
                    (\<lambda>(s, w). Some (Inr (s, if s then w\<lparr>filesize := filesize w + word_of_nat (length data)\<rparr> else w))))))"

definition SyncInternal :: "'o file_methods \<Rightarrow> bool \<Rightarrow> 'o file_writer \<Rightarrow> bool \<times> 'o file_writer" where
  "SyncInternal fm use_fsync w =
     (case (if use_fsync then m_fsync fm else m_sync fm) (writable_file w) of
        (s, f) \<Rightarrow> (s, w\<lparr>writable_file := f\<rparr>))"

definition Sync :: "'o file_methods \<Rightarrow> bool \<Rightarrow> 'o file_writer \<Rightarrow> (bool \<times> 'o file_writer) res option" where
  "Sync fm use_fsync w =
     bind_run (Flush fm w) (\<lambda>(s, w).
       if \<not> s then Some (Inr (False, w))
       else (case (if pending_sync w then SyncInternal fm use_fsync w else (True, w)) of
           (False, w) \<Rightarrow> Some (Inr (False, w))
         | (True, w) \<Rightarrow> Some (Inr (True, w\<lparr>pending_sync := False\<rparr>))))"

definition SyncWithoutFlush :: "'o file_methods \<Rightarrow> bool \<Rightarrow> 'o file_writer \<Rightarrow> bool \<times> 'o file_writer" where
  "SyncWithoutFlush fm use_fsync w =
     (if \<not> m_sync_thread_safe fm then (False, w) else SyncInternal fm use_fsync w)"

subsection \<open>What is written\<close>

text \<open>The laws of a file: what a successful call appends, and that nothing else changes what it holds.\<close>

locale file_laws =
  fixes fm :: "'o file_methods" and on_file :: "'o \<Rightarrow> slice"
  assumes m_append_ok: "m_append fm d f = (True, f') \<Longrightarrow> on_file f' = on_file f @ d"
    and m_flush_ok: "m_flush fm f = (True, f') \<Longrightarrow> on_file f' = on_file f"
    and m_range_sync_ok: "m_range_sync fm a n f = (True, f') \<Longrightarrow> on_file f' = on_file f"

definition fw_contents :: "('o \<Rightarrow> slice) \<Rightarrow> 'o file_writer \<Rightarrow> slice" where
  "fw_contents on_file w = on_file (writable_file w) @ buf w"

text \<open>The writer as the file of a log: a call that fails an assertion or does not end does not succeed.\<close>

definition as_call :: "'s \<Rightarrow> (bool \<times> 's) res option \<Rightarrow> bool \<times> 's" where
  "as_call w r = (case r of Some (Inr x) \<Rightarrow> x | _ \<Rightarrow> (False, w))"

definition writer_ops :: "'o file_methods \<Rightarrow> 'o file_writer file_ops" where
  "writer_ops fm = \<lparr>f_append = (\<lambda>w d. as_call w (Append fm d w)), f_flush = (\<lambda>w. as_call w (Flush fm w))\<rparr>"

lemma as_call_True: "as_call w r = (True, w') \<longleftrightarrow> r = Some (Inr (True, w'))"
  by (auto simp: as_call_def split: option.splits sum.splits)

lemma grow_fields: "writable_file (grow w) = writable_file w" "buf w = [] \<Longrightarrow> buf (grow w) = []"
  by (simp_all add: grow_def AllocateNewBuffer_def)

lemma grow_contents [simp]: "buf w = [] \<Longrightarrow> fw_contents on_file (grow w) = fw_contents on_file w"
  by (simp add: fw_contents_def grow_fields)

context file_laws
begin

lemma write_loop_ok:
  assumes "write_loop fm left w = Some (s, w')" "s"
  shows "on_file (writable_file w') = on_file (writable_file w) @ left \<and> buf w' = []"
proof -
  have "m = fm \<longrightarrow> fst y \<longrightarrow> on_file (writable_file (snd y)) = on_file (writable_file w) @ left \<and> buf (snd y) = []"
    if "write_loop m left w = Some y" for m y
  proof (rule write_loop.raw_induct [OF _ that])
    fix loop :: "'o file_methods \<Rightarrow> slice \<Rightarrow> 'o file_writer \<Rightarrow> (bool \<times> 'o file_writer) option" and m l v y
    assume IH: "\<And>m l v y. loop m l v = Some y \<Longrightarrow> m = fm \<longrightarrow> fst y \<longrightarrow>
        on_file (writable_file (snd y)) = on_file (writable_file v) @ l \<and> buf (snd y) = []"
      and step: "(if l = [] then Some (True, v\<lparr>buf := []\<rparr>)
        else (let allowed = RequestToken (length l) v in
          case m_append m (take allowed l) (writable_file v) of
            (s, f) \<Rightarrow> (if \<not> s then Some (False, v\<lparr>writable_file := f\<rparr>)
              else loop m (drop allowed l) (v\<lparr>writable_file := f\<rparr>)))) = Some y"
    show "m = fm \<longrightarrow> fst y \<longrightarrow> on_file (writable_file (snd y)) = on_file (writable_file v) @ l \<and> buf (snd y) = []"
      using step by (auto simp: Let_def split: if_splits prod.splits dest!: IH m_append_ok)
  qed
  from this [OF assms(1)] assms(2) show ?thesis by simp
qed

lemma sync_range_ok:
  "sync_range fm w = Some (Inr (True, w')) \<Longrightarrow>
    on_file (writable_file w') = on_file (writable_file w) \<and> buf w' = buf w"
  by (auto simp: sync_range_def Let_def split: if_splits prod.splits dest!: m_range_sync_ok)

lemma WriteBuffered_ok:
  "WriteBuffered fm d w = Some (Inr (True, w')) \<Longrightarrow>
    on_file (writable_file w') = on_file (writable_file w) @ d \<and> buf w' = []"
  by (auto simp: WriteBuffered_def dest: write_loop_ok)

lemma Flush_ok:
  assumes "Flush fm w = Some (Inr (True, w'))"
  shows "on_file (writable_file w') = fw_contents on_file w" "buf w' = []"
proof -
  obtain w1 where w1: "(if 0 < length (buf w) then WriteBuffered fm (buf w) w else Some (Inr (True, w))) = Some (Inr (True, w1))"
    "(case m_flush fm (writable_file w1) of (False, f) \<Rightarrow> Some (Inr (False, w1\<lparr>writable_file := f\<rparr>))
       | (True, f) \<Rightarrow> sync_range fm (w1\<lparr>writable_file := f\<rparr>)) = Some (Inr (True, w'))"
    using assms by (auto simp: Flush_def split: if_splits)
  have "on_file (writable_file w1) = fw_contents on_file w" "buf w1 = []"
    using w1(1) by (auto simp: fw_contents_def split: if_splits dest: WriteBuffered_ok)
  then show "on_file (writable_file w') = fw_contents on_file w" "buf w' = []"
    using w1(2) by (auto split: prod.splits bool.splits dest!: sync_range_ok m_flush_ok)
qed

lemma Flush_contents:
  assumes "Flush fm w = Some (Inr (True, w'))"
  shows "fw_contents on_file w' = fw_contents on_file w \<and> on_file (writable_file w') = fw_contents on_file w \<and> buf w' = []"
  using Flush_ok [OF assms] by (simp add: fw_contents_def)

lemma buffer_append_contents:
  "buffer_append d w = (x, w') \<Longrightarrow>
    \<exists>y. d = x @ y \<and> buf w' = buf w @ x \<and> writable_file w' = writable_file w"
  by (auto simp: buffer_append_def Let_def)
    (metis append_take_drop_id)

lemma append_loop_ok:
  assumes "append_loop fm left w = Some (Inr (True, w'))"
  shows "fw_contents on_file w' = fw_contents on_file w @ left"
proof -
  have "m = fm \<longrightarrow> y = Inr (True, w') \<longrightarrow> fw_contents on_file w' = fw_contents on_file w @ left"
    if "append_loop m left w = Some y" for m y
  proof (rule append_loop.raw_induct [OF _ that])
    fix loop :: "'o file_methods \<Rightarrow> slice \<Rightarrow> 'o file_writer \<Rightarrow> (bool \<times> 'o file_writer) res option" and m l v y
    assume IH: "\<And>m l v y. loop m l v = Some y \<Longrightarrow> m = fm \<longrightarrow> y = Inr (True, w') \<longrightarrow>
        fw_contents on_file w' = fw_contents on_file v @ l"
      and step: "(if l = [] then Some (Inr (True, v))
        else (case buffer_append l v of
          (appended, w) \<Rightarrow>
            (if length l \<le> length appended then Some (Inr (True, w))
             else (case Flush m w of
                 None \<Rightarrow> None
               | Some (Inl e) \<Rightarrow> Some (Inl e)
               | Some (Inr (s, w')) \<Rightarrow>
                   (if \<not> s then Some (Inr (False, w'))
                    else loop m (drop (length appended) l) (grow w')))))) = Some y"
    show "m = fm \<longrightarrow> y = Inr (True, w') \<longrightarrow> fw_contents on_file w' = fw_contents on_file v @ l"
    proof (intro impI)
      assume m: "m = fm" and y: "y = Inr (True, w')"
      obtain x v1 where v1: "buffer_append l v = (x, v1)" by fastforce
      from buffer_append_contents [OF v1] obtain z where z: "l = x @ z" "buf v1 = buf v @ x"
        "writable_file v1 = writable_file v" by blast
      show "fw_contents on_file w' = fw_contents on_file v @ l"
      proof (cases "l = [] \<or> z = []")
        case True
        with step m y v1 z show ?thesis by (auto simp: fw_contents_def split: if_splits)
      next
        case False
        with step y v1 z obtain v2 where v2: "Flush fm v1 = Some (Inr (True, v2))"
          "loop m z (grow v2) = Some (Inr (True, w'))"
          by (auto simp: m split: option.splits sum.splits if_splits)
        from IH [OF v2(2)] Flush_ok [OF v2(1)] m z show ?thesis
          by (simp add: fw_contents_def grow_fields)
      qed
    qed
  qed
  from this [OF assms] show ?thesis by simp
qed

lemma Append_ok:
  assumes "Append fm d w = Some (Inr (True, w'))"
  shows "fw_contents on_file w' = fw_contents on_file w @ d"
proof -
  define full where "full \<longleftrightarrow> capacity w - length (buf w) < length d"
  define w0 where "w0 = w\<lparr>pending_sync := True\<rparr>"
  have w0: "fw_contents on_file w0 = fw_contents on_file w" by (simp add: w0_def fw_contents_def)
  obtain w1 where w1: "(if full \<and> 0 < length (buf w) then Flush fm w0 else Some (Inr (True, w0))) = Some (Inr (True, w1))"
    using assms by (auto simp: Append_def Let_def full_def w0_def split: if_splits)
  have c1: "fw_contents on_file w1 = fw_contents on_file w" "full \<Longrightarrow> buf w1 = []"
    using w1 w0 by (auto simp: w0_def split: if_splits dest!: Flush_contents)
  define w2 where "w2 = (if full then grow w1 else w1)"
  have c2: "fw_contents on_file w2 = fw_contents on_file w" "full \<Longrightarrow> buf w2 = []"
    using c1 by (simp_all add: w2_def grow_fields)
  obtain w3 where w3: "(if length d \<le> capacity w2 then append_loop fm d w2
       else if length (buf w2) \<noteq> 0 then Some (Inl Assert_Failed) else WriteBuffered fm d w2) = Some (Inr (True, w3))"
    "fw_contents on_file w' = fw_contents on_file w3"
    using assms w1 by (auto simp: Append_def Let_def full_def w0_def w2_def fw_contents_def split: if_splits)
  then show ?thesis
    using c2(1) by (auto simp: fw_contents_def split: if_splits dest: append_loop_ok WriteBuffered_ok)
qed

end

text \<open>A writer on such a file is a file of the log: what has been appended is in the buffer or in the
  file, and after \<open>Flush\<close> in the file.\<close>

sublocale file_laws \<subseteq> writer: log_dest "writer_ops fm" "fw_contents on_file" "\<lambda>w. on_file (writable_file w)"
  by unfold_locales (auto simp: writer_ops_def as_call_True dest: Append_ok Flush_contents)

subsection \<open>The file of the operating system\<close>

definition posix_methods :: "posix_file file_methods" where
  "posix_methods =
     \<lparr>m_append = posix_append, m_flush = posix_flush, m_sync = posix_sync, m_fsync = posix_fsync,
      m_range_sync = posix_range_sync, m_sync_thread_safe = True\<rparr>"

lemma write_all_ok: "write_all ws left data = (True, data', ws') \<Longrightarrow> data' = data @ left"
  by (induction ws left data rule: write_all.induct) (auto split: if_splits write_result.splits)

interpretation posix: file_laws posix_methods pf_data
  by unfold_locales
    (auto simp: posix_methods_def posix_append_def posix_flush_def posix_range_sync_def posix_sync_def
      split: prod.splits list.splits dest: write_all_ok)

end
