(* ===== verification/LogRecovery.thy ===== *)
theory LogRecovery
  imports LogLayout
begin

section \<open>RocksDB: the log is read back\<close>

text \<open>
  What the writer has put into a file the reader gets out of it, also when the file ends anywhere,
  as after a crash: the state of the reader between two physical records, what it does with a
  complete one, with one that is cut off and with the rest of a block, and then the loops of
  \<open>ReadRecord\<close> and of the recovery over all of them (\<open>layout_read\<close>).
\<close>

subsection \<open>The position of the reader\<close>

text \<open>The settings of a reader that do not change while it reads, with what it has reported.\<close>

definition steady :: "log_reader \<Rightarrow> log_reader \<Rightarrow> bool" where
  "steady r r' \<longleftrightarrow> checksum r' = checksum r \<and> rd_log_number r' = rd_log_number r \<and> reports r' = reports r \<and>
     initial_offset r' = initial_offset r"

definition healthy :: "log_reader \<Rightarrow> bool" where
  "healthy r \<longleftrightarrow> initial_offset r = 0 \<and> \<not> read_error r \<and> seq_fails (rd_file r) = []"

text \<open>The block of position \<open>p\<close> in the file \<open>F\<close> is in the buffer, or is to be read next.\<close>

definition loaded :: "slice \<Rightarrow> nat \<Rightarrow> log_reader \<Rightarrow> bool" where
  "loaded F p r \<longleftrightarrow> healthy r \<and> buffer r = take (block_end p - p) (drop p F) \<and>
     seq_rest (rd_file r) = drop (block_end p) F \<and> (eof r \<longleftrightarrow> length F < block_end p)"

definition fresh :: "slice \<Rightarrow> nat \<Rightarrow> log_reader \<Rightarrow> bool" where
  "fresh F p r \<longleftrightarrow> healthy r \<and> buffer r = [] \<and> p mod kBlockSize = 0 \<and> seq_rest (rd_file r) = drop p F \<and> \<not> eof r"

definition reading :: "slice \<Rightarrow> nat \<Rightarrow> log_reader \<Rightarrow> bool" where
  "reading F p r \<longleftrightarrow> p \<le> length F \<and> (loaded F p r \<or> fresh F p r)"

lemma read_fresh:
  assumes "fresh F p r"
  shows "\<exists>r'. ReadMore d r = (None, r') \<and> loaded F p r' \<and> steady r r'"
proof -
  have "block_end p = p + kBlockSize" using assms block_end_props(4) [of p] by (simp add: fresh_def)
  with assms kBlockSize_pos show ?thesis
    by (auto simp: ReadMore_def fresh_def loaded_def healthy_def steady_def seq_read_def Let_def add.commute
        simp del: kBlockSize_pos)
qed

lemma read_trailer:
  assumes "loaded F p r" "\<not> eof r"
  shows "\<exists>r'. ReadMore d r = (None, r') \<and> loaded F (block_end p) r' \<and> steady r r'"
proof -
  have "block_end (block_end p) = block_end p + kBlockSize"
    using block_end_props(3) [of p] block_end_props(4) [of "block_end p"] by simp
  with assms kBlockSize_pos show ?thesis
    by (auto simp: ReadMore_def loaded_def healthy_def steady_def seq_read_def Let_def add.commute
        simp del: kBlockSize_pos)
qed

lemma ReadMore_at_end:
  assumes "healthy r" "eof r"
  shows "ReadMore d r = (Some (if buffer r \<noteq> [] then (kBadHeader, length (buffer r)) else (kEof, d)),
    r\<lparr>buffer := []\<rparr>)"
  using assms by (simp add: ReadMore_def)


subsection \<open>One physical record\<close>

lemma header_of_cases: "header_of t = (if type_no t < 5 then 7 else 11)"
  by (simp add: header_of_def format_consts)

lemma header_fields:
  fixes buf :: slice
  assumes buf: "buf = record_header True w t p @ p @ rest"
    and len: "length p \<le> 0xffff" and tab: "type_crc w = log_table"
  shows "scast (buf ! 6) = (code_of t :: u32)"
    and "unat (ucast (buf ! 4) OR push_bit 8 (ucast (buf ! 5)) :: u32) = length p"
    and "DecodeFixed32 le buf = Inr (Mask (crc_value (take (length p + header_of t - 6) (drop 6 buf))))"
    and "5 \<le> type_no t \<Longrightarrow> DecodeFixed32 le (drop 7 buf) = Inr (ucast (wr_log_number w))"
    and "header_of t + length p \<le> length buf" "drop (header_of t + length p) buf = rest"
    and "take (length p) (drop (header_of t) buf) = p"
proof -
  let ?no = "if type_no t < 5 then [] else le_bytes 4 (ucast (wr_log_number w) :: u32)"
  let ?crc = "crc32c (crc32c (type_crc w ! type_no t) ?no) p"
  let ?n = "word_of_nat (length p) :: u64"
  have b: "buf = le_bytes 4 (Mask ?crc) @ [ucast (?n AND 0xff), ucast (drop_bit 8 ?n), word_of_nat (type_no t)] @ ?no @ p @ rest"
    unfolding buf header_layout by simp
  have b4: "buf ! 4 = ucast (?n AND 0xff)" "buf ! 5 = ucast (drop_bit 8 ?n)" "buf ! 6 = word_of_nat (type_no t)"
    unfolding b by (simp_all add: nth_append)
  show "scast (buf ! 6) = (code_of t :: u32)" unfolding b4 by (rule type_decoded)
  show "unat (ucast (buf ! 4) OR push_bit 8 (ucast (buf ! 5)) :: u32) = length p"
    unfolding b4 using len by (rule length_decoded)
  have "drop 6 buf = word_of_nat (type_no t) # ?no @ p @ rest" unfolding b by simp
  moreover have "length p + header_of t - 6 = length (word_of_nat (type_no t) # ?no @ p)"
    by (simp add: header_of_cases)
  ultimately have "take (length p + header_of t - 6) (drop 6 buf) = word_of_nat (type_no t) # ?no @ p"
    by simp
  then have "?crc = crc_value (take (length p + header_of t - 6) (drop 6 buf))"
    by (simp add: crc_value_def crc32c_append tab log_table_nth)
  then show "DecodeFixed32 le buf = Inr (Mask (crc_value (take (length p + header_of t - 6) (drop 6 buf))))"
    unfolding b by (simp only: DecodeFixed32_bytes)
  have "drop 7 buf = ?no @ p @ rest" unfolding b by simp
  then show "5 \<le> type_no t \<Longrightarrow> DecodeFixed32 le (drop 7 buf) = Inr (ucast (wr_log_number w))"
    by simp
  have l: "length (record_header True w t p) = header_of t" by (rule length_header)
  show "header_of t + length p \<le> length buf" "drop (header_of t + length p) buf = rest"
    "take (length p) (drop (header_of t) buf) = p"
    unfolding buf using l by simp_all
qed

lemma recyclable_code [simp]: "5 \<le> (code_of t :: u32) \<longleftrightarrow> 5 \<le> type_no t" "(code_of t :: u32) \<le> 8"
  by (cases t; simp add: word_le_nat_alt)+

lemma code_zero: "(code_of t :: u32) = 0 \<longleftrightarrow> t = kZeroType"
  by (cases t) simp_all

lemma small_log_number: "(x :: u64) < 2 ^ 32 \<Longrightarrow> ucast (ucast x :: u32) = x"
  by (simp add: word_unat_eq_iff unsigned_ucast_eq word_less_nat_alt take_bit_nat_eq_self unsigned_take_bit_eq)

lemma read_record_buffer:
  assumes buf: "buffer r = record_header True w t p @ p @ rest"
    and len: "length p \<le> 0xffff" and tab: "type_crc w = log_table" and t: "t \<noteq> kZeroType"
    and no: "5 \<le> type_no t \<Longrightarrow> rd_log_number r = wr_log_number w \<and> wr_log_number w < 2 ^ 32"
    and ok: "initial_offset r = 0"
  shows "\<exists>r'. ReadPhysicalRecord le d r = Inr (code_of t, Some p, d, r') \<and> steady r r' \<and>
    buffer r' = rest \<and> rd_file r' = rd_file r \<and> eof r' = eof r \<and> read_error r' = read_error r"
proof -
  note f = header_fields [OF buf len tab]
  have 7: "\<not> length (buffer r) < kHeaderSize"
    using f(5) header_sizes(4) [of t] by (simp add: kHeaderSize_def)
  have hs: "(if 5 \<le> type_no t then kRecyclableHeaderSize else kHeaderSize) = header_of t"
    by (simp add: header_of_cases format_consts)
  have big: "5 \<le> type_no t \<Longrightarrow> \<not> length (buffer r) < kRecyclableHeaderSize"
    using f(5) by (simp add: header_of_cases format_consts)
  have log: "5 \<le> type_no t \<Longrightarrow> ucast (ucast (wr_log_number w) :: u32) = rd_log_number r"
    using no by (simp add: small_log_number)
  show ?thesis
  proof (cases "5 \<le> type_no t")
    case True
    have "header_of t = kRecyclableHeaderSize" using hs True by simp
    with True f(5-7) 7 big log ok t show ?thesis
      apply (subst ReadPhysicalRecord.simps)
      apply (simp add: Let_def code_zero Unmask_Mask f(1-4) steady_def)
      done
  next
    case False
    have "header_of t = kHeaderSize" using hs False by simp
    with False f(5-7) 7 ok t show ?thesis
      apply (subst ReadPhysicalRecord.simps)
      apply (simp add: Let_def code_zero Unmask_Mask f(1-3) steady_def)
      done
  qed
qed

subsection \<open>The position of the reader, continued\<close>

text \<open>The reader is at \<open>p\<close>, and what it reads next is at \<open>q\<close>: the same position, or behind a rest of
  the block that is too short for a header.\<close>

definition at :: "slice \<Rightarrow> nat \<Rightarrow> nat \<Rightarrow> log_reader \<Rightarrow> bool" where
  "at F p q r \<longleftrightarrow> q \<le> length F \<and> (loaded F p r \<or> fresh F p r) \<and>
     (q = p \<or> (p < q \<and> q = block_end p \<and> q - p < 7))"

lemma steady_refl [simp]: "steady r r"
  by (simp add: steady_def)

lemma steady_trans: "steady r r' \<Longrightarrow> steady r' r'' \<Longrightarrow> steady r r''"
  by (simp add: steady_def)

lemma read_short:
  assumes "length (buffer r) < kHeaderSize" "ReadMore d r = (None, r')"
  shows "ReadPhysicalRecord le d r = ReadPhysicalRecord le d r'"
  by (subst ReadPhysicalRecord.simps) (use assms in \<open>simp add: Let_def\<close>)

lemma settle:
  assumes "at F p q r"
  shows "\<exists>r'. ReadPhysicalRecord le d r = ReadPhysicalRecord le d r' \<and> loaded F q r' \<and> steady r r'"
proof -
  consider (loaded) "loaded F p r" "q = p" | (fresh) "fresh F p r" "q = p"
    | (short) "loaded F p r" "p < q" "q = block_end p" "q - p < 7" "q \<le> length F"
    | (none) "fresh F p r" "q = block_end p" "q - p < 7"
    using assms by (auto simp: at_def)
  then show ?thesis
  proof cases
    case loaded
    then show ?thesis by auto
  next
    case fresh
    then have "length (buffer r) < kHeaderSize" by (simp add: fresh_def kHeaderSize_def)
    with read_fresh [OF fresh(1)] fresh(2) show ?thesis by (blast dest: read_short)
  next
    case short
    then have "length (buffer r) < kHeaderSize" "\<not> eof r"
      by (simp_all add: loaded_def kHeaderSize_def)
    with read_trailer [OF short(1)] short(3) show ?thesis by (blast dest: read_short)
  next
    case none
    then have "block_end p = p + kBlockSize" using block_end_props(4) [of p] by (simp add: fresh_def)
    with none show ?thesis by (simp add: kBlockSize_def)
  qed
qed

subsection \<open>A physical record is read\<close>

text \<open>A physical record of the type \<open>t\<close> and the payload \<open>p\<close> that a reader with the log number of
  \<open>w\<close> accepts.\<close>

definition readable :: "'f log_writer \<Rightarrow> log_reader \<Rightarrow> record_type \<Rightarrow> slice \<Rightarrow> bool" where
  "readable w r t p \<longleftrightarrow> type_crc w = log_table \<and> t \<noteq> kZeroType \<and> length p \<le> 0xffff \<and>
     (5 \<le> type_no t \<longrightarrow> rd_log_number r = wr_log_number w \<and> wr_log_number w < 2 ^ 32)"

lemma readable_steady: "steady r r' \<Longrightarrow> readable w r' t p \<longleftrightarrow> readable w r t p"
  by (simp add: readable_def steady_def)

lemma block_room: "q mod kBlockSize + n \<le> kBlockSize \<longleftrightarrow> q + n \<le> block_end q"
proof -
  have "q mod kBlockSize \<le> q" by simp
  with block_end_props(4) [of q] show ?thesis by linarith
qed

lemma loaded_after:
  assumes "loaded F q r" "q + n \<le> block_end q" "q + n \<le> length F" "steady r r'"
    "buffer r' = drop n (buffer r)" "rd_file r' = rd_file r" "eof r' = eof r" "read_error r' = read_error r"
  shows "reading F (q + n) r'"
proof (cases "q + n < block_end q")
  case True
  then have "block_end (q + n) = block_end q" by (intro block_end_same) simp_all
  with assms have "loaded F (q + n) r'"
    by (auto simp: loaded_def healthy_def steady_def drop_take add.commute)
  with assms(3) show ?thesis by (simp add: reading_def)
next
  case False
  then have "q + n = block_end q" using assms(2) by simp
  with assms block_end_props(3) [of q] have "fresh F (q + n) r'"
    by (auto simp: loaded_def fresh_def healthy_def steady_def)
  with assms(3) show ?thesis by (simp add: reading_def)
qed

lemma read_phys:
  assumes "at F p0 q r" "readable w r t p" "drop q F = phys w t p @ rest"
    "q mod kBlockSize + header_of t + length p \<le> kBlockSize"
  shows "\<exists>r'. ReadPhysicalRecord le d r = Inr (code_of t, Some p, d, r') \<and> steady r r' \<and>
    reading F (q + length (phys w t p)) r'"
proof -
  obtain r1 where r1: "ReadPhysicalRecord le d r = ReadPhysicalRecord le d r1" "loaded F q r1" "steady r r1"
    using settle [OF assms(1)] by blast
  have room: "q + length (phys w t p) \<le> block_end q"
    using assms(4) block_room [of q "header_of t + length p"] by (simp add: length_phys)
  then have buf: "buffer r1 = record_header True w t p @ p @ take (block_end q - (q + length (phys w t p))) rest"
    using r1(2) assms(3) by (simp add: loaded_def phys_def add.assoc)
  from read_record_buffer [OF buf, of le d] assms(2) r1(2,3)
  obtain r' where r': "ReadPhysicalRecord le d r1 = Inr (code_of t, Some p, d, r')" "steady r1 r'"
    "buffer r' = take (block_end q - (q + length (phys w t p))) rest" "rd_file r' = rd_file r1" "eof r' = eof r1"
    "read_error r' = read_error r1"
    by (auto simp: readable_def steady_def loaded_def healthy_def)
  have "length (phys w t p) \<le> length (drop q F)" using assms(3) by simp
  moreover have "q \<le> length F" using assms(1) by (simp add: at_def)
  ultimately have "q + length (phys w t p) \<le> length F" by simp
  moreover have "buffer r' = drop (length (phys w t p)) (buffer r1)"
    unfolding buf r'(3) by (simp add: phys_def)
  ultimately have "reading F (q + length (phys w t p)) r'"
    using loaded_after [OF r1(2) room] r' by blast
  with r1 r' show ?thesis by (auto intro: steady_trans)
qed

text \<open>A physical record that is cut off is the end of the input.\<close>

lemma phys_eq: "phys w t p = record_header True w t p @ p @ []"
  by (simp add: phys_def)

lemma take_phys_nth:
  assumes "m \<le> length (phys w t p)" "7 \<le> m"
  shows "take m (phys w t p) ! 6 = word_of_nat (type_no t)"
proof -
  have "phys w t p ! 6 = word_of_nat (type_no t)"
    by (simp add: phys_def header_layout nth_append)
  with assms(2) show ?thesis by simp
qed

lemma read_cut:
  assumes "at F p0 q r" "readable w r t p" "drop q F = take m (phys w t p)" "m < length (phys w t p)"
    "q mod kBlockSize + header_of t + length p \<le> kBlockSize"
  shows "\<exists>e d' r'. ReadPhysicalRecord le d r = Inr (e, None, d', r') \<and> e \<in> {kBadHeader, kEof} \<and> steady r r'"
proof -
  obtain r1 where r1: "ReadPhysicalRecord le d r = ReadPhysicalRecord le d r1" "loaded F q r1" "steady r r1"
    using settle [OF assms(1)] by blast
  have room: "q + length (phys w t p) \<le> block_end q"
    using assms(5) block_room [of q "header_of t + length p"] by (simp add: length_phys)
  have "length F - q = m" using arg_cong [OF assms(3), of length] assms(4) by simp
  with assms(1) have F: "length F = q + m" by (auto simp: at_def)
  have eof: "eof r1" "healthy r1" using r1(2) F room assms(4) by (simp_all add: loaded_def)
  have buf: "buffer r1 = take m (phys w t p)" using r1(2) F room assms(3,4) by (simp add: loaded_def)
  note stop = ReadMore_at_end [OF eof(2,1)]
  have stop': "ReadMore d (r1\<lparr>recycled := b\<rparr>) = (Some (if buffer r1 \<noteq> [] then (kBadHeader, length (buffer r1)) else (kEof, d)),
      r1\<lparr>recycled := b, buffer := []\<rparr>)" for b
    using ReadMore_at_end [of "r1\<lparr>recycled := b\<rparr>"] eof by (simp add: healthy_def)
  have "\<exists>e d' r'. ReadPhysicalRecord le d r1 = Inr (e, None, d', r') \<and> e \<in> {kBadHeader, kEof} \<and> steady r1 r'"
  proof (cases "m < 7")
    case True
    then have "length (buffer r1) < kHeaderSize" by (simp add: buf kHeaderSize_def)
    then show ?thesis
      by (subst ReadPhysicalRecord.simps) (simp add: Let_def stop steady_def)
  next
    case False
    then have 7: "\<not> length (buffer r1) < kHeaderSize" using assms(4) by (simp add: buf kHeaderSize_def)
    have ty: "scast (buffer r1 ! 6) = (code_of t :: u32)"
      using take_phys_nth [of m w t p] False assms(4) by (simp add: buf)
    have len: "unat (ucast (buffer r1 ! 4) OR push_bit 8 (ucast (buffer r1 ! 5)) :: u32) = length p"
      using header_fields(2) [OF phys_eq, of p w t] False assms(2) by (simp add: buf readable_def)
    have ne: "buffer r1 \<noteq> []" using False assms(4) by (auto simp: buf)
    have lb: "length (buffer r1) = m" using assms(4) by (simp add: buf)
    show ?thesis
    proof (cases "5 \<le> type_no t")
      case True
      then have h: "header_of t = kRecyclableHeaderSize" by (simp add: header_of_cases format_consts)
      show ?thesis
      proof (cases "m < 11")
        case True
        then have "length (buffer r1) < kRecyclableHeaderSize" by (simp add: lb format_consts)
        then show ?thesis
          by (subst ReadPhysicalRecord.simps)
             (use \<open>5 \<le> type_no t\<close> 7 ty ne in \<open>simp add: Let_def stop stop' steady_def\<close>)
      next
        case False
        have "DecodeFixed32 le (drop 7 (phys w t p)) = Inr (ucast (wr_log_number w))"
          using header_fields(4) [OF phys_eq, of p w t] True assms(2) by (simp add: readable_def)
        then have "DecodeFixed32 le (drop 7 (buffer r1)) = Inr (ucast (wr_log_number w))"
          using False assms(4) by (simp add: buf DecodeFixed32_le drop_take split: if_splits)
        moreover have "ucast (ucast (wr_log_number w) :: u32) = rd_log_number r1"
          using assms(2) True r1(3) by (simp add: readable_def steady_def small_log_number)
        ultimately show ?thesis
          by (subst ReadPhysicalRecord.simps)
             (use True False 7 ty len ne h lb assms(4) eof in
              \<open>simp add: Let_def steady_def length_phys format_consts\<close>)
      qed
    next
      case False
      then have "header_of t = kHeaderSize" by (simp add: header_of_cases format_consts)
      with False 7 ty len ne lb assms(4) eof show ?thesis
        by (subst ReadPhysicalRecord.simps) (simp add: Let_def steady_def length_phys)
    qed
  qed
  with r1 show ?thesis by (auto intro: steady_trans)
qed

subsection \<open>The rest of a block\<close>

lemma replicate_take_zero: "take n (replicate k (0 :: byte)) = replicate (min n k) 0"
  by (simp add: min_def)

text \<open>A header of zeros, as in the rest of a block when the file is a recycled one.\<close>

lemma read_zero_header:
  assumes "buffer r = replicate k 0" "7 \<le> k"
  shows "ReadPhysicalRecord le d r = Inr (kBadRecord, None, d, r\<lparr>buffer := []\<rparr>)"
proof -
  have z: "buffer r ! 4 = 0" "buffer r ! 5 = 0" "buffer r ! 6 = 0" "\<not> length (buffer r) < kHeaderSize"
    using assms by (simp_all add: kHeaderSize_def)
  have y: "(scast (0 :: byte) :: u32) = 0" "(ucast (0 :: byte) OR push_bit 8 (ucast (0 :: byte)) :: u32) = 0"
    by simp_all
  have x: "(word_of_nat (type_no kRecyclableFullType) \<le> (0::u32)) = False" by (simp add: word_le_nat_alt)
  show ?thesis
    by (subst ReadPhysicalRecord.simps)
       (simp only: Let_def z y x if_False simp_thms bind_res_simps unat_0 add_0_right if_True)
qed
text \<open>Nothing but a few zeros is left.\<close>

lemma read_zeros_at_end:
  assumes "healthy r" "buffer r = replicate k 0" "k < 7" "eof r"
  shows "\<exists>e d' r'. ReadPhysicalRecord le d r = Inr (e, None, d', r') \<and> e \<in> {kBadHeader, kEof} \<and> steady r r'"
proof -
  have "length (buffer r) < kHeaderSize" using assms by (simp add: kHeaderSize_def)
  moreover have "ReadMore d r = (Some (if buffer r \<noteq> [] then (kBadHeader, length (buffer r)) else (kEof, d)), r\<lparr>buffer := []\<rparr>)"
    using assms by (intro ReadMore_at_end) simp_all
  ultimately show ?thesis
    by (subst ReadPhysicalRecord.simps) (simp add: Let_def steady_def)
qed

subsection \<open>The loop of \<open>ReadRecord\<close>\<close>

lemma special_values:
  "kEof = 9" "kBadRecord = 10" "kBadHeader = 11" "kOldRecord = 12" "kBadRecordLen = 13" "kBadRecordChecksum = 14"
  by (simp_all add: kEof_def kBadRecord_def kBadHeader_def kOldRecord_def kBadRecordLen_def
      kBadRecordChecksum_def kMaxRecordType_def)

lemma round_end:
  assumes "ReadPhysicalRecord le 0 r = Inr (e, None, d', r')" "e \<in> {kBadHeader, kEof}"
    "mode \<noteq> kAbsoluteConsistency \<or> e = kEof \<and> \<not> in_fragmented_record s"
  shows "read_loop le mode s r = Some (Inr (None, r'))"
  by (subst read_loop.simps) (use assms in \<open>auto simp: read_round_def end_of_input_def special_values Let_def\<close>)

lemma round_bad_record:
  assumes "ReadPhysicalRecord le 0 r = Inr (kBadRecord, None, d', r')" "\<not> in_fragmented_record s"
  shows "read_loop le mode s r = read_loop le mode s r'"
  by (subst read_loop.simps) (use assms in \<open>simp add: read_round_def give_up_def special_values Let_def\<close>)

lemma round_complete:
  assumes "ReadPhysicalRecord le 0 r = Inr (code_of (fragment_type recycle is_first True), Some p, 0, r')"
    "in_fragmented_record s \<longleftrightarrow> \<not> is_first" "is_first \<longrightarrow> scratch s = []"
  shows "\<exists>o'. read_loop le mode s r = Some (Inr (Some (scratch s @ p), r'\<lparr>last_record_offset := o'\<rparr>))"
  by (subst read_loop.simps) (use assms in \<open>auto simp: read_round_def fragment_type_def Let_def\<close>)

lemma round_fragment:
  assumes "ReadPhysicalRecord le 0 r = Inr (code_of (fragment_type recycle is_first False), Some p, 0, r')"
    "in_fragmented_record s \<longleftrightarrow> \<not> is_first" "is_first \<longrightarrow> scratch s = []"
  shows "\<exists>s'. read_loop le mode s r = read_loop le mode s' r' \<and> in_fragmented_record s' \<and>
    scratch s' = scratch s @ p"
  by (subst read_loop.simps) (use assms in \<open>auto simp: read_round_def fragment_type_def Let_def\<close>)

subsection \<open>Records are read back\<close>

text \<open>A reader that accepts the log of \<open>w\<close>.\<close>

definition accepts :: "'f log_writer \<Rightarrow> log_reader \<Rightarrow> bool" where
  "accepts w r \<longleftrightarrow> type_crc w = log_table \<and>
     (recycle_log_files w \<longrightarrow> rd_log_number r = wr_log_number w \<and> wr_log_number w < 2 ^ 32)"

lemma accepts_readable:
  "accepts w r \<Longrightarrow> length p \<le> 0xffff \<Longrightarrow> readable w r (fragment_type (recycle_log_files w) a b) p"
  by (auto simp: accepts_def readable_def fragment_type_def)

lemma accepts_steady: "accepts w r \<Longrightarrow> steady r r' \<Longrightarrow> accepts w r'"
  by (simp add: accepts_def steady_def)

lemma at_reading: "reading F p r \<Longrightarrow> at F p p r"
  by (simp add: reading_def at_def)

lemma last_offset_irrelevant [simp]:
  "reading F p (r\<lparr>last_record_offset := x\<rparr>) = reading F p r"
  "steady r (r'\<lparr>last_record_offset := x\<rparr>) = steady r r'"
  by (simp_all add: reading_def loaded_def fresh_def healthy_def steady_def)

lemma drop_after: "drop q F = xs @ ys \<Longrightarrow> drop (q + length xs) F = ys"
  by (metis append_eq_conv_conj drop_drop add.commute)

lemma read_fragments:
  assumes "fragments w is_first q bs x" "at F p q r" "drop q F = bs @ rest" "accepts w r"
    "in_fragmented_record s \<longleftrightarrow> \<not> is_first" "is_first \<longrightarrow> scratch s = []"
  shows "\<exists>r'. read_loop le mode s r = Some (Inr (Some (scratch s @ x), r')) \<and> steady r r' \<and>
    reading F (q + length bs) r'"
  using assms
proof (induction arbitrary: p r s rule: fragments.induct)
  case (last t is_first fr q)
  have "readable w r t fr" using last.hyps(1,2) last.prems(3) accepts_readable by blast
  from read_phys [OF last.prems(1) this last.prems(2) last.hyps(3), of le 0]
  obtain r' where r': "ReadPhysicalRecord le 0 r = Inr (code_of t, Some fr, 0, r')" "steady r r'"
    "reading F (q + length (phys w t fr)) r'" by blast
  from round_complete [OF r'(1) [unfolded last.hyps(1)] last.prems(4,5), of mode] r'(2,3) show ?case
    by auto
next
  case (further t is_first fr q bs x')
  have ok: "readable w r t fr" using further.hyps(1,2) further.prems(3) accepts_readable by blast
  have d: "drop q F = phys w t fr @ bs @ rest" using further.prems(2) by simp
  from read_phys [OF further.prems(1) ok d further.hyps(3), of le 0] obtain r' where r': "ReadPhysicalRecord le 0 r = Inr (code_of t, Some fr, 0, r')" "steady r r'"
    "reading F (q + length (phys w t fr)) r'"
    by blast
  from round_fragment [OF r'(1) [unfolded further.hyps(1)] further.prems(4,5), of mode]
  obtain s' where s': "read_loop le mode s r = read_loop le mode s' r'" "in_fragmented_record s'"
    "scratch s' = scratch s @ fr" by blast
  have "drop (q + length (phys w t fr)) F = bs @ rest"
    using d by (rule drop_after)
  from further.IH [OF at_reading [OF r'(3)] this accepts_steady [OF further.prems(3) r'(2)], of s'] s' r'(2)
  show ?case by (auto simp: add.assoc intro: steady_trans)
qed

lemma read_fragments_cut:
  assumes "fragments w is_first q bs x" "at F p q r" "drop q F = take m bs" "m < length bs" "accepts w r"
    "in_fragmented_record s \<longleftrightarrow> \<not> is_first" "is_first \<longrightarrow> scratch s = []" "mode \<noteq> kAbsoluteConsistency"
  shows "\<exists>r'. read_loop le mode s r = Some (Inr (None, r')) \<and> steady r r'"
  using assms
proof (induction arbitrary: p r s m rule: fragments.induct)
  case (last t is_first fr q)
  have "readable w r t fr" using last.hyps(1,2) last.prems(4) accepts_readable by blast
  from read_cut [OF last.prems(1) this last.prems(2,3) last.hyps(3), of le 0] last.prems(7) show ?case
    by (metis round_end)
next
  case (further t is_first fr q bs x')
  have ok: "readable w r t fr" using further.hyps(1,2) further.prems(4) accepts_readable by blast
  show ?case
  proof (cases "m < length (phys w t fr)")
    case True
    then have "drop q F = take m (phys w t fr)" using further.prems(2) by simp
    from read_cut [OF further.prems(1) ok this True further.hyps(3), of le 0] further.prems(7) show ?thesis
      by (metis round_end)
  next
    case False
    then have d: "drop q F = phys w t fr @ take (m - length (phys w t fr)) bs" using further.prems(2) by simp
    from read_phys [OF further.prems(1) ok d further.hyps(3), of le 0] obtain r' where
      r': "ReadPhysicalRecord le 0 r = Inr (code_of t, Some fr, 0, r')" "steady r r'"
      "reading F (q + length (phys w t fr)) r'" by blast
    from round_fragment [OF r'(1) [unfolded further.hyps(1)] further.prems(5,6), of mode]
    obtain s' where s': "read_loop le mode s r = read_loop le mode s' r'" "in_fragmented_record s'"
      by blast
    have "drop (q + length (phys w t fr)) F = take (m - length (phys w t fr)) bs"
      using d by (rule drop_after)
    moreover have "m - length (phys w t fr) < length bs" using False further.prems(3) by simp
    ultimately show ?thesis
      using further.IH [OF at_reading [OF r'(3)] _ _ accepts_steady [OF further.prems(4) r'(2)], of _ s']
        s' r'(2) further.prems(7)
      by (auto intro: steady_trans)
  qed
qed

subsection \<open>The rest of a block is passed over\<close>

lemma not_fresh:
  assumes "fresh F p r" "p + k = block_end p"
  shows "kBlockSize \<le> k"
  using assms block_end_props(4) [of p] by (simp add: fresh_def)

lemma read_trailer_zeros:
  assumes "reading F p r" "k = 0 \<or> (p + k = block_end p \<and> k \<le> 10)" "p + k \<le> length F"
    "drop p F = replicate k 0 @ rest" "\<not> in_fragmented_record s"
  shows "\<exists>p' r'. read_loop le mode s r = read_loop le mode s r' \<and> at F p' (p + k) r' \<and> steady r r'"
proof (cases "k < 7")
  case True
  with assms have "at F p (p + k) r" by (auto simp: reading_def at_def)
  then show ?thesis by (intro exI [of _ p] exI [of _ r]) simp
next
  case False
  then have k: "p + k = block_end p" "7 \<le> k" "k \<le> 10" using assms(2) by auto
  then have l: "loaded F p r" using assms(1) not_fresh [of F p r k] by (auto simp: reading_def kBlockSize_def)
  have "block_end p - p = k" using k(1) by simp
  with l assms(4) have b: "buffer r = replicate k 0" by (simp add: loaded_def)
  from round_bad_record [OF read_zero_header [OF b k(2)] assms(5)]
  have "read_loop le mode s r = read_loop le mode s (r\<lparr>buffer := []\<rparr>)" .
  moreover have "fresh F (p + k) (r\<lparr>buffer := []\<rparr>)"
    using l assms(3) k(1) block_end_props(3) [of p] by (simp add: fresh_def loaded_def healthy_def)
  ultimately show ?thesis using assms(3)
    by (intro exI [of _ "p + k"] exI [of _ "r\<lparr>buffer := []\<rparr>"]) (simp add: at_def steady_def)
qed

lemma read_trailer_cut:
  assumes "reading F p r" "p + k = block_end p" "k \<le> 10" "drop p F = replicate j 0" "j < k"
    "\<not> in_fragmented_record s" "mode \<noteq> kAbsoluteConsistency"
  shows "\<exists>r'. read_loop le mode s r = Some (Inr (None, r')) \<and> steady r r'"
proof -
  have l: "loaded F p r" using assms(1-3) not_fresh [of F p r k] by (auto simp: reading_def kBlockSize_def)
  have "length F - p = j" using arg_cong [OF assms(4), of length] by simp
  then have e: "eof r" "healthy r" using l assms(1,2,5) by (auto simp: loaded_def reading_def)
  have b: "buffer r = replicate j 0" using l assms(4,5) assms(2) by (simp add: loaded_def replicate_take_zero)
  show ?thesis
  proof (cases "j < 7")
    case True
    from read_zeros_at_end [OF e(2) b True e(1), of le 0] assms(7) show ?thesis by (metis round_end)
  next
    case False
    define r1 where "r1 = r\<lparr>buffer := []\<rparr>"
    have r1: "healthy r1" "eof r1" "buffer r1 = replicate 0 0" "steady r r1"
      using e by (simp_all add: r1_def healthy_def steady_def)
    have "read_loop le mode s r = read_loop le mode s r1"
      using round_bad_record [OF read_zero_header [OF b] assms(6)] False by (simp add: r1_def)
    moreover from read_zeros_at_end [OF r1(1,3) _ r1(2), of le 0] assms(7)
    have "\<exists>r'. read_loop le mode s r1 = Some (Inr (None, r')) \<and> steady r1 r'" by (metis round_end zero_less_numeral)
    ultimately show ?thesis using r1(4) by (auto intro: steady_trans)
  qed
qed

lemma read_end:
  assumes "reading F (length F) r" "\<not> in_fragmented_record s"
  shows "\<exists>r'. read_loop le mode s r = Some (Inr (None, r')) \<and> steady r r'"
proof -
  from settle [OF at_reading [OF assms(1)], of le 0] obtain r1 where
    r1: "ReadPhysicalRecord le 0 r = ReadPhysicalRecord le 0 r1" "loaded F (length F) r1" "steady r r1" by blast
  have "healthy r1" "eof r1" "buffer r1 = []" using r1(2) block_end_props(1) by (simp_all add: loaded_def)
  then have "ReadPhysicalRecord le 0 r1 = Inr (kEof, None, 0, r1\<lparr>buffer := []\<rparr>)"
    by (subst ReadPhysicalRecord.simps) (simp add: Let_def ReadMore_at_end kHeaderSize_def)
  with r1(1) have "read_loop le mode s r = Some (Inr (None, r1\<lparr>buffer := []\<rparr>))"
    using assms(2) by (intro round_end) auto
  with r1(3) show ?thesis by (simp add: steady_def)
qed

subsection \<open>The whole log\<close>

text \<open>The records that the loop of \<open>RecoverLogFiles\<close> gets from the reader, after \<open>acc\<close>.\<close>

partial_function (option) read_log ::
  "bool \<Rightarrow> recovery_mode \<Rightarrow> slice list \<Rightarrow> log_reader \<Rightarrow> (slice list \<times> log_reader) res option" where
  "read_log le mode acc r =
     (case ReadRecord le mode r of
        None \<Rightarrow> None
      | Some (Inl f) \<Rightarrow> Some (Inl f)
      | Some (Inr (None, r')) \<Rightarrow> Some (Inr (acc, r'))
      | Some (Inr (Some x, r')) \<Rightarrow> read_log le mode (acc @ [x]) r')"

lemma ReadRecord_loop:
  "reading F p r \<Longrightarrow> ReadRecord le mode r = read_loop le mode no_scan r"
  by (auto simp: ReadRecord_def reading_def loaded_def fresh_def healthy_def)

lemma layout_ends: "layout w p bs rs es \<Longrightarrow> \<forall>e\<in>set es. p < e"
  by (induction rule: layout.induct) (auto dest: fragments_end)

lemma layout_ends_le: "layout w p bs rs es \<Longrightarrow> \<forall>e\<in>set es. e \<le> p + length bs"
  by (induction rule: layout.induct) auto

lemma layout_read:
  assumes "layout w p bs rs es" "reading F p r" "drop p F = take m bs" "m \<le> length bs" "accepts w r"
    "mode \<noteq> kAbsoluteConsistency \<or> m = length bs"
  shows "\<exists>r'. read_log le mode acc r =
      Some (Inr (acc @ take (length (filter (\<lambda>e. e \<le> length F) es)) rs, r')) \<and> steady r r'"
  using assms
proof (induction arbitrary: r m acc rule: layout.induct)
  case (nil p)
  then have "p = length F" by (simp add: reading_def)
  from read_end [of F r no_scan le mode] nil.prems(1) this show ?case
    by (subst read_log.simps) (auto simp: ReadRecord_loop [OF nil.prems(1)] no_scan_def)
next
  case (cons k p bs x later rs es)
  have "length F - p = m"
    using arg_cong [OF cons.prems(2), of length] cons.prems(3) by (simp only: length_drop length_take min_absorb2)
  then have F: "length F = p + m" using cons.prems(1) by (auto simp: reading_def)
  have s: "\<not> in_fragmented_record no_scan" "scratch no_scan = []" by (simp_all add: no_scan_def)
  note start = ReadRecord_loop [OF cons.prems(1)]
  show ?case
  proof (cases "k + length bs \<le> m")
    case True
    then have d: "drop p F = replicate k 0 @ bs @ take (m - k - length bs) later"
      using cons.prems(2) by simp
    from read_trailer_zeros [OF cons.prems(1) cons.hyps(1) _ d s(1), of le mode] F True
    obtain p' r1 where r1: "read_loop le mode no_scan r = read_loop le mode no_scan r1" "at F p' (p + k) r1"
      "steady r r1" by auto
    have dk: "drop (p + k) F = bs @ take (m - k - length bs) later"
      using drop_after [OF d] by simp
    from read_fragments [OF cons.hyps(2) r1(2) dk accepts_steady [OF cons.prems(4) r1(3)], of no_scan le mode] s
    obtain r2 where r2: "read_loop le mode no_scan r1 = Some (Inr (Some x, r2))" "steady r1 r2"
      "reading F (p + k + length bs) r2" by auto
    have "drop (p + k + length bs) F = take (m - k - length bs) later"
      using drop_after [OF dk] .
    moreover have "accepts w r2" using accepts_steady cons.prems(4) r1(3) r2(2) by blast
    moreover have "mode \<noteq> kAbsoluteConsistency \<or> m - k - length bs = length later"
      "m - k - length bs \<le> length later" using cons.prems(3,5) by auto
    ultimately obtain r3 where r3: "read_log le mode (acc @ [x]) r2 =
        Some (Inr ((acc @ [x]) @ take (length (filter (\<lambda>e. e \<le> length F) es)) rs, r3))" "steady r2 r3"
      using cons.IH [OF r2(3), of "m - k - length bs" "acc @ [x]"] by blast
    have "read_log le mode acc r = read_log le mode (acc @ [x]) r2"
      by (subst read_log.simps) (simp add: start r1(1) r2(1))
    with r3 r1(3) r2(2) F True show ?thesis by (auto intro: steady_trans)
  next
    case False
    then have mode: "mode \<noteq> kAbsoluteConsistency" using cons.prems(5) by auto
    have none: "filter (\<lambda>e. e \<le> length F) ((p + k + length bs) # es) = []"
      using False F layout_ends [OF cons.hyps(3)] by (auto simp: filter_empty_conv)
    have "\<exists>r'. read_loop le mode no_scan r = Some (Inr (None, r')) \<and> steady r r'"
    proof (cases "k \<le> m")
      case True
      with False have d: "drop p F = replicate k 0 @ take (m - k) bs"
        using cons.prems(2) by simp
      from read_trailer_zeros [OF cons.prems(1) cons.hyps(1) _ d s(1), of le mode] F True
      obtain p' r1 where r1: "read_loop le mode no_scan r = read_loop le mode no_scan r1" "at F p' (p + k) r1"
        "steady r r1" by auto
      have "drop (p + k) F = take (m - k) bs" "m - k < length bs"
        using drop_after [OF d] True False by simp_all
      from read_fragments_cut [OF cons.hyps(2) r1(2) this accepts_steady [OF cons.prems(4) r1(3)] _ _ mode, of no_scan le]
        s r1 show ?thesis by (auto intro: steady_trans)
    next
      case k: False
      then have "drop p F = replicate m 0" using cons.prems(2) by (simp add: replicate_take_zero)
      with read_trailer_cut [OF cons.prems(1) _ _ this _ s(1) mode, of k le] cons.hyps(1) k show ?thesis by auto
    qed
    with none show ?thesis
      by (subst read_log.simps) (auto simp: start)
  qed
qed

lemma reading_start:
  "reading F 0 (new_reader F [] has_reporter cs 0 log_num)"
  by (simp add: reading_def fresh_def healthy_def new_reader_def)

end
