(* ===== verification/CrashRecovery.thy ===== *)
theory CrashRecovery
  imports FileWriter LogRecovery
begin

section \<open>RocksDB: the log after a crash\<close>

text \<open>
  The writer of the log on a \<open>WritableFileWriter\<close> on a file of the operating system, and the reader
  on what is left of that file.
\<close>

abbreviation posix_log :: "posix_file file_writer file_ops" where
  "posix_log \<equiv> writer_ops posix_methods"

abbreviation log_contents :: "posix_file file_writer \<Rightarrow> slice" where
  "log_contents \<equiv> fw_contents pf_data"

definition log_file :: "write_result list \<Rightarrow> bool list \<Rightarrow> posix_file" where
  "log_file writes syncs = \<lparr>pf_data = [], pf_size = 0, pf_writes = writes, pf_syncs = syncs\<rparr>"

text \<open>A new log, and the bytes of its file.\<close>

definition new_log ::
  "posix_file \<Rightarrow> nat \<Rightarrow> nat \<Rightarrow> u64 \<Rightarrow> nat option \<Rightarrow> u64 \<Rightarrow> bool \<Rightarrow> posix_file file_writer log_writer" where
  "new_log f align max_size per_sync limit log_number recycle =
     new_writer (new_file_writer f align max_size per_sync limit) log_number recycle"

definition on_disk :: "posix_file file_writer log_writer \<Rightarrow> slice" where
  "on_disk w = pf_data (writable_file (dest w))"

lemma new_log_good:
  "posix.writer.good (new_log (log_file writes syncs) align max_size per_sync limit log_number recycle)"
  "fw_contents pf_data (dest (new_log (log_file writes syncs) align max_size per_sync limit log_number recycle)) = []"
  by (simp_all add: posix.writer.good_def new_log_def new_writer_def new_file_writer_def log_file_def
      AllocateNewBuffer_def fw_contents_def log_table_def)

text \<open>C1: what the log has accepted survives. When records have been added to a new log one after the
  other, every call succeeding whatever the system calls did before (partial writes, interrupts,
  any buffer and rate limit), all their bytes are in the file; and from any prefix of the file
  the recovery gets exactly the records that lie completely in it, unchanged and in order, and
  then the end of the log, without reporting a corruption. In the mode \<open>kAbsoluteConsistency\<close> this is
  so for the whole file. The log number of a recycled log has to be below \<open>2 ^ 32\<close>.\<close>

theorem log_survives_crash:
  assumes add: "add_records le posix_log rs w = Inr (True, w')" "trailers_ok le posix_log rs w"
    and w: "w = new_log (log_file writes syncs) align max_size per_sync limit log_number recycle"
    and number: "recycle \<longrightarrow> log_number < 2 ^ 32"
    and mode: "mode \<noteq> kAbsoluteConsistency \<or> length (on_disk w') \<le> n"
  shows "\<exists>r'. read_log le' mode [] (new_reader (take n (on_disk w')) [] has_reporter checksums 0 log_number) =
      Some (Inr (take (length (filter (\<lambda>e. e \<le> n) (record_ends le posix_log log_contents rs w))) rs, r')) \<and>
    reports r' = (if has_reporter then Some [] else None)"
proof -
  have good: "posix.writer.good w" "log_contents (dest w) = []" unfolding w by (rule new_log_good)+
  let ?ends = "record_ends le posix_log log_contents rs w"
  from posix.writer.add_layout [OF add good(1)] obtain bs where
    bs: "log_contents (dest w') = bs" "rs \<noteq> [] \<longrightarrow> on_disk w' = bs" "layout w 0 bs rs ?ends"
    by (auto simp: good(2) on_disk_def)
  have disk: "on_disk w' = bs"
  proof (cases "rs = []")
    case True
    with add(1) bs(1) have "w' = w" "bs = []" using good(2) by auto
    then show ?thesis by (simp add: w on_disk_def new_log_def new_writer_def new_file_writer_def log_file_def AllocateNewBuffer_def)
  qed (use bs(2) in simp)
  let ?F = "take n bs" and ?r = "new_reader (take n bs) [] has_reporter checksums 0 log_number"
  have acc: "accepts w ?r"
    using number by (auto simp: accepts_def w new_log_def new_writer_def new_reader_def log_table_def)
  have len: "drop 0 ?F = take (min n (length bs)) bs" "min n (length bs) \<le> length bs"
    "mode \<noteq> kAbsoluteConsistency \<or> min n (length bs) = length bs"
    using mode disk by (auto simp: min_def)
  from layout_read [OF bs(3) reading_start len(1,2) acc len(3), of le' "[]"]
  obtain r' where r': "read_log le' mode [] ?r =
      Some (Inr (take (length (filter (\<lambda>e. e \<le> length ?F) ?ends)) rs, r'))" "steady ?r r'"
    by (auto simp only: append_Nil)
  have "filter (\<lambda>e. e \<le> length ?F) ?ends = filter (\<lambda>e. e \<le> n) ?ends"
    using layout_ends_le [OF bs(3)] by (auto intro!: filter_cong)
  with r' show ?thesis unfolding disk by (auto simp: steady_def new_reader_def)
qed

subsection \<open>When no write fails\<close>

text \<open>A writer without rate limit and range syncs, whose file will not refuse a write, with room for a block.\<close>

definition calm :: "posix_file file_writer \<Rightarrow> bool" where
  "calm w \<longleftrightarrow> burst w = None \<and> bytes_per_sync w = 0 \<and> length (buf w) \<le> 10 \<and> kBlockSize + 10 \<le> capacity w \<and>
     Write_Error \<notin> set (pf_writes (writable_file w))"

lemma Append_buffered:
  assumes "length (buf w) + length d \<le> capacity w"
  shows "Append fm d w = Some (Inr (True,
    w\<lparr>pending_sync := True, buf := buf w @ d, filesize := filesize w + word_of_nat (length d)\<rparr>))"
proof -
  have "append_loop fm d (w\<lparr>pending_sync := True\<rparr>) = Some (Inr (True, w\<lparr>pending_sync := True, buf := buf w @ d\<rparr>))"
    by (subst append_loop.simps) (use assms in \<open>auto simp: buffer_append_def Let_def\<close>)
  moreover have "\<not> capacity w - length (buf w) < length d" "length d \<le> capacity w" using assms by linarith+
  ultimately show ?thesis by (simp add: Append_def Let_def)
qed

lemma write_all_calm:
  "Write_Error \<notin> set ws \<Longrightarrow> \<exists>ws'. write_all ws left data = (True, data @ left, ws') \<and> Write_Error \<notin> set ws'"
  by (induction ws left data rule: write_all.induct) (auto split: write_result.splits)

lemma Flush_calm:
  assumes "burst w = None" "bytes_per_sync w = 0" "Write_Error \<notin> set (pf_writes (writable_file w))"
  shows "\<exists>f. Flush posix_methods w = Some (Inr (True, w\<lparr>writable_file := f, buf := []\<rparr>)) \<and>
    Write_Error \<notin> set (pf_writes f)"
proof (cases "buf w = []")
  case True
  with assms show ?thesis
    by (intro exI [of _ "writable_file w"]) (simp add: Flush_def posix_methods_def posix_flush_def sync_range_def)
next
  case False
  obtain ws' where ws': "write_all (pf_writes (writable_file w)) (buf w) (pf_data (writable_file w)) =
      (True, pf_data (writable_file w) @ buf w, ws')" "Write_Error \<notin> set ws'"
    using write_all_calm [OF assms(3)] by blast
  define f where "f = snd (posix_append (buf w) (writable_file w))"
  have f: "posix_append (buf w) (writable_file w) = (True, f)" "Write_Error \<notin> set (pf_writes f)"
    using ws' by (simp_all add: f_def posix_append_def)
  have "write_loop posix_methods (buf w) w = Some (True, w\<lparr>writable_file := f, buf := []\<rparr>)"
    apply (subst write_loop.simps, subst write_loop.simps)
    using False f(1) assms(1) by (simp add: RequestToken_def posix_methods_def)
  with False f(2) assms(2) show ?thesis
    by (intro exI [of _ f]) (simp add: Flush_def WriteBuffered_def posix_methods_def posix_flush_def sync_range_def)
qed

lemma emit_calm:
  assumes "calm (dest w)" "length p \<le> 0xffff" "block_offset w + header_of t + length p \<le> kBlockSize"
  shows "\<exists>w'. EmitPhysicalRecord le posix_log t p w = Inr (True, w') \<and> calm (dest w') \<and> buf (dest w') = []"
proof -
  let ?h = "record_header le w t p"
  define f1 where "f1 = (dest w)\<lparr>pending_sync := True, buf := buf (dest w) @ ?h, filesize := filesize (dest w) + word_of_nat (length ?h)\<rparr>"
  define f2 where "f2 = f1\<lparr>pending_sync := True, buf := buf f1 @ p, filesize := filesize f1 + word_of_nat (length p)\<rparr>"
  have h: "length ?h = header_of t" by (rule length_header)
  have 1: "f_append posix_log (dest w) ?h = (True, f1)"
    using Append_buffered [of "dest w" ?h posix_methods] assms(1,3) h
    by (simp add: writer_ops_def as_call_True f1_def calm_def)
  have 2: "f_append posix_log f1 p = (True, f2)"
    using Append_buffered [of f1 p posix_methods] assms(1,3) h
    by (simp add: writer_ops_def as_call_True f1_def f2_def calm_def)
  from Flush_calm [of f2] obtain f where
    f: "Flush posix_methods f2 = Some (Inr (True, f2\<lparr>writable_file := f, buf := []\<rparr>))" "Write_Error \<notin> set (pf_writes f)"
    using assms(1) by (auto simp: f1_def f2_def calm_def)
  then have "f_flush posix_log f2 = (True, f2\<lparr>writable_file := f, buf := []\<rparr>)"
    by (simp add: writer_ops_def as_call_True)
  with 1 2 f(2) assms show ?thesis
    by (simp add: EmitPhysicalRecord_def Let_def header_of_def f1_def f2_def calm_def split: if_splits)
qed

lemma switch_calm:
  assumes "calm (dest w)" "buf (dest w) = []"
  shows "calm (dest (switch_block posix_log w))" "trailer_ok posix_log w"
proof -
  have a: "f_append posix_log (dest w) d = (True, (dest w)\<lparr>pending_sync := True, buf := d, filesize := filesize (dest w) + word_of_nat (length d)\<rparr>)"
    if "length d \<le> 10" for d
    using Append_buffered [of "dest w" d posix_methods] assms that
    by (simp add: writer_ops_def as_call_True calm_def)
  show "trailer_ok posix_log w"
    using a [of "trailer w"] header_sizes(1) [of w] by (simp add: trailer_ok_def trailer_def)
  show "calm (dest (switch_block posix_log w))"
    using a [of "replicate (min (kBlockSize - block_offset w) 10) 0"] assms
    by (simp add: switch_block_def calm_def Let_def)
qed

lemma add_loop_calm:
  assumes "posix.writer.good w" "calm (dest w)" "buf (dest w) = []"
  shows "\<exists>w'. add_loop le posix_log is_first left w = Inr (True, w') \<and> calm (dest w') \<and> buf (dest w') = []"
  using assms
proof (induction le posix_log is_first left w rule: add_loop.induct)
  case (1 le is_first left w)
  define w1 where "w1 = switch_block posix_log w"
  define fl where "fl = min (length left) (kBlockSize - block_offset w1 - writer_header_size w1)"
  define t where "t = fragment_type (recycle_log_files w1) is_first (length left = fl)"
  note sw = switch_calm [OF "1.prems"(2,3)]
  have bo: "\<not> kBlockSize < block_offset w" using "1.prems"(1) by (simp add: posix.writer.good_def)
  have room: "block_offset w1 + writer_header_size w1 \<le> kBlockSize"
    using posix.writer.switch_ok(3) [OF sw(2) "1.prems"(1)] by (simp add: w1_def)
  have h: "header_of t = writer_header_size w1" by (simp add: t_def writer_header_of)
  have lp: "length (take fl left) \<le> 0xffff" "block_offset w1 + header_of t + length (take fl left) \<le> kBlockSize"
    using room header_sizes(2) [of w1] by (auto simp: fl_def h kBlockSize_def)
  from emit_calm [OF sw(1) [folded w1_def] lp] obtain w2 where
    w2: "EmitPhysicalRecord le posix_log t (take fl left) w1 = Inr (True, w2)" "calm (dest w2)" "buf (dest w2) = []"
    by blast
  have step: "add_loop le posix_log is_first left w =
      (if drop fl left \<noteq> [] then add_loop le posix_log False (drop fl left) w2 else Inr (True, w2))"
    using bo room w2(1) by (simp add: add_loop_unfold [OF w1_def fl_def t_def] del: drop_eq_Nil)
  show ?case
  proof (cases "drop fl left = []")
    case True
    with step w2 show ?thesis by simp
  next
    case False
    have "posix.writer.good w2"
      using posix.writer.emit_good [OF w2(1)] posix.writer.switch_ok [OF sw(2) "1.prems"(1)] "1.prems"(1)
      by (simp add: posix.writer.good_def w1_def)
    with "1.hyps" [OF bo w1_def refl fl_def t_def _ w2(1) refl] room w2 False step show ?thesis
      by simp
  qed
qed

lemma add_records_calm:
  assumes "posix.writer.good w" "calm (dest w)" "buf (dest w) = []"
  shows "\<exists>w'. add_records le posix_log rs w = Inr (True, w') \<and> trailers_ok le posix_log rs w"
  using assms
proof (induction rs arbitrary: w)
  case (Cons x rs)
  from add_loop_calm [OF Cons.prems, of le True x] obtain w1 where
    w1: "add_loop le posix_log True x w = Inr (True, w1)" "calm (dest w1)" "buf (dest w1) = []" by blast
  note t = switch_calm(2) [OF Cons.prems(2,3)]
  from posix.writer.add_fragments [OF w1(1) t Cons.prems(1)] have "posix.writer.good w1" by blast
  from Cons.IH [OF this w1(2,3)] w1(1) t show ?case by (simp add: AddRecord_def)
qed simp

lemma Roundup_ge: "0 < y \<Longrightarrow> x \<le> Roundup x y"
  using div_mult_mod_eq [of "x + y - 1" y] mod_less_divisor [of y "x + y - 1"]
  unfolding Roundup_def by linarith

lemma new_log_calm:
  assumes "Write_Error \<notin> set writes" "0 < align" "65536 \<le> max_size"
  shows "calm (dest (new_log (log_file writes syncs) align max_size 0 None log_number recycle))"
    "buf (dest (new_log (log_file writes syncs) align max_size 0 None log_number recycle)) = []"
  using assms Roundup_ge [of align 65536]
  by (simp_all add: calm_def new_log_def new_writer_def new_file_writer_def log_file_def
      AllocateNewBuffer_def kBlockSize_def)

text \<open>C17: the log accepts every record. When no write fails for good, all calls of \<open>AddRecord\<close> on a new
  log return, fulfil their assertions and succeed, however short or often interrupted the single
  writes are. (Without rate limit and range syncs, and with the default size of the buffer.)\<close>

theorem log_accepts_records:
  assumes "Write_Error \<notin> set writes" "0 < align" "65536 \<le> max_size"
    and "w = new_log (log_file writes syncs) align max_size 0 None log_number recycle"
  shows "\<exists>w'. add_records le posix_log rs w = Inr (True, w') \<and> trailers_ok le posix_log rs w"
  unfolding assms(4) by (rule add_records_calm [OF new_log_good(1) new_log_calm [OF assms(1-3)]])

theorem log_accepts_records_witness:
  "\<exists>w'. add_records True posix_log [[1, 2, 3], [], replicate 100000 7]
     (new_log (log_file [Wrote 3, Interrupted, Wrote 0] []) 4096 1048576 0 None 5 False) = Inr (True, w')"
  using log_accepts_records [of "[Wrote 3, Interrupted, Wrote 0]" 4096 1048576 _ "[]" 5 False True "[[1, 2, 3], [], replicate 100000 7]"]
  by auto

text \<open>A record that fits in the block.\<close>

lemma small_record:
  assumes "posix.writer.good w" "calm (dest w)" "buf (dest w) = []"
    "block_offset w + writer_header_size w + length x \<le> kBlockSize"
  shows "\<exists>w'. AddRecord le posix_log x w = Inr (True, w') \<and> posix.writer.good w' \<and> calm (dest w') \<and>
    buf (dest w') = [] \<and> same_log w w' \<and> block_offset w' = block_offset w + writer_header_size w + length x \<and>
    length (log_contents (dest w')) = length (log_contents (dest w)) + writer_header_size w + length x"
proof -
  have sw: "switch_block posix_log w = w" using assms(4) by (simp add: switch_block_def Let_def)
  define t where "t = fragment_type (recycle_log_files w) True True"
  have fl: "length x = min (length x) (kBlockSize - block_offset w - writer_header_size w)"
    using assms(4) by simp
  have h: "header_of t = writer_header_size w" by (simp add: t_def writer_header_of)
  have "length x \<le> 0xffff" using assms(4) header_sizes(2) [of w] by (simp add: kBlockSize_def)
  with emit_calm [OF assms(2), of x t le] assms(4) obtain w2 where
    w2: "EmitPhysicalRecord le posix_log t x w = Inr (True, w2)" "calm (dest w2)" "buf (dest w2) = []"
    by (auto simp: h)
  note em = posix.writer.emit_ok [OF w2(1)]
  have "add_loop le posix_log True x w = Inr (True, w2)"
    using add_loop_unfold [OF sw [symmetric] fl, of t True le] w2(1) assms(4) by (simp add: t_def)
  moreover have "posix.writer.good w2"
    using posix.writer.emit_good [OF w2(1)] assms(1) by (simp add: posix.writer.good_def)
  ultimately show ?thesis
    using em w2 by (simp add: AddRecord_def h phys_def length_header)
qed

theorem log_survives_crash_witness:
  "\<exists>w' r'. add_records True posix_log [[1], [2, 3]] (new_log (log_file [Wrote 3] []) 4096 1048576 0 None 5 True) = Inr (True, w') \<and>
    read_log False kTolerateCorruptedTailRecords [] (new_reader (take 20 (on_disk w')) [] True True 0 5) = Some (Inr ([[1]], r')) \<and>
    reports r' = Some []"
proof -
  define w where "w = new_log (log_file [Wrote 3] []) 4096 1048576 0 None 5 True"
  have w: "posix.writer.good w" "log_contents (dest w) = []" "calm (dest w)" "buf (dest w) = []"
    "block_offset w = 0" "writer_header_size w = 11"
    unfolding w_def by (rule new_log_good new_log_calm | simp)+
      (simp_all add: new_log_def new_writer_def writer_header_size_def format_consts)
  obtain w1 where w1: "AddRecord True posix_log [1] w = Inr (True, w1)" "posix.writer.good w1" "calm (dest w1)"
    "buf (dest w1) = []" "same_log w w1" "block_offset w1 = 12" "length (log_contents (dest w1)) = 12"
    using small_record [OF w(1,3,4), of "[1]" True] by (auto simp: w kBlockSize_def)
  have h1: "writer_header_size w1 = 11" using w1(5) w(6) by (simp add: same_log_def writer_header_size_def)
  obtain w2 where w2: "AddRecord True posix_log [2, 3] w1 = Inr (True, w2)" "length (log_contents (dest w2)) = 25"
    using small_record [OF w1(2,3,4), of "[2, 3]" True] by (auto simp: w1 h1 kBlockSize_def)
  have a: "add_records True posix_log [[1], [2, 3]] w = Inr (True, w2)" by (simp add: w1(1) w2(1))
  have t: "trailers_ok True posix_log [[1], [2, 3]] w"
    using switch_calm(2) [OF w(3,4)] switch_calm(2) [OF w1(3,4)] by (simp add: w1(1) w2(1))
  have e: "record_ends True posix_log log_contents [[1], [2, 3]] w = [12, 25]"
    by (simp add: w1(1,7) w2)
  have "\<exists>r'. read_log False kTolerateCorruptedTailRecords [] (new_reader (take 20 (on_disk w2)) [] True True 0 5) =
      Some (Inr (take (length (filter (\<lambda>e. e \<le> 20) [12, 25 :: nat])) [[1], [2, 3]], r')) \<and> reports r' = (if True then Some [] else None)"
    using log_survives_crash [OF a t w_def, of kTolerateCorruptedTailRecords 20 False True True] unfolding e by simp
  with a show ?thesis unfolding w_def by auto
qed

subsection \<open>Records of an earlier use of the file\<close>

lemma read_old_record:
  assumes "loaded F q r" "drop q F = phys w t p @ rest" "q mod kBlockSize + header_of t + length p \<le> kBlockSize"
    "type_crc w = log_table" "length p \<le> 0xffff" "5 \<le> type_no t"
    "ucast (ucast (wr_log_number w) :: u32) \<noteq> rd_log_number r"
  shows "\<exists>b. ReadPhysicalRecord le d r = Inr (kOldRecord, None, d, r\<lparr>recycled := b\<rparr>)"
proof -
  have room: "q + length (phys w t p) \<le> block_end q"
    using assms(3) block_room [of q "header_of t + length p"] by (simp add: length_phys)
  then have buf: "buffer r = record_header True w t p @ p @ take (block_end q - (q + length (phys w t p))) rest"
    using assms(1,2) by (simp add: loaded_def phys_def add.assoc)
  note f = header_fields [OF buf assms(5,4)]
  have h: "header_of t = 11" using assms(6) by (simp add: header_of_cases)
  have "\<not> length (buffer r) < kHeaderSize" "\<not> length (buffer r) < kRecyclableHeaderSize"
    using f(5) h by (simp_all add: format_consts)
  with f(1) f(4) [OF assms(6), of le] assms(6,7) show ?thesis
    by (subst ReadPhysicalRecord.simps)
      (auto simp: Let_def intro: exI [of _ "recycled r"])
qed

lemma recycled_irrelevant [simp]: "loaded F p (r\<lparr>recycled := b\<rparr>) = loaded F p r"
  by (simp add: loaded_def healthy_def)

lemma old_record_again:
  assumes old: "\<And>r. loaded F q r \<Longrightarrow> rd_log_number r = n \<Longrightarrow>
      \<exists>b. ReadPhysicalRecord le 0 r = Inr (kOldRecord, None, 0, r\<lparr>recycled := b\<rparr>)"
    and r: "loaded F q r" "rd_log_number r = n"
  shows "read_loop le kSkipAnyCorruptedRecords s r = None"
proof (cases "read_loop le kSkipAnyCorruptedRecords s r")
  case (Some y)
  have "l = le \<longrightarrow> m = kSkipAnyCorruptedRecords \<longrightarrow> loaded F q r \<longrightarrow> rd_log_number r = n \<longrightarrow> False"
    if "read_loop l m s r = Some y" for l m s r y
  proof (rule read_loop.raw_induct [OF _ that])
    fix loop :: "bool \<Rightarrow> recovery_mode \<Rightarrow> scan \<Rightarrow> log_reader \<Rightarrow> (slice option \<times> log_reader) res option" and l m s r y
    assume IH: "\<And>l m s r y. loop l m s r = Some y \<Longrightarrow>
        l = le \<longrightarrow> m = kSkipAnyCorruptedRecords \<longrightarrow> loaded F q r \<longrightarrow> rd_log_number r = n \<longrightarrow> False"
      and step: "(case read_round l m s r of Inl f \<Rightarrow> Some (Inl f)
        | Inr (Inl result) \<Rightarrow> Some (Inr result) | Inr (Inr (s', r')) \<Rightarrow> loop l m s' r') = Some y"
    show "l = le \<longrightarrow> m = kSkipAnyCorruptedRecords \<longrightarrow> loaded F q r \<longrightarrow> rd_log_number r = n \<longrightarrow> False"
    proof (intro impI)
      assume a: "l = le" "m = kSkipAnyCorruptedRecords" "loaded F q r" "rd_log_number r = n"
      from old [OF a(3,4)] obtain b where b: "ReadPhysicalRecord le 0 r = Inr (kOldRecord, None, 0, r\<lparr>recycled := b\<rparr>)" by blast
      obtain s' r' where rr: "read_round l m s r = Inr (Inr (s', r'))" "loaded F q r'" "rd_log_number r' = n"
      proof -
        let ?x = "give_up ''error in middle of record'' s (r\<lparr>recycled := b\<rparr>)"
        have "read_round l m s r = Inr (Inr ?x)"
          using b a(1,2) by (simp add: read_round_def special_values Let_def)
        moreover have "loaded F q (snd ?x)" "rd_log_number (snd ?x) = n"
          using a(3,4) by (auto simp: give_up_def ReportCorruption_def ReportDrop_def loaded_def healthy_def split: option.splits)
        ultimately show thesis using that by (metis prod.collapse)
      qed
      with IH [of l m s' r' y] step a(1,2) show False by simp
    qed
  qed
  with Some r show ?thesis by blast
qed simp

lemma old_record_stops:
  assumes "ReadPhysicalRecord le 0 r = Inr (kOldRecord, None, 0, r')" "mode \<notin> {kSkipAnyCorruptedRecords}"
    "\<not> in_fragmented_record s"
  shows "read_loop le mode s r = Some (Inr (None, r'))"
  by (subst read_loop.simps) (use assms in \<open>simp add: read_round_def end_of_input_def special_values Let_def\<close>)

lemma fragments_first:
  assumes "fragments w True q bs x" "recycle_log_files w"
  obtains t p rest where "bs = phys w t p @ rest" "length p \<le> 0xffff" "5 \<le> type_no t"
    "q mod kBlockSize + header_of t + length p \<le> kBlockSize"
  using assms(1)
proof (cases rule: fragments.cases)
  case (last t)
  then show thesis using assms(2) that [of t x "[]"] by (simp add: fragment_type_def)
next
  case (further t fr bs' rest)
  then show thesis using assms(2) that [of t fr bs'] by (simp add: fragment_type_def)
qed

text \<open>C15: records of an earlier use of the file. When a recycled file still begins with records of
  another log number, the recovery gets none of them and reports nothing; but in the mode
  \<open>kSkipAnyCorruptedRecords\<close> \<open>ReadRecord\<close> never returns: the record is not taken from the buffer, and the
  loop reads it again and again.\<close>

theorem old_records:
  assumes add: "add_records le posix_log rs w = Inr (True, w')" "trailers_ok le posix_log rs w" "rs \<noteq> []"
    and w: "w = new_log (log_file writes syncs) align max_size per_sync limit old_number True"
    and number: "old_number < 2 ^ 32" "log_number \<noteq> old_number"
  shows "(if mode = kSkipAnyCorruptedRecords
     then ReadRecord le' mode (new_reader (on_disk w') [] has_reporter checksums 0 log_number) = None
     else \<exists>r'. read_log le' mode [] (new_reader (on_disk w') [] has_reporter checksums 0 log_number) = Some (Inr ([], r')) \<and>
       reports r' = (if has_reporter then Some [] else None))"
proof -
  let ?F = "on_disk w'" and ?r = "new_reader (on_disk w') [] has_reporter checksums 0 log_number"
  have good: "posix.writer.good w" "log_contents (dest w) = []" unfolding w by (rule new_log_good)+
  from posix.writer.add_layout [OF add(1,2) good(1)] add(3) have
    lay: "layout w 0 ?F rs (record_ends le posix_log log_contents rs w)"
    by (auto simp: good(2) on_disk_def)
  obtain t p rest where F: "?F = phys w t p @ rest" "length p \<le> 0xffff" "5 \<le> type_no t"
    "0 mod kBlockSize + header_of t + length p \<le> kBlockSize"
  proof -
    obtain k bs later x where k: "?F = replicate k 0 @ bs @ later" "k = 0 \<or> (k = block_end 0 \<and> k \<le> 10)"
      "fragments w True (0 + k) bs x"
      using lay
    proof (cases rule: layout.cases)
      case (cons k bs x later rs' es)
      then show thesis using that [of k bs later x] by simp
    qed (use add(3) in simp)
    then have "k = 0" by (auto simp: block_end_def kBlockSize_def)
    moreover have "recycle_log_files w" by (simp add: w new_log_def new_writer_def)
    ultimately show thesis using fragments_first [of w 0 bs x thesis] k that by auto
  qed
  have tab: "type_crc w = log_table" "ucast (ucast (wr_log_number w) :: u32) \<noteq> log_number"
    using number small_log_number [of old_number] by (simp_all add: w new_log_def new_writer_def log_table_def)
  have old: "\<exists>b. ReadPhysicalRecord le' d r = Inr (kOldRecord, None, d, r\<lparr>recycled := b\<rparr>)"
    if "loaded ?F 0 r" "rd_log_number r = log_number" for d r
    using read_old_record [OF that(1) _ F(4) tab(1) F(2,3)] F(1) tab(2) that(2) by simp
  obtain r1 where r1: "ReadPhysicalRecord le' 0 ?r = ReadPhysicalRecord le' 0 r1" "loaded ?F 0 r1" "steady ?r r1"
    using settle [OF at_reading [OF reading_start]] by blast
  have n: "rd_log_number r1 = log_number" using r1(3) by (simp add: steady_def new_reader_def)
  from old [OF r1(2) n, of 0] r1(1) obtain b where
    b: "ReadPhysicalRecord le' 0 ?r = Inr (kOldRecord, None, 0, r1\<lparr>recycled := b\<rparr>)" by auto
  note start = ReadRecord_loop [OF reading_start, of le' _ ?F has_reporter checksums log_number]
  show ?thesis
  proof (cases "mode = kSkipAnyCorruptedRecords")
    case True
    have "read_loop le' mode no_scan ?r = read_loop le' mode no_scan (r1\<lparr>recycled := b\<rparr>)"
      by (subst read_loop.simps)
        (use b True in \<open>simp add: read_round_def special_values Let_def give_up_def no_scan_def\<close>)
    also have "\<dots> = None"
      using old_record_again [of ?F 0 log_number le' "r1\<lparr>recycled := b\<rparr>" no_scan] old r1(2) n True by simp
    finally show ?thesis using True by (simp add: start)
  next
    case False
    from old_record_stops [OF b] False have "read_loop le' mode no_scan ?r = Some (Inr (None, r1\<lparr>recycled := b\<rparr>))"
      by (simp add: no_scan_def)
    then have "read_log le' mode [] ?r = Some (Inr ([], r1\<lparr>recycled := b\<rparr>))"
      by (subst read_log.simps) (simp add: start)
    moreover have "reports (r1\<lparr>recycled := b\<rparr>) = (if has_reporter then Some [] else None)"
      using r1(3) by (simp add: steady_def new_reader_def)
    ultimately show ?thesis using False by simp
  qed
qed

theorem old_records_witness:
  "\<exists>w'. add_records True posix_log [[1]] (new_log (log_file [] []) 4096 1048576 0 None 5 True) = Inr (True, w') \<and>
     ReadRecord True kSkipAnyCorruptedRecords (new_reader (on_disk w') [] True True 0 6) = None"
proof -
  obtain w' where w': "add_records True posix_log [[1]] (new_log (log_file [] []) 4096 1048576 0 None 5 True) = Inr (True, w')"
    "trailers_ok True posix_log [[1]] (new_log (log_file [] []) 4096 1048576 0 None 5 True)"
    using add_records_calm [OF new_log_good(1) new_log_calm, of "[]" 4096 1048576 True "[[1]]" "[]" 5 True] by auto
  with old_records [OF w' _ refl, of 6 kSkipAnyCorruptedRecords True True True] show ?thesis by auto
qed

end
