(* ===== verification/InternalKey.thy ===== *)
theory InternalKey
  imports Coding "HOL-Library.List_Lexorder"
begin

section \<open>RocksDB: comparators and internal keys\<close>

text \<open>
  \<open>include/rocksdb/slice.h\<close>, \<open>util/comparator.cc\<close>, \<open>db/dbformat.h\<close> and \<open>db/dbformat.cc\<close>. An internal key is a
  user key, a sequence number and a type, the last two packed into eight bytes at its end. The
  memtable and the files of the database are sorted by internal keys: by user key, and the entries
  of one user key with the newest first. The locale \<open>key_order\<close> is what is asked of a comparator,
  \<open>key_shortening\<close> what is asked of the functions that shorten keys; both hold of the two comparators
  of the library, and the comparator of internal keys keeps the first whatever the user comparator is.
\<close>

subsection \<open>Slices and the comparators of the library\<close>

text \<open>\<open>memcmp\<close> of \<open>n\<close> bytes. The standard fixes the sign of its result only, and only the sign is used.\<close>

fun memcmp :: "nat \<Rightarrow> slice \<Rightarrow> slice \<Rightarrow> int" where
  "memcmp (Suc n) (a # as) (b # bs) = (if a = b then memcmp n as bs else uint a - uint b)"
| "memcmp _ _ _ = 0"

definition slice_compare :: "slice \<Rightarrow> slice \<Rightarrow> int" where
  "slice_compare a b =
     (let min_len = (if length a < length b then length a else length b);
          r = memcmp min_len a b
      in if r = 0 then (if length a < length b then -1 else if length b < length a then 1 else 0) else r)"

definition slice_equal :: "slice \<Rightarrow> slice \<Rightarrow> bool" where
  "slice_equal x y \<longleftrightarrow> length x = length y \<and> memcmp (length x) x y = 0"

text \<open>\<open>Comparator\<close>: the functions that shorten keys fulfil their assertions or not.\<close>

record comparator =
  cmp :: "slice \<Rightarrow> slice \<Rightarrow> int"
  cmp_equal :: "slice \<Rightarrow> slice \<Rightarrow> bool"
  separator :: "slice \<Rightarrow> slice \<Rightarrow> slice res"
  successor :: "slice \<Rightarrow> slice"

fun common_prefix :: "slice \<Rightarrow> slice \<Rightarrow> nat" where
  "common_prefix (a # as) (b # bs) = (if a = b then Suc (common_prefix as bs) else 0)"
| "common_prefix _ _ = 0"

text \<open>The first byte below \<open>0xff\<close> is incremented and the last one kept; \<open>None\<close> when there is none.\<close>

fun bump_first :: "slice \<Rightarrow> slice option" where
  "bump_first [] = None"
| "bump_first (b # bs) = (if b \<noteq> 0xff then Some [b + 1] else map_option ((#) b) (bump_first bs))"

text \<open>\<open>compare\<close> is the virtual function that the assertion at the end calls.\<close>

definition bytewise_separator :: "(slice \<Rightarrow> slice \<Rightarrow> int) \<Rightarrow> slice \<Rightarrow> slice \<Rightarrow> slice res" where
  "bytewise_separator compare start limit =
     (let min_length = min (length start) (length limit);
          diff_index = common_prefix start limit
      in if min_length \<le> diff_index then Inr start
         else (let start_byte = start ! diff_index; limit_byte = limit ! diff_index
               in if limit_byte \<le> start_byte then Inr start
                  else (let result =
                      (if diff_index < length limit - 1 \<or> uint start_byte + 1 < uint limit_byte
                       then take diff_index start @ [start_byte + 1]
                       else take (diff_index + 1) start @
                            (case bump_first (drop (diff_index + 1) start) of
                               None \<Rightarrow> drop (diff_index + 1) start
                             | Some t \<Rightarrow> t))
                        in if compare result limit < 0 then Inr result else Inl Assert_Failed)))"

definition bytewise_successor :: "slice \<Rightarrow> slice" where
  "bytewise_successor key = (case bump_first key of None \<Rightarrow> key | Some k \<Rightarrow> k)"

definition BytewiseComparator :: comparator where
  "BytewiseComparator =
     \<lparr>cmp = slice_compare, cmp_equal = slice_equal, separator = bytewise_separator slice_compare,
      successor = bytewise_successor\<rparr>"

definition reverse_compare :: "slice \<Rightarrow> slice \<Rightarrow> int" where
  "reverse_compare a b = - slice_compare a b"

definition ReverseBytewiseComparator :: comparator where
  "ReverseBytewiseComparator =
     \<lparr>cmp = reverse_compare, cmp_equal = slice_equal, separator = bytewise_separator reverse_compare,
      successor = bytewise_successor\<rparr>"

subsection \<open>Sequence numbers and types\<close>

definition kTypeDeletion :: byte where "kTypeDeletion = 0x0"
definition kTypeValue :: byte where "kTypeValue = 0x1"
definition kTypeMerge :: byte where "kTypeMerge = 0x2"
definition kTypeLogData :: byte where "kTypeLogData = 0x3"
definition kTypeColumnFamilyDeletion :: byte where "kTypeColumnFamilyDeletion = 0x4"
definition kTypeColumnFamilyValue :: byte where "kTypeColumnFamilyValue = 0x5"
definition kTypeColumnFamilyMerge :: byte where "kTypeColumnFamilyMerge = 0x6"
definition kTypeSingleDeletion :: byte where "kTypeSingleDeletion = 0x7"
definition kTypeColumnFamilySingleDeletion :: byte where "kTypeColumnFamilySingleDeletion = 0x8"
definition kTypeBeginPrepareXID :: byte where "kTypeBeginPrepareXID = 0x9"
definition kTypeEndPrepareXID :: byte where "kTypeEndPrepareXID = 0xA"
definition kTypeCommitXID :: byte where "kTypeCommitXID = 0xB"
definition kTypeRollbackXID :: byte where "kTypeRollbackXID = 0xC"
definition kTypeNoop :: byte where "kTypeNoop = 0xD"
definition kTypeColumnFamilyRangeDeletion :: byte where "kTypeColumnFamilyRangeDeletion = 0xE"
definition kTypeRangeDeletion :: byte where "kTypeRangeDeletion = 0xF"
definition kMaxValue :: byte where "kMaxValue = 0x7F"

lemmas tag_defs = kTypeDeletion_def kTypeValue_def kTypeMerge_def kTypeLogData_def
  kTypeColumnFamilyDeletion_def kTypeColumnFamilyValue_def kTypeColumnFamilyMerge_def
  kTypeSingleDeletion_def kTypeColumnFamilySingleDeletion_def kTypeBeginPrepareXID_def
  kTypeEndPrepareXID_def kTypeCommitXID_def kTypeRollbackXID_def kTypeNoop_def
  kTypeColumnFamilyRangeDeletion_def kTypeRangeDeletion_def

definition kValueTypeForSeek :: byte where "kValueTypeForSeek = kTypeSingleDeletion"
definition kValueTypeForSeekForPrev :: byte where "kValueTypeForSeekForPrev = kTypeDeletion"

definition IsValueType :: "byte \<Rightarrow> bool" where
  "IsValueType t \<longleftrightarrow> t \<le> kTypeMerge \<or> t = kTypeSingleDeletion"

definition IsExtendedValueType :: "byte \<Rightarrow> bool" where
  "IsExtendedValueType t \<longleftrightarrow> IsValueType t \<or> t = kTypeRangeDeletion"

definition kMaxSequenceNumber :: u64 where
  "kMaxSequenceNumber = push_bit 56 1 - 1"

record parsed_key =
  pk_user_key :: slice
  pk_sequence :: u64
  pk_type :: byte

definition PackSequenceAndType :: "u64 \<Rightarrow> byte \<Rightarrow> u64 res" where
  "PackSequenceAndType seq t =
     (if kMaxSequenceNumber < seq \<or> \<not> IsExtendedValueType t then Inl Assert_Failed
      else Inr (push_bit 8 seq OR ucast t))"

definition UnPackSequenceAndType :: "u64 \<Rightarrow> (u64 \<times> byte) res" where
  "UnPackSequenceAndType packed =
     (let seq = drop_bit 8 packed; t = ucast (packed AND 0xff)
      in if kMaxSequenceNumber < seq \<or> \<not> IsExtendedValueType t then Inl Assert_Failed else Inr (seq, t))"

subsection \<open>Internal keys\<close>

definition AppendInternalKeyFooter :: "bool \<Rightarrow> slice \<Rightarrow> u64 \<Rightarrow> byte \<Rightarrow> slice res" where
  "AppendInternalKeyFooter le result s t =
     bind_res (PackSequenceAndType s t) (\<lambda>packed. Inr (PutFixed64 le result packed))"

definition AppendInternalKey :: "bool \<Rightarrow> slice \<Rightarrow> parsed_key \<Rightarrow> slice res" where
  "AppendInternalKey le result key =
     bind_res (PackSequenceAndType (pk_sequence key) (pk_type key)) (\<lambda>packed.
       Inr (PutFixed64 le (result @ pk_user_key key) packed))"

definition ExtractUserKey :: "slice \<Rightarrow> slice res" where
  "ExtractUserKey internal_key =
     (if length internal_key < 8 then Inl Assert_Failed
      else Inr (take (length internal_key - 8) internal_key))"

text \<open>\<open>DecodeFixed64(key.data() + key.size() - 8)\<close>.\<close>

definition key_tag :: "bool \<Rightarrow> slice \<Rightarrow> u64 res" where
  "key_tag le key =
     (if length key < 8 then Inl Out_Of_Range else DecodeFixed64 le (drop (length key - 8) key))"

definition ExtractValueType :: "bool \<Rightarrow> slice \<Rightarrow> byte res" where
  "ExtractValueType le internal_key =
     (if length internal_key < 8 then Inl Assert_Failed
      else bind_res (key_tag le internal_key) (\<lambda>num. Inr (ucast (num AND 0xff))))"

text \<open>\<open>None\<close> is the result \<open>false\<close>, which leaves what is parsed undefined.\<close>

definition ParseInternalKey :: "bool \<Rightarrow> slice \<Rightarrow> parsed_key option res" where
  "ParseInternalKey le internal_key =
     (let n = length internal_key
      in if n < 8 then Inr None
         else bind_res (key_tag le internal_key) (\<lambda>num.
           let t = ucast (num AND 0xff)
           in if kMaxValue < t then Inl Assert_Failed
              else Inr (if IsExtendedValueType t
                        then Some \<lparr>pk_user_key = take (n - 8) internal_key, pk_sequence = drop_bit 8 num, pk_type = t\<rparr>
                        else None)))"

definition UpdateInternalKey :: "bool \<Rightarrow> slice \<Rightarrow> u64 \<Rightarrow> byte \<Rightarrow> slice res" where
  "UpdateInternalKey le ikey seq t =
     (if length ikey < 8 then Inl Assert_Failed
      else Inr (take (length ikey - 8) ikey @ EncodeFixed64 le (push_bit 8 seq OR ucast t)))"

definition GetInternalKeySeqno :: "bool \<Rightarrow> slice \<Rightarrow> u64 res" where
  "GetInternalKeySeqno le internal_key =
     (if length internal_key < 8 then Inl Assert_Failed
      else bind_res (key_tag le internal_key) (\<lambda>num. Inr (drop_bit 8 num)))"

definition icompare :: "bool \<Rightarrow> comparator \<Rightarrow> slice \<Rightarrow> slice \<Rightarrow> int res" where
  "icompare le user akey bkey =
     bind_res (ExtractUserKey akey) (\<lambda>ua.
     bind_res (ExtractUserKey bkey) (\<lambda>ub.
       let r = cmp user ua ub
       in if r = 0
          then bind_res (key_tag le akey) (\<lambda>anum.
               bind_res (key_tag le bkey) (\<lambda>bnum.
                 Inr (if bnum < anum then -1 else if anum < bnum then 1 else r)))
          else Inr r))"

definition icompare_parsed :: "comparator \<Rightarrow> parsed_key \<Rightarrow> parsed_key \<Rightarrow> int" where
  "icompare_parsed user a b =
     (let r = cmp user (pk_user_key a) (pk_user_key b)
      in if r = 0
         then (if pk_sequence b < pk_sequence a then -1
               else if pk_sequence a < pk_sequence b then 1
               else if pk_type b < pk_type a then -1
               else if pk_type a < pk_type b then 1
               else r)
         else r)"

definition asserted :: "bool res \<Rightarrow> 'a res \<Rightarrow> 'a res" where
  "asserted c r = bind_res c (\<lambda>b. if b then r else Inl Assert_Failed)"

abbreviation is_neg :: "int res \<Rightarrow> bool res" where
  "is_neg r \<equiv> bind_res r (\<lambda>x. Inr (x < 0))"

definition iseparator :: "bool \<Rightarrow> comparator \<Rightarrow> slice \<Rightarrow> slice \<Rightarrow> slice res" where
  "iseparator le user start limit =
     bind_res (ExtractUserKey start) (\<lambda>user_start.
     bind_res (ExtractUserKey limit) (\<lambda>user_limit.
     bind_res (separator user user_start user_limit) (\<lambda>tmp.
       if length tmp \<le> length user_start \<and> cmp user user_start tmp < 0
       then bind_res (PackSequenceAndType kMaxSequenceNumber kValueTypeForSeek) (\<lambda>packed.
              let tmp = PutFixed64 le tmp packed
              in asserted (is_neg (icompare le user start tmp))
                   (asserted (is_neg (icompare le user tmp limit)) (Inr tmp)))
       else Inr start)))"

definition isuccessor :: "bool \<Rightarrow> comparator \<Rightarrow> slice \<Rightarrow> slice res" where
  "isuccessor le user key =
     bind_res (ExtractUserKey key) (\<lambda>user_key.
       let tmp = successor user user_key
       in if length tmp \<le> length user_key \<and> cmp user user_key tmp < 0
          then bind_res (PackSequenceAndType kMaxSequenceNumber kValueTypeForSeek) (\<lambda>packed.
                 let tmp = PutFixed64 le tmp packed
                 in asserted (is_neg (icompare le user key tmp)) (Inr tmp))
          else Inr key)"

text \<open>\<open>LookupKey\<close>: the array with its length in front; it is as large as the user key and 13 bytes.\<close>

definition memtable_key :: "bool \<Rightarrow> slice \<Rightarrow> u64 \<Rightarrow> slice res" where
  "memtable_key le user_key s =
     bind_res (PackSequenceAndType s kValueTypeForSeek) (\<lambda>packed.
       let k = EncodeVarint32 (word_of_nat (length user_key + 8)) @ user_key @ EncodeFixed64 le packed
       in if max 200 (length user_key + 13) < length k then Inl Out_Of_Range else Inr k)"

definition internal_key :: "bool \<Rightarrow> slice \<Rightarrow> u64 \<Rightarrow> slice res" where
  "internal_key le user_key s =
     bind_res (memtable_key le user_key s) (\<lambda>k.
       Inr (drop (length (EncodeVarint32 (word_of_nat (length user_key + 8)))) k))"

subsection \<open>What is asked of a comparator\<close>

locale key_order =
  fixes compare :: "'a \<Rightarrow> 'a \<Rightarrow> int"
  assumes same: "compare a a = 0"
    and flip: "compare b a < 0 \<longleftrightarrow> 0 < compare a b"
    and trans_le: "compare a b \<le> 0 \<Longrightarrow> compare b c \<le> 0 \<Longrightarrow> compare a c \<le> 0"
begin

lemma le_flip: "compare b a \<le> 0 \<longleftrightarrow> 0 \<le> compare a b"
  using flip [of b a] flip [of a b] by linarith

lemma eq_flip: "compare b a = 0 \<longleftrightarrow> compare a b = 0"
  using flip [of b a] flip [of a b] by linarith

lemma less_le_trans: "compare a b < 0 \<Longrightarrow> compare b c \<le> 0 \<Longrightarrow> compare a c < 0"
  using trans_le [of b c a] le_flip [of c a] le_flip [of b a] by linarith

lemma le_less_trans: "compare a b \<le> 0 \<Longrightarrow> compare b c < 0 \<Longrightarrow> compare a c < 0"
  using trans_le [of c a b] le_flip [of c a] le_flip [of c b] by linarith

lemma eq_less: "compare a b = 0 \<Longrightarrow> compare a c < 0 \<longleftrightarrow> compare b c < 0"
  using le_less_trans [of a b c] le_less_trans [of b a c] eq_flip [of b a] by fastforce

lemma eq_greater: "compare a b = 0 \<Longrightarrow> compare c a < 0 \<longleftrightarrow> compare c b < 0"
  using less_le_trans [of c a b] less_le_trans [of c b a] eq_flip [of b a] by fastforce

end

text \<open>Keys with a tag: the larger tag comes first.\<close>

definition tag_compare :: "('k \<Rightarrow> 'k \<Rightarrow> int) \<Rightarrow> 'k \<times> u64 \<Rightarrow> 'k \<times> u64 \<Rightarrow> int" where
  "tag_compare c a b =
     (let r = c (fst a) (fst b)
      in if r = 0 then (if snd b < snd a then -1 else if snd a < snd b then 1 else 0) else r)"

lemma tag_compare_order:
  assumes "key_order compare"
  shows "key_order (tag_compare compare)"
proof
  note same = key_order.same [OF assms] and flip = key_order.flip [OF assms] and eq_flip = key_order.eq_flip [OF assms]
    and trans_le = key_order.trans_le [OF assms] and less_le_trans = key_order.less_le_trans [OF assms]
    and le_less_trans = key_order.le_less_trans [OF assms]
  show "tag_compare compare a a = 0" for a by (simp add: tag_compare_def same)
  show "tag_compare compare b a < 0 \<longleftrightarrow> 0 < tag_compare compare a b" for a b
    using flip [of "fst b" "fst a"] eq_flip [of "fst b" "fst a"] by (auto simp: tag_compare_def Let_def)
  show "tag_compare compare a c \<le> 0" if ab: "tag_compare compare a b \<le> 0" and bc: "tag_compare compare b c \<le> 0" for a b c
  proof -
    have le: "compare (fst a) (fst b) \<le> 0" "compare (fst b) (fst c) \<le> 0"
      using ab bc by (auto simp: tag_compare_def Let_def split: if_splits)
    show ?thesis
    proof (cases "compare (fst a) (fst c) = 0")
      case False
      with trans_le [OF le] show ?thesis by (simp add: tag_compare_def)
    next
      case True
      with le less_le_trans le_less_trans have "compare (fst a) (fst b) = 0" "compare (fst b) (fst c) = 0"
        by (metis order_less_le)+
      with True ab bc show ?thesis by (auto simp: tag_compare_def split: if_splits)
    qed
  qed
qed

locale key_shortening = key_order "cmp user" for user :: comparator +
  assumes equal: "cmp_equal user a b \<longleftrightarrow> cmp user a b = 0"
    and separator_less: "cmp user a b < 0 \<Longrightarrow> \<exists>r. separator user a b = Inr r \<and> cmp user a r \<le> 0 \<and> cmp user r b < 0"
    and separator_same: "cmp user a b = 0 \<Longrightarrow> \<exists>r. separator user a b = Inr r \<and> cmp user a r = 0"

sublocale key_shortening \<subseteq> tagged: key_order "tag_compare (cmp user)"
  by (rule tag_compare_order) unfold_locales

subsection \<open>The comparators of the library\<close>

lemma unat_byte_less: "unat (b :: byte) < 256"
  using unsigned_less [of b] by simp

lemma uint_eq: "uint a = uint b \<longleftrightarrow> a = b"
  by (simp add: word_uint_eq_iff)

lemma slice_compare_simps [simp]:
  "slice_compare [] [] = 0" "slice_compare [] (b # bs) = -1" "slice_compare (a # as) [] = 1"
  "slice_compare (a # as) (b # bs) = (if a = b then slice_compare as bs else uint a - uint b)"
  by (simp_all add: slice_compare_def Let_def uint_eq)

lemma slice_compare_order: "slice_compare a b < 0 \<longleftrightarrow> a < b" "slice_compare a b = 0 \<longleftrightarrow> a = b" "0 < slice_compare a b \<longleftrightarrow> b < a"
proof -
  show "slice_compare a b < 0 \<longleftrightarrow> a < b" for a b
    by (induction a b rule: list_induct2') (auto simp: word_less_def)
  show "slice_compare a b = 0 \<longleftrightarrow> a = b"
    by (induction a b rule: list_induct2') (auto simp: uint_eq)
  show "0 < slice_compare a b \<longleftrightarrow> b < a"
    by (induction a b rule: list_induct2') (auto simp: word_less_def)
qed

lemma slice_compare_self [simp]: "slice_compare a a = 0"
  by (simp add: slice_compare_order)

lemma slice_equal_eq: "slice_equal a b \<longleftrightarrow> a = b"
proof -
  have "length a = length b \<Longrightarrow> memcmp (length a) a b = 0 \<longleftrightarrow> a = b"
    by (induction a b rule: list_induct2) (auto simp: uint_eq)
  then show ?thesis by (auto simp: slice_equal_def)
qed

lemma unat_next: "(x :: byte) \<noteq> 0xff \<Longrightarrow> unat (x + 1) = unat x + 1"
proof -
  assume "x \<noteq> 0xff"
  then have "unat x \<noteq> 255" by (simp add: word_unat_eq_iff)
  moreover have "unat x < 256" by (rule unat_byte_less)
  ultimately show ?thesis by (simp add: unat_plus_if')
qed

lemma bump_first_props:
  "bump_first k = Some t \<Longrightarrow> k < t \<and> length t \<le> length k"
  by (induction k arbitrary: t) (auto simp: word_less_nat_alt unat_next split: if_splits)

lemma split_common: 
  "common_prefix a b < min (length a) (length b) \<Longrightarrow>
    \<exists>p x xs y ys. a = p @ x # xs \<and> b = p @ y # ys \<and> x \<noteq> y \<and> common_prefix a b = length p"
proof (induction a b rule: common_prefix.induct)
  case (1 x xs y ys)
  show ?case
  proof (cases "x = y")
    case True
    with 1 have "common_prefix xs ys < min (length xs) (length ys)" by simp
    with 1(1) [OF True] obtain p u us v vs where
      p: "xs = p @ u # us" "ys = p @ v # vs" "u \<noteq> v" "common_prefix xs ys = length p" by blast
    with True have "x # xs = (x # p) @ u # us \<and> y # ys = (x # p) @ v # vs \<and> u \<noteq> v \<and>
        common_prefix (x # xs) (y # ys) = length (x # p)" by simp
    then show ?thesis by blast
  next
    case False
    then have "x # xs = [] @ x # xs \<and> y # ys = [] @ y # ys \<and> x \<noteq> y \<and> common_prefix (x # xs) (y # ys) = length []"
      by simp
    then show ?thesis by blast
  qed
qed simp_all

lemma append_less: "(p @ xs < p @ (ys :: slice)) \<longleftrightarrow> xs < ys" "(p @ xs \<le> p @ (ys :: slice)) \<longleftrightarrow> xs \<le> ys"
  by (induction p) auto

lemma bytewise_separator_between:
  assumes "a < b" 
  shows "\<exists>r. bytewise_separator slice_compare a b = Inr r \<and> a \<le> r \<and> r < b \<and> length r \<le> length a"
proof (cases "min (length a) (length b) \<le> common_prefix a b")
  case True
  with assms show ?thesis by (simp add: bytewise_separator_def)
next
  case False
  then obtain p x xs y ys where ab: "a = p @ x # xs" "b = p @ y # ys" "x \<noteq> y" and d: "common_prefix a b = length p"
    using split_common [of a b] by (meson not_le)
  have xy: "x < y" using assms ab by (simp add: append_less)
  then have "unat x < unat y" by (simp add: word_less_nat_alt)
  moreover have "x \<noteq> 0xff"
    using xy unat_byte_less [of y] by (auto simp: word_less_nat_alt)
  ultimately have x1: "x < x + 1" "x + 1 \<le> y" and x2: "uint (x + 1) = uint x + 1"
    using unat_next [of x] unfolding word_less_nat_alt word_le_nat_alt uint_nat by simp_all
  define t where "t = (case bump_first xs of None \<Rightarrow> xs | Some t \<Rightarrow> t)"
  define r where "r = (if ys \<noteq> [] \<or> uint x + 1 < uint y then p @ [x + 1] else p @ x # t)"
  have t: "xs \<le> t" "length t \<le> length xs" using bump_first_props [of xs] by (auto simp: t_def split: option.split)
  have rb: "r < b"
  proof (cases "ys \<noteq> [] \<or> uint x + 1 < uint y")
    case True
    have "[x + 1] < y # ys"
    proof (cases "x + 1 = y")
      case eq: True
      then have "ys \<noteq> []" using True x2 by auto
      then show ?thesis using eq by (cases ys) auto
    next
      case False
      with x1(2) show ?thesis by simp
    qed
    with True show ?thesis by (simp add: r_def ab append_less)
  next
    case False
    then show ?thesis using xy by (simp add: r_def ab append_less)
  qed
  have ra: "a \<le> r" "length r \<le> length a"
    using x1 t by (simp_all add: r_def ab append_less)
  have "bytewise_separator slice_compare a b = Inr r"
  proof -
    have le: "min (length a) (length b) \<le> length p \<longleftrightarrow> False" by (simp add: ab)
    have c: "length p < length b - 1 \<longleftrightarrow> ys \<noteq> []" by (simp add: ab)
    have at: "a ! length p = x" "b ! length p = y" "take (length p) a = p" "take (length p + 1) a = p @ [x]" "drop (length p + 1) a = xs"
      by (simp_all add: ab)
    have e: "(if ys \<noteq> [] \<or> uint x + 1 < uint y then p @ [x + 1]
        else (p @ [x]) @ (case bump_first xs of None \<Rightarrow> xs | Some t \<Rightarrow> t)) = r"
      by (simp add: r_def t_def)
    show ?thesis
      unfolding bytewise_separator_def Let_def d le at c if_False e
      using iffD2 [OF not_le xy] rb by (simp add: slice_compare_order)
  qed
  with rb ra show ?thesis by blast
qed


interpretation bytewise: key_shortening BytewiseComparator
proof
  fix a b c
  note defs = BytewiseComparator_def slice_compare_order slice_equal_eq
  show "cmp BytewiseComparator a a = 0" by (simp add: defs)
  show "cmp BytewiseComparator b a < 0 \<longleftrightarrow> 0 < cmp BytewiseComparator a b" by (simp add: defs)
  show "cmp BytewiseComparator a b \<le> 0 \<Longrightarrow> cmp BytewiseComparator b c \<le> 0 \<Longrightarrow> cmp BytewiseComparator a c \<le> 0"
    by (simp add: defs not_less [symmetric])
  show "cmp_equal BytewiseComparator a b \<longleftrightarrow> cmp BytewiseComparator a b = 0" by (simp add: defs)
  show "\<exists>r. separator BytewiseComparator a b = Inr r \<and> cmp BytewiseComparator a r \<le> 0 \<and> cmp BytewiseComparator r b < 0"
    if "cmp BytewiseComparator a b < 0"
    using that bytewise_separator_between [of a b] by (auto simp: defs not_less [symmetric])
  show "\<exists>r. separator BytewiseComparator a b = Inr r \<and> cmp BytewiseComparator a r = 0" if "cmp BytewiseComparator a b = 0"
  proof -
    have "common_prefix a a = length a" by (induction a) auto
    then show ?thesis using that by (simp add: defs bytewise_separator_def)
  qed
qed

text \<open>For the reverse order the separator of the byte order leaves the key as it is.\<close>

lemma separator_no_less:
  assumes "b \<le> a"
  shows "bytewise_separator compare a b = Inr a"
proof (cases "min (length a) (length b) \<le> common_prefix a b")
  case False
  then obtain p x xs y ys where ab: "a = p @ x # xs" "b = p @ y # ys" "x \<noteq> y" and d: "common_prefix a b = length p"
    using split_common [of a b] by (meson not_le)
  with assms have "y \<le> x" by (auto simp: append_less)
  then show ?thesis unfolding bytewise_separator_def Let_def d by (simp add: ab)
qed (simp add: bytewise_separator_def)

interpretation reverse_bytewise: key_shortening ReverseBytewiseComparator
proof
  fix a b c
  note defs = ReverseBytewiseComparator_def reverse_compare_def slice_compare_order slice_equal_eq
  show "cmp ReverseBytewiseComparator a a = 0" by (simp add: defs)
  show "cmp ReverseBytewiseComparator b a < 0 \<longleftrightarrow> 0 < cmp ReverseBytewiseComparator a b" by (simp add: defs)
  show "cmp ReverseBytewiseComparator a b \<le> 0 \<Longrightarrow> cmp ReverseBytewiseComparator b c \<le> 0 \<Longrightarrow>
      cmp ReverseBytewiseComparator a c \<le> 0"
    by (simp add: defs not_less [symmetric])
  show "cmp_equal ReverseBytewiseComparator a b \<longleftrightarrow> cmp ReverseBytewiseComparator a b = 0" by (simp add: defs)
  show "\<exists>r. separator ReverseBytewiseComparator a b = Inr r \<and> cmp ReverseBytewiseComparator a r \<le> 0 \<and>
      cmp ReverseBytewiseComparator r b < 0" if "cmp ReverseBytewiseComparator a b < 0"
    using that separator_no_less [of b a] slice_compare_self [of a] by (simp add: defs)
  show "\<exists>r. separator ReverseBytewiseComparator a b = Inr r \<and> cmp ReverseBytewiseComparator a r = 0"
    if "cmp ReverseBytewiseComparator a b = 0"
    using that separator_no_less [of b a] by (simp add: defs)
qed

subsection \<open>The order of internal keys\<close>

definition split_key :: "slice \<Rightarrow> slice \<times> u64" where
  "split_key k = (take (length k - 8) k, of_le (drop (length k - 8) k))"

lemma key_tag_split: "8 \<le> length k \<Longrightarrow> key_tag le k = Inr (snd (split_key k))"
  by (simp add: key_tag_def split_key_def DecodeFixed64_le)

lemma ExtractUserKey_split: "8 \<le> length k \<Longrightarrow> ExtractUserKey k = Inr (fst (split_key k))"
  by (simp add: ExtractUserKey_def split_key_def)

lemma split_key_append [simp]: "split_key (u @ le_bytes 8 t) = (u, t)"
  by (simp add: split_key_def of_le_le_bytes)

lemma icompare_split:
  assumes "8 \<le> length a" "8 \<le> length b"
  shows "icompare le user a b = Inr (tag_compare (cmp user) (split_key a) (split_key b))"
  using assms by (simp add: icompare_def ExtractUserKey_split key_tag_split tag_compare_def Let_def)

text \<open>A sequence number and a type as one number.\<close>

definition packed :: "u64 \<Rightarrow> byte \<Rightarrow> u64" where
  "packed seq t = push_bit 8 seq OR ucast t"

lemma unat_packed:
  assumes "seq \<le> kMaxSequenceNumber"
  shows "unat (packed seq t) = unat seq * 256 + unat t"
proof -
  have s: "unat seq < 2 ^ 56" using assms by (simp add: kMaxSequenceNumber_def word_le_nat_alt)
  have t: "unat (ucast t :: u64) = unat t" "unat t < 256"
  proof -
    show u: "unat t < 256" by (rule unat_byte_less)
    then have "unat t < 2 ^ LENGTH(64)" by simp
    then show "unat (ucast t :: u64) = unat t" unfolding unsigned_ucast_eq by (rule take_bit_nat_eq_self)
  qed
  have d: "push_bit 8 seq AND (ucast t :: u64) = 0"
  proof (rule bit_word_eqI)
    fix n
    have "bit t n \<Longrightarrow> n < 8" using bit_imp_le_length [of t n] by simp
    then show "bit (push_bit 8 seq AND (ucast t :: u64)) n \<longleftrightarrow> bit 0 n"
      by (auto simp: bit_and_iff bit_push_bit_iff bit_ucast_iff)
  qed
  have p: "unat (push_bit 8 seq) = unat seq * 256"
  proof -
    have m: "push_bit 8 (unat seq) = unat seq * 256" unfolding push_bit_eq_mult by simp
    have "unat seq * 256 < 2 ^ LENGTH(64)" using s by simp
    then show ?thesis unfolding unsigned_push_bit_eq m by (rule take_bit_nat_eq_self)
  qed
  have "packed seq t = push_bit 8 seq + ucast t"
    using word_plus_and_or [of "push_bit 8 seq" "ucast t"] d by (simp add: packed_def)
  moreover have "unat (push_bit 8 seq + ucast t) = unat (push_bit 8 seq) + unat (ucast t :: u64)"
    by (rule unat_add_lem [THEN iffD1]) (use s t p in simp)
  ultimately show ?thesis using t p by simp
qed

lemma packed_order:
  assumes "a \<le> kMaxSequenceNumber" "b \<le> kMaxSequenceNumber"
  shows "packed a s < packed b t \<longleftrightarrow> a < b \<or> a = b \<and> s < t" "packed a s = packed b t \<longleftrightarrow> a = b \<and> s = t"
proof -
  have n: "x < 256 \<Longrightarrow> y < 256 \<Longrightarrow> (m * 256 + x < n * 256 + y \<longleftrightarrow> m < n \<or> m = n \<and> x < y)"
    "x < 256 \<Longrightarrow> y < 256 \<Longrightarrow> (m * 256 + x = n * 256 + y \<longleftrightarrow> m = n \<and> x = y)" for m n x y :: nat
    by (cases m n rule: linorder_cases; simp)+
  show "packed a s < packed b t \<longleftrightarrow> a < b \<or> a = b \<and> s < t" "packed a s = packed b t \<longleftrightarrow> a = b \<and> s = t"
    unfolding word_less_nat_alt word_unat_eq_iff unat_packed [OF assms(1)] unat_packed [OF assms(2)]
    by (rule n, rule unat_byte_less, rule unat_byte_less)+
qed

lemma unpacked:
  assumes "a \<le> kMaxSequenceNumber"
  shows "drop_bit 8 (packed a t) = a" "ucast (packed a t AND 0xff) = t"
proof -
  have n: "unat (packed a t) = unat a * 256 + unat t" "unat t < 256" using unat_packed [OF assms] unat_byte_less by auto
  then show "drop_bit 8 (packed a t) = a"
    unfolding word_unat_eq_iff unat_drop_bit_eq by (simp add: drop_bit_eq_div)
  show "ucast (packed a t AND 0xff) = t"
    unfolding byte_mask(2) by (rule bit_word_eqI) (auto simp: packed_def bit_simps)
qed

lemma Pack_eq:
  "PackSequenceAndType seq t = (if seq \<le> kMaxSequenceNumber \<and> IsExtendedValueType t then Inr (packed seq t) else Inl Assert_Failed)"
  by (auto simp: PackSequenceAndType_def packed_def not_less)

lemma UnPack_packed:
  "seq \<le> kMaxSequenceNumber \<Longrightarrow> IsExtendedValueType t \<Longrightarrow> UnPackSequenceAndType (packed seq t) = Inr (seq, t)"
  by (simp add: UnPackSequenceAndType_def Let_def unpacked)

definition valid_key :: "parsed_key \<Rightarrow> bool" where
  "valid_key k \<longleftrightarrow> pk_sequence k \<le> kMaxSequenceNumber \<and> IsExtendedValueType (pk_type k)"

definition encode_key :: "parsed_key \<Rightarrow> slice" where
  "encode_key k = pk_user_key k @ le_bytes 8 (packed (pk_sequence k) (pk_type k))"

lemma AppendInternalKey_eq: "valid_key k \<Longrightarrow> AppendInternalKey le d k = Inr (d @ encode_key k)"
  by (simp add: AppendInternalKey_def Pack_eq valid_key_def Put_le encode_key_def)

lemma extended_le_max: "IsExtendedValueType t \<Longrightarrow> t \<le> kMaxValue"
  by (auto simp: IsExtendedValueType_def IsValueType_def tag_defs kMaxValue_def elim!: order_trans)

text \<open>C33: internal keys. What \<open>AppendInternalKey\<close> appends to nothing is parsed back, and its parts are
  extracted. The comparison of two encoded keys, whatever the user comparator is, has the result of the
  comparison of the parsed keys: user keys first, then the newer before the older, then the larger type.\<close>

theorem internal_keys:
  assumes "pk_sequence a \<le> kMaxSequenceNumber" "IsExtendedValueType (pk_type a)"
    "pk_sequence b \<le> kMaxSequenceNumber" "IsExtendedValueType (pk_type b)"
  shows "\<exists>x y. AppendInternalKey le [] a = Inr x \<and> AppendInternalKey le [] b = Inr y \<and>
    ParseInternalKey le x = Inr (Some a) \<and> ExtractUserKey x = Inr (pk_user_key a) \<and>
    ExtractValueType le x = Inr (pk_type a) \<and> GetInternalKeySeqno le x = Inr (pk_sequence a) \<and>
    UpdateInternalKey le x (pk_sequence b) (pk_type b) = AppendInternalKey le [] (b\<lparr>pk_user_key := pk_user_key a\<rparr>) \<and>
    icompare le user x y = Inr (icompare_parsed user a b)"
proof (intro exI conjI)
  let ?x = "encode_key a" and ?y = "encode_key b"
  have v: "valid_key a" "valid_key b" "valid_key (b\<lparr>pk_user_key := pk_user_key a\<rparr>)"
    using assms by (simp_all add: valid_key_def)
  have len: "8 \<le> length ?x" "8 \<le> length ?y" by (simp_all add: encode_key_def)
  have sp: "split_key ?x = (pk_user_key a, packed (pk_sequence a) (pk_type a))"
    "split_key ?y = (pk_user_key b, packed (pk_sequence b) (pk_type b))" by (simp_all add: encode_key_def)
  have user: "take (length ?x - 8) ?x = pk_user_key a" by (simp add: encode_key_def)
  note unp = unpacked [OF assms(1)]
  show "AppendInternalKey le [] a = Inr ?x" "AppendInternalKey le [] b = Inr ?y"
    by (simp_all add: AppendInternalKey_eq v)
  show "ParseInternalKey le ?x = Inr (Some a)"
    using len(1) extended_le_max [OF assms(2)] assms(2)
    by (simp add: ParseInternalKey_def Let_def key_tag_split sp unp user not_less)
  show "ExtractUserKey ?x = Inr (pk_user_key a)" using len by (simp add: ExtractUserKey_split sp)
  show "ExtractValueType le ?x = Inr (pk_type a)" "GetInternalKeySeqno le ?x = Inr (pk_sequence a)"
    using len by (simp_all add: ExtractValueType_def GetInternalKeySeqno_def key_tag_split sp unp)
  show "UpdateInternalKey le ?x (pk_sequence b) (pk_type b) = AppendInternalKey le [] (b\<lparr>pk_user_key := pk_user_key a\<rparr>)"
    using len by (simp add: UpdateInternalKey_def AppendInternalKey_eq v user EncodeFixed64_le) (simp add: encode_key_def packed_def)
  show "icompare le user ?x ?y = Inr (icompare_parsed user a b)"
    using packed_order [OF assms(1,3)] packed_order [OF assms(3,1)]
    by (auto simp: icompare_split [OF len] sp tag_compare_def icompare_parsed_def Let_def)
qed

lemma internal_keys_witness:
  "\<exists>x y. AppendInternalKey True [] \<lparr>pk_user_key = [1], pk_sequence = 5, pk_type = kTypeValue\<rparr> = Inr x \<and>
    AppendInternalKey True [] \<lparr>pk_user_key = [1], pk_sequence = 7, pk_type = kTypeDeletion\<rparr> = Inr y \<and>
    icompare True BytewiseComparator x y = Inr 1"
proof -
  let ?a = "\<lparr>pk_user_key = [1], pk_sequence = 5, pk_type = kTypeValue\<rparr>"
  let ?b = "\<lparr>pk_user_key = [1], pk_sequence = 7, pk_type = kTypeDeletion\<rparr>"
  have "icompare_parsed BytewiseComparator ?a ?b = 1"
    by (simp add: icompare_parsed_def BytewiseComparator_def)
  then show ?thesis
    using internal_keys [of ?a ?b True BytewiseComparator]
    by (fastforce simp: kMaxSequenceNumber_def IsExtendedValueType_def IsValueType_def tag_defs)
qed

abbreviation seek_footer :: slice where
  "seek_footer \<equiv> le_bytes 8 (packed kMaxSequenceNumber kValueTypeForSeek)"

lemma Pack_seek: "PackSequenceAndType kMaxSequenceNumber kValueTypeForSeek = Inr (packed kMaxSequenceNumber kValueTypeForSeek)"
  by (simp add: Pack_eq IsExtendedValueType_def IsValueType_def kValueTypeForSeek_def)

lemma length_split: "length (fst (split_key k)) = length k - 8"
  by (simp add: split_key_def)

text \<open>The functions that shorten internal keys.\<close>

context key_shortening
begin

lemma iseparator_between:
  assumes len: "8 \<le> length start" "8 \<le> length limit" and less: "tag_compare (cmp user) (split_key start) (split_key limit) < 0"
  shows "\<exists>r. iseparator le user start limit = Inr r \<and> 8 \<le> length r \<and> length r \<le> length start \<and>
    tag_compare (cmp user) (split_key start) (split_key r) \<le> 0 \<and>
    tag_compare (cmp user) (split_key r) (split_key limit) < 0"
proof -
  define us ul where u: "us = fst (split_key start)" "ul = fst (split_key limit)"
  have ex: "ExtractUserKey start = Inr us" "ExtractUserKey limit = Inr ul" using len by (simp_all add: u ExtractUserKey_split)
  have le: "cmp user us ul \<le> 0" using less by (simp add: tag_compare_def Let_def u split: if_splits)
  obtain t where t: "separator user us ul = Inr t" and between: "cmp user us t < 0 \<Longrightarrow> cmp user t ul < 0"
  proof (cases "cmp user us ul = 0")
    case True
    with separator_same show ?thesis by (metis that less_irrefl)
  next
    case False
    with le separator_less [of us ul] show ?thesis by (metis that order_le_less)
  qed
  show ?thesis
  proof (cases "length t \<le> length us \<and> cmp user us t < 0")
    case False
    then have "iseparator le user start limit = Inr start" by (auto simp: iseparator_def ex t)
    then show ?thesis using len less by (simp add: tagged.same)
  next
    case True
    let ?r = "t @ seek_footer"
    have sp: "split_key ?r = (t, packed kMaxSequenceNumber kValueTypeForSeek)" by simp
    have r: "tag_compare (cmp user) (split_key start) (split_key ?r) < 0"
      "tag_compare (cmp user) (split_key ?r) (split_key limit) < 0"
      using True between by (simp_all add: tag_compare_def sp u)
    have "iseparator le user start limit = Inr ?r"
      using True r len by (simp add: iseparator_def ex t Pack_seek Put_le Let_def asserted_def icompare_split)
    moreover have "length ?r \<le> length start" using True len by (auto simp: u length_split)
    ultimately show ?thesis using r by (intro exI [of _ ?r]) simp
  qed
qed

lemma isuccessor_above:
  assumes len: "8 \<le> length key"
  shows "\<exists>r. isuccessor le user key = Inr r \<and> 8 \<le> length r \<and> length r \<le> length key \<and>
    tag_compare (cmp user) (split_key key) (split_key r) \<le> 0"
proof -
  define uk t where u: "uk = fst (split_key key)" "t = successor user uk"
  have ex: "ExtractUserKey key = Inr uk" using len by (simp add: u ExtractUserKey_split)
  show ?thesis
  proof (cases "length t \<le> length uk \<and> cmp user uk t < 0")
    case False
    then have "isuccessor le user key = Inr key" by (auto simp: isuccessor_def ex u(2) Let_def)
    then show ?thesis using len by (simp add: tagged.same)
  next
    case True
    let ?r = "t @ seek_footer"
    have r: "tag_compare (cmp user) (split_key key) (split_key ?r) < 0"
      using True by (simp add: tag_compare_def u(1))
    have "isuccessor le user key = Inr ?r"
      using True r len by (simp add: isuccessor_def ex u(2) [symmetric] Pack_seek Put_le Let_def asserted_def icompare_split)
    moreover have "length ?r \<le> length key" using True len by (auto simp: u length_split)
    ultimately show ?thesis using r by (intro exI [of _ ?r]) simp
  qed
qed

end

text \<open>C35: shortened keys. For both comparators of the library the separator of two internal keys is a key
  not longer than the first one that is not less than it and less than the second, the successor of a key is
  a key not longer and not less than it, and neither function fails one of its assertions. The successor of
  the reverse comparator itself is not greater than the key; the comparator of internal keys then keeps it.\<close>

theorem shortened_keys:
  assumes "user \<in> {BytewiseComparator, ReverseBytewiseComparator}" "8 \<le> length start" "8 \<le> length limit"
    "icompare le user start limit = Inr c" "c < 0"
  shows "(\<exists>r. iseparator le user start limit = Inr r \<and> length r \<le> length start \<and>
      (\<exists>x y. icompare le user start r = Inr x \<and> x \<le> 0 \<and> icompare le user r limit = Inr y \<and> y < 0)) \<and>
    (\<exists>r. isuccessor le user start = Inr r \<and> length r \<le> length start \<and>
      (\<exists>x. icompare le user start r = Inr x \<and> x \<le> 0))"
proof -
  have c: "tag_compare (cmp user) (split_key start) (split_key limit) < 0"
    using assms(2-5) by (simp add: icompare_split)
  have "key_shortening user"
    using assms(1) bytewise.key_shortening_axioms reverse_bytewise.key_shortening_axioms by blast
  from key_shortening.iseparator_between [OF this assms(2,3) c] key_shortening.isuccessor_above [OF this assms(2)]
  show ?thesis using assms(2,3) icompare_split by meson
qed

lemma shortened_keys_witness:
  "icompare True BytewiseComparator ([1, 2, 3] @ le_bytes 8 (0x101 :: u64)) ([1, 9] @ le_bytes 8 (0x201 :: u64)) = Inr (- 7) \<and>
   (\<exists>r. iseparator True BytewiseComparator ([1, 2, 3] @ le_bytes 8 (0x101 :: u64)) ([1, 9] @ le_bytes 8 (0x201 :: u64)) = Inr r \<and>
      length r \<le> 11)"
proof -
  let ?a = "[1, 2, 3] @ le_bytes 8 (0x101 :: u64)" and ?b = "[1, 9] @ le_bytes 8 (0x201 :: u64)"
  have sp: "split_key ?a = ([1, 2, 3], 0x101)" "split_key ?b = ([1, 9], 0x201)" by (rule split_key_append)+
  have "icompare True BytewiseComparator ?a ?b = Inr (tag_compare (cmp BytewiseComparator) (split_key ?a) (split_key ?b))"
    by (rule icompare_split) simp_all
  then have "icompare True BytewiseComparator ?a ?b = Inr (- 7)"
    unfolding sp by (simp add: tag_compare_def BytewiseComparator_def)
  then show ?thesis using shortened_keys [of BytewiseComparator ?a ?b True "- 7"] by simp blast
qed

lemma reverse_successor: "cmp ReverseBytewiseComparator [1] (successor ReverseBytewiseComparator [1]) > 0"
  by (simp add: ReverseBytewiseComparator_def reverse_compare_def bytewise_successor_def)

end
