(* ===== verification/WriteBatch.thy ===== *)
theory WriteBatch
  imports InternalKey
begin

section \<open>RocksDB: write batches\<close>

text \<open>
  \<open>db/write_batch.cc\<close> with \<open>include/rocksdb/write_batch.h\<close> and \<open>db/write_batch_internal.h\<close>: the updates of
  one write, encoded as a string that goes into the log as it is and is read back by \<open>Iterate\<close>,
  which hands them to a handler one by one. A batch has save points and a limit on its size.
  \<open>le\<close> is the byte order of the machine. The functions that take their strings in parts
  (\<open>SliceParts\<close>) have names that end in \<open>_parts\<close>.
\<close>

subsection \<open>Flags\<close>

datatype content_flag =
    DEFERRED
  | HAS_PUT
  | HAS_DELETE
  | HAS_SINGLE_DELETE
  | HAS_MERGE
  | HAS_BEGIN_PREPARE
  | HAS_END_PREPARE
  | HAS_COMMIT
  | HAS_ROLLBACK
  | HAS_DELETE_RANGE

fun flag_shift :: "content_flag \<Rightarrow> nat" where
  "flag_shift DEFERRED = 0"
| "flag_shift HAS_PUT = 1"
| "flag_shift HAS_DELETE = 2"
| "flag_shift HAS_SINGLE_DELETE = 3"
| "flag_shift HAS_MERGE = 4"
| "flag_shift HAS_BEGIN_PREPARE = 5"
| "flag_shift HAS_END_PREPARE = 6"
| "flag_shift HAS_COMMIT = 7"
| "flag_shift HAS_ROLLBACK = 8"
| "flag_shift HAS_DELETE_RANGE = 9"

definition flag :: "content_flag \<Rightarrow> u32" where
  "flag f = push_bit (flag_shift f) 1"

datatype wb_status =
    OK
  | Corruption string
  | NotFound
  | MemoryLimit
  | InvalidArgument string
  | NotSupported string

subsection \<open>The batch\<close>

record save_point =
  sp_size :: nat
  sp_count :: u32
  sp_flags :: u32

definition cleared :: save_point where
  "cleared = \<lparr>sp_size = 0, sp_count = 0, sp_flags = 0\<rparr>"

text \<open>\<open>save_points\<close> is the stack, its top first, and \<open>None\<close> the null pointer.\<close>

record write_batch =
  rep :: slice
  content_flags :: u32
  save_points :: "save_point list option"
  wal_term_point :: save_point
  max_bytes :: nat

definition kHeader :: nat where
  "kHeader = 12"

definition new_batch :: "nat \<Rightarrow> write_batch" where
  "new_batch limit =
     \<lparr>rep = replicate kHeader 0, content_flags = 0, save_points = None, wal_term_point = cleared, max_bytes = limit\<rparr>"

definition batch_of :: "slice \<Rightarrow> write_batch" where
  "batch_of s =
     \<lparr>rep = s, content_flags = flag DEFERRED, save_points = None, wal_term_point = cleared, max_bytes = 0\<rparr>"

definition batch_clear :: "write_batch \<Rightarrow> write_batch" where
  "batch_clear b =
     b\<lparr>rep := replicate kHeader 0, content_flags := 0, save_points := map_option (\<lambda>_. []) (save_points b),
       wal_term_point := cleared\<rparr>"

text \<open>The fields of the header. With a shorter string they are outside of it.\<close>

definition batch_count :: "bool \<Rightarrow> write_batch \<Rightarrow> u32 res" where
  "batch_count le b = DecodeFixed32 le (drop 8 (rep b))"

definition SetCount :: "bool \<Rightarrow> u32 \<Rightarrow> write_batch \<Rightarrow> write_batch res" where
  "SetCount le n b =
     (if length (rep b) < 12 then Inl Out_Of_Range
      else Inr (b\<lparr>rep := take 8 (rep b) @ EncodeFixed32 le n @ drop 12 (rep b)\<rparr>))"

definition Sequence :: "bool \<Rightarrow> write_batch \<Rightarrow> u64 res" where
  "Sequence le b = DecodeFixed64 le (rep b)"

definition SetSequence :: "bool \<Rightarrow> u64 \<Rightarrow> write_batch \<Rightarrow> write_batch res" where
  "SetSequence le seq b =
     (if length (rep b) < 8 then Inl Out_Of_Range
      else Inr (b\<lparr>rep := EncodeFixed64 le seq @ drop 8 (rep b)\<rparr>))"

text \<open>\<open>int\<close> plus one.\<close>

definition plus_one :: "u32 \<Rightarrow> u32 res" where
  "plus_one n = (if sint n = 2 ^ 31 - 1 then Inl Signed_Overflow else Inr (n + 1))"

subsection \<open>Updates are added\<close>

text \<open>\<open>LocalSavePoint\<close>: what is added is taken back when the batch becomes too large.\<close>

definition save_of :: "bool \<Rightarrow> write_batch \<Rightarrow> save_point res" where
  "save_of le b =
     bind_res (batch_count le b) (\<lambda>n. Inr \<lparr>sp_size = length (rep b), sp_count = n, sp_flags = content_flags b\<rparr>)"

definition commit :: "bool \<Rightarrow> save_point \<Rightarrow> write_batch \<Rightarrow> (wb_status \<times> write_batch) res" where
  "commit le sp b =
     (if max_bytes b \<noteq> 0 \<and> max_bytes b < length (rep b)
      then bind_res (SetCount le (sp_count sp) (b\<lparr>rep := take (sp_size sp) (rep b)\<rparr>))
             (\<lambda>b. Inr (MemoryLimit, b\<lparr>content_flags := sp_flags sp\<rparr>))
      else Inr (OK, b))"

definition push_back :: "byte \<Rightarrow> write_batch \<Rightarrow> write_batch" where
  "push_back c b = b\<lparr>rep := rep b @ [c]\<rparr>"

definition put_rep :: "(slice \<Rightarrow> slice res) \<Rightarrow> write_batch \<Rightarrow> write_batch res" where
  "put_rep f b = bind_res (f (rep b)) (\<lambda>s. Inr (b\<lparr>rep := s\<rparr>))"

fun put_strings :: "(slice \<Rightarrow> slice res) list \<Rightarrow> write_batch \<Rightarrow> write_batch res" where
  "put_strings [] b = Inr b"
| "put_strings (f # fs) b = bind_res (put_rep f b) (put_strings fs)"

definition add_flag :: "content_flag \<Rightarrow> write_batch \<Rightarrow> write_batch" where
  "add_flag f b = b\<lparr>content_flags := content_flags b OR flag f\<rparr>"

text \<open>The common body of the functions that add an update, with the tag for the default column
  family and the one for the others.\<close>

definition add_update ::
  "bool \<Rightarrow> byte \<Rightarrow> byte \<Rightarrow> content_flag \<Rightarrow> u32 \<Rightarrow> (slice \<Rightarrow> slice res) list \<Rightarrow> write_batch \<Rightarrow>
     (wb_status \<times> write_batch) res" where
  "add_update le tag cf_tag f cf strings b =
     bind_res (save_of le b) (\<lambda>save.
     bind_res (batch_count le b) (\<lambda>n.
     bind_res (plus_one n) (\<lambda>n.
     bind_res (SetCount le n b) (\<lambda>b.
     bind_res (if cf = 0 then Inr (push_back tag b)
               else put_rep (\<lambda>d. PutVarint32 d cf) (push_back cf_tag b)) (\<lambda>b.
     bind_res (put_strings strings b) (\<lambda>b.
     commit le save (add_flag f b)))))))"

abbreviation whole :: "slice \<Rightarrow> slice \<Rightarrow> slice res" where
  "whole s d \<equiv> PutLengthPrefixedSlice d s"

abbreviation in_parts :: "slice list \<Rightarrow> slice \<Rightarrow> slice res" where
  "in_parts ps d \<equiv> PutLengthPrefixedSliceParts d ps"

definition batch_put :: "bool \<Rightarrow> u32 \<Rightarrow> slice \<Rightarrow> slice \<Rightarrow> write_batch \<Rightarrow> (wb_status \<times> write_batch) res" where
  "batch_put le cf key value = add_update le kTypeValue kTypeColumnFamilyValue HAS_PUT cf [whole key, whole value]"

definition batch_put_parts :: "bool \<Rightarrow> u32 \<Rightarrow> slice list \<Rightarrow> slice list \<Rightarrow> write_batch \<Rightarrow> (wb_status \<times> write_batch) res" where
  "batch_put_parts le cf key value =
     add_update le kTypeValue kTypeColumnFamilyValue HAS_PUT cf [in_parts key, in_parts value]"

definition batch_delete :: "bool \<Rightarrow> u32 \<Rightarrow> slice \<Rightarrow> write_batch \<Rightarrow> (wb_status \<times> write_batch) res" where
  "batch_delete le cf key = add_update le kTypeDeletion kTypeColumnFamilyDeletion HAS_DELETE cf [whole key]"

definition batch_delete_parts :: "bool \<Rightarrow> u32 \<Rightarrow> slice list \<Rightarrow> write_batch \<Rightarrow> (wb_status \<times> write_batch) res" where
  "batch_delete_parts le cf key =
     add_update le kTypeDeletion kTypeColumnFamilyDeletion HAS_DELETE cf [in_parts key]"

definition batch_single_delete :: "bool \<Rightarrow> u32 \<Rightarrow> slice \<Rightarrow> write_batch \<Rightarrow> (wb_status \<times> write_batch) res" where
  "batch_single_delete le cf key =
     add_update le kTypeSingleDeletion kTypeColumnFamilySingleDeletion HAS_SINGLE_DELETE cf [whole key]"

definition batch_single_delete_parts :: "bool \<Rightarrow> u32 \<Rightarrow> slice list \<Rightarrow> write_batch \<Rightarrow> (wb_status \<times> write_batch) res" where
  "batch_single_delete_parts le cf key =
     add_update le kTypeSingleDeletion kTypeColumnFamilySingleDeletion HAS_SINGLE_DELETE cf [in_parts key]"

definition batch_delete_range :: "bool \<Rightarrow> u32 \<Rightarrow> slice \<Rightarrow> slice \<Rightarrow> write_batch \<Rightarrow> (wb_status \<times> write_batch) res" where
  "batch_delete_range le cf begin_key end_key =
     add_update le kTypeRangeDeletion kTypeColumnFamilyRangeDeletion HAS_DELETE_RANGE cf [whole begin_key, whole end_key]"

definition batch_delete_range_parts ::
  "bool \<Rightarrow> u32 \<Rightarrow> slice list \<Rightarrow> slice list \<Rightarrow> write_batch \<Rightarrow> (wb_status \<times> write_batch) res" where
  "batch_delete_range_parts le cf begin_key end_key =
     add_update le kTypeRangeDeletion kTypeColumnFamilyRangeDeletion HAS_DELETE_RANGE cf
       [in_parts begin_key, in_parts end_key]"

definition batch_merge :: "bool \<Rightarrow> u32 \<Rightarrow> slice \<Rightarrow> slice \<Rightarrow> write_batch \<Rightarrow> (wb_status \<times> write_batch) res" where
  "batch_merge le cf key value = add_update le kTypeMerge kTypeColumnFamilyMerge HAS_MERGE cf [whole key, whole value]"

definition batch_merge_parts :: "bool \<Rightarrow> u32 \<Rightarrow> slice list \<Rightarrow> slice list \<Rightarrow> write_batch \<Rightarrow> (wb_status \<times> write_batch) res" where
  "batch_merge_parts le cf key value =
     add_update le kTypeMerge kTypeColumnFamilyMerge HAS_MERGE cf [in_parts key, in_parts value]"

definition batch_put_log_data :: "bool \<Rightarrow> slice \<Rightarrow> write_batch \<Rightarrow> (wb_status \<times> write_batch) res" where
  "batch_put_log_data le blob b =
     bind_res (save_of le b) (\<lambda>save.
     bind_res (put_rep (whole blob) (push_back kTypeLogData b)) (commit le save))"

definition InsertNoop :: "write_batch \<Rightarrow> wb_status \<times> write_batch" where
  "InsertNoop b = (OK, push_back kTypeNoop b)"

text \<open>\<open>rep_[12]\<close> is the terminating zero byte when the batch is empty.\<close>

definition MarkEndPrepare :: "slice \<Rightarrow> write_batch \<Rightarrow> (wb_status \<times> write_batch) res" where
  "MarkEndPrepare xid b =
     (if length (rep b) < 12 then Inl Out_Of_Range
      else if (rep b @ [0]) ! 12 \<noteq> kTypeNoop then Inl Assert_Failed
      else (let b = b\<lparr>save_points := map_option (\<lambda>_. []) (save_points b)\<rparr>;
                b = b\<lparr>rep := (rep b)[12 := kTypeBeginPrepareXID]\<rparr>
            in bind_res (put_rep (whole xid) (push_back kTypeEndPrepareXID b)) (\<lambda>b.
                 Inr (OK, add_flag HAS_BEGIN_PREPARE (add_flag HAS_END_PREPARE b)))))"

definition MarkCommit :: "slice \<Rightarrow> write_batch \<Rightarrow> (wb_status \<times> write_batch) res" where
  "MarkCommit xid b =
     bind_res (put_rep (whole xid) (push_back kTypeCommitXID b)) (\<lambda>b. Inr (OK, add_flag HAS_COMMIT b))"

definition MarkRollback :: "slice \<Rightarrow> write_batch \<Rightarrow> (wb_status \<times> write_batch) res" where
  "MarkRollback xid b =
     bind_res (put_rep (whole xid) (push_back kTypeRollbackXID b)) (\<lambda>b. Inr (OK, add_flag HAS_ROLLBACK b))"

subsection \<open>Save points\<close>

definition SetSavePoint :: "bool \<Rightarrow> write_batch \<Rightarrow> write_batch res" where
  "SetSavePoint le b =
     bind_res (save_of le b) (\<lambda>sp.
       Inr (b\<lparr>save_points := Some (sp # (case save_points b of None \<Rightarrow> [] | Some st \<Rightarrow> st))\<rparr>))"

definition RollbackToSavePoint :: "bool \<Rightarrow> write_batch \<Rightarrow> (wb_status \<times> write_batch) res" where
  "RollbackToSavePoint le b =
     (case save_points b of
        Some (sp # st) \<Rightarrow>
          (let b = b\<lparr>save_points := Some st\<rparr>
           in bind_res (batch_count le b) (\<lambda>n.
             if length (rep b) < sp_size sp \<or> sint n < sint (sp_count sp) then Inl Assert_Failed
             else if sp_size sp = length (rep b) then Inr (OK, b)
             else if sp_size sp = 0 then Inr (OK, batch_clear b)
             else bind_res (SetCount le (sp_count sp) (b\<lparr>rep := take (sp_size sp) (rep b)\<rparr>)) (\<lambda>b.
                    Inr (OK, b\<lparr>content_flags := sp_flags sp\<rparr>))))
      | _ \<Rightarrow> Inr (NotFound, b))"

definition PopSavePoint :: "write_batch \<Rightarrow> wb_status \<times> write_batch" where
  "PopSavePoint b =
     (case save_points b of
        Some (sp # st) \<Rightarrow> (OK, b\<lparr>save_points := Some st\<rparr>)
      | _ \<Rightarrow> (NotFound, b))"

definition MarkWalTerminationPoint :: "bool \<Rightarrow> write_batch \<Rightarrow> write_batch res" where
  "MarkWalTerminationPoint le b = bind_res (save_of le b) (\<lambda>sp. Inr (b\<lparr>wal_term_point := sp\<rparr>))"

subsection \<open>Batches are put together\<close>

definition is_cleared :: "save_point \<Rightarrow> bool" where
  "is_cleared sp \<longleftrightarrow> (word_of_nat (sp_size sp) OR scast (sp_count sp) OR ucast (sp_flags sp) :: u64) = 0"

definition SetContents :: "slice \<Rightarrow> write_batch \<Rightarrow> (wb_status \<times> write_batch) res" where
  "SetContents contents b =
     (if length contents < kHeader then Inl Assert_Failed
      else Inr (OK, b\<lparr>rep := contents, content_flags := flag DEFERRED\<rparr>))"

text \<open>\<open>src_size\<close> is \<open>src_len + kHeader\<close>, so that the subtraction of the code does not wrap unseen.\<close>

definition batch_append ::
  "bool \<Rightarrow> write_batch \<Rightarrow> write_batch \<Rightarrow> bool \<Rightarrow> (wb_status \<times> write_batch) res" where
  "batch_append le dst src wal_only =
     (let batch_end = wal_term_point src
      in bind_res
        (if wal_only \<and> \<not> is_cleared batch_end
         then Inr (sp_size batch_end, sp_count batch_end, sp_flags batch_end)
         else bind_res (batch_count le src) (\<lambda>n. Inr (length (rep src), n, content_flags src)))
        (\<lambda>(src_size, src_count, src_flags).
           bind_res (batch_count le dst) (\<lambda>n.
           if sint n + sint src_count < - (2 ^ 31) \<or> 2 ^ 31 \<le> sint n + sint src_count then Inl Signed_Overflow
           else bind_res (SetCount le (n + src_count) dst) (\<lambda>dst.
             if length (rep src) < kHeader then Inl Assert_Failed
             else if src_size < kHeader \<or> length (rep src) < src_size then Inl Out_Of_Range
             else Inr (OK, dst\<lparr>rep := rep dst @ take (src_size - kHeader) (drop kHeader (rep src)),
                               content_flags := content_flags dst OR src_flags\<rparr>)))))"

definition AppendedByteSize :: "nat \<Rightarrow> nat \<Rightarrow> nat" where
  "AppendedByteSize leftByteSize rightByteSize =
     (if leftByteSize = 0 \<or> rightByteSize = 0 then leftByteSize + rightByteSize
      else leftByteSize + rightByteSize - kHeader)"

subsection \<open>Batches are read\<close>

text \<open>The variables that the parser writes.\<close>

record wb_vars =
  v_tag :: byte
  v_column_family :: u32
  v_key :: slice
  v_value :: slice
  v_blob :: slice
  v_xid :: slice

definition no_vars :: wb_vars where
  "no_vars = \<lparr>v_tag = 0, v_column_family = 0, v_key = [], v_value = [], v_blob = [], v_xid = []\<rparr>"

type_synonym parsed = "wb_status \<times> slice \<times> wb_vars"

definition get_cf :: "string \<Rightarrow> (slice \<Rightarrow> wb_vars \<Rightarrow> parsed) \<Rightarrow> slice \<Rightarrow> wb_vars \<Rightarrow> parsed" where
  "get_cf msg k input v =
     (case GetVarint32 input of
        None \<Rightarrow> (Corruption msg, input, v)
      | Some (cf, input) \<Rightarrow> k input (v\<lparr>v_column_family := cf\<rparr>))"

text \<open>\<open>GetLengthPrefixedSlice\<close> into one of the variables.\<close>

definition get_into ::
  "(slice \<Rightarrow> wb_vars \<Rightarrow> wb_vars) \<Rightarrow> string \<Rightarrow> (slice \<Rightarrow> wb_vars \<Rightarrow> parsed) \<Rightarrow> slice \<Rightarrow> wb_vars \<Rightarrow> parsed" where
  "get_into upd msg k input v =
     (case GetLengthPrefixedSlice input of
        (None, input) \<Rightarrow> (Corruption msg, input, v)
      | (Some s, input) \<Rightarrow> k input (upd s v))"

definition parsed_ok :: "slice \<Rightarrow> wb_vars \<Rightarrow> parsed" where
  "parsed_ok input v = (OK, input, v)"

abbreviation into_key :: "slice \<Rightarrow> wb_vars \<Rightarrow> wb_vars" where "into_key s v \<equiv> v\<lparr>v_key := s\<rparr>"
abbreviation into_value :: "slice \<Rightarrow> wb_vars \<Rightarrow> wb_vars" where "into_value s v \<equiv> v\<lparr>v_value := s\<rparr>"
abbreviation into_blob :: "slice \<Rightarrow> wb_vars \<Rightarrow> wb_vars" where "into_blob s v \<equiv> v\<lparr>v_blob := s\<rparr>"
abbreviation into_xid :: "slice \<Rightarrow> wb_vars \<Rightarrow> wb_vars" where "into_xid s v \<equiv> v\<lparr>v_xid := s\<rparr>"

definition ReadRecordFromWriteBatch :: "slice \<Rightarrow> wb_vars \<Rightarrow> parsed res" where
  "ReadRecordFromWriteBatch input0 v0 =
     (case input0 of
        [] \<Rightarrow> Inl Assert_Failed
      | tag # input \<Rightarrow>
          (let v = v0\<lparr>v_tag := tag, v_column_family := 0\<rparr>;
               key_value = (\<lambda>msg. get_into into_key msg (get_into into_value msg parsed_ok));
               key_only = (\<lambda>msg. get_into into_key msg parsed_ok)
           in Inr (
             if tag = kTypeColumnFamilyValue then get_cf ''bad WriteBatch Put'' (key_value ''bad WriteBatch Put'') input v
             else if tag = kTypeValue then key_value ''bad WriteBatch Put'' input v
             else if tag = kTypeColumnFamilyDeletion \<or> tag = kTypeColumnFamilySingleDeletion
             then get_cf ''bad WriteBatch Delete'' (key_only ''bad WriteBatch Delete'') input v
             else if tag = kTypeDeletion \<or> tag = kTypeSingleDeletion then key_only ''bad WriteBatch Delete'' input v
             else if tag = kTypeColumnFamilyRangeDeletion
             then get_cf ''bad WriteBatch DeleteRange'' (key_value ''bad WriteBatch DeleteRange'') input v
             else if tag = kTypeRangeDeletion then key_value ''bad WriteBatch DeleteRange'' input v
             else if tag = kTypeColumnFamilyMerge then get_cf ''bad WriteBatch Merge'' (key_value ''bad WriteBatch Merge'') input v
             else if tag = kTypeMerge then key_value ''bad WriteBatch Merge'' input v
             else if tag = kTypeLogData then get_into into_blob ''bad WriteBatch Blob'' parsed_ok input v
             else if tag = kTypeNoop \<or> tag = kTypeBeginPrepareXID then parsed_ok input v
             else if tag = kTypeEndPrepareXID then get_into into_xid ''bad EndPrepare XID'' parsed_ok input v
             else if tag = kTypeCommitXID then get_into into_xid ''bad Commit XID'' parsed_ok input v
             else if tag = kTypeRollbackXID then get_into into_xid ''bad Rollback XID'' parsed_ok input v
             else (Corruption ''unknown WriteBatch tag'', input, v))))"

text \<open>\<open>WriteBatch::Handler\<close>, whose state is \<open>'s\<close>.\<close>

record 's wb_handler =
  h_continue :: "'s \<Rightarrow> bool"
  h_put :: "u32 \<Rightarrow> slice \<Rightarrow> slice \<Rightarrow> 's \<Rightarrow> (wb_status \<times> 's) res"
  h_delete :: "u32 \<Rightarrow> slice \<Rightarrow> 's \<Rightarrow> (wb_status \<times> 's) res"
  h_single_delete :: "u32 \<Rightarrow> slice \<Rightarrow> 's \<Rightarrow> (wb_status \<times> 's) res"
  h_delete_range :: "u32 \<Rightarrow> slice \<Rightarrow> slice \<Rightarrow> 's \<Rightarrow> (wb_status \<times> 's) res"
  h_merge :: "u32 \<Rightarrow> slice \<Rightarrow> slice \<Rightarrow> 's \<Rightarrow> (wb_status \<times> 's) res"
  h_log_data :: "slice \<Rightarrow> 's \<Rightarrow> 's"
  h_begin_prepare :: "'s \<Rightarrow> (wb_status \<times> 's) res"
  h_end_prepare :: "slice \<Rightarrow> 's \<Rightarrow> (wb_status \<times> 's) res"
  h_commit :: "slice \<Rightarrow> 's \<Rightarrow> (wb_status \<times> 's) res"
  h_rollback :: "slice \<Rightarrow> 's \<Rightarrow> (wb_status \<times> 's) res"

text \<open>The \<open>switch\<close> of \<open>Iterate\<close>: the status, the new state and what is added to \<open>found\<close>. The status
  of the functions for prepared transactions is not looked at.\<close>

definition asserting :: "u32 \<Rightarrow> content_flag \<Rightarrow> 'a res \<Rightarrow> 'a res" where
  "asserting flags f r = (if flags AND (flag DEFERRED OR flag f) = 0 then Inl Assert_Failed else r)"

definition counted :: "(wb_status \<times> 's) res \<Rightarrow> (wb_status \<times> 's \<times> nat) res" where
  "counted r = bind_res r (\<lambda>(st, s). Inr (st, s, 1))"

definition tx_marker :: "(wb_status \<times> 's) res \<Rightarrow> (wb_status \<times> 's \<times> nat) res" where
  "tx_marker r = bind_res r (\<lambda>(st, s). Inr (OK, s, 0))"

definition dispatch ::
  "'s wb_handler \<Rightarrow> u32 \<Rightarrow> wb_vars \<Rightarrow> 's \<Rightarrow> (wb_status \<times> 's \<times> nat) res" where
  "dispatch h flags v s =
     (let tag = v_tag v; cf = v_column_family v in
      if tag = kTypeColumnFamilyValue \<or> tag = kTypeValue
      then asserting flags HAS_PUT (counted (h_put h cf (v_key v) (v_value v) s))
      else if tag = kTypeColumnFamilyDeletion \<or> tag = kTypeDeletion
      then asserting flags HAS_DELETE (counted (h_delete h cf (v_key v) s))
      else if tag = kTypeColumnFamilySingleDeletion \<or> tag = kTypeSingleDeletion
      then asserting flags HAS_SINGLE_DELETE (counted (h_single_delete h cf (v_key v) s))
      else if tag = kTypeColumnFamilyRangeDeletion \<or> tag = kTypeRangeDeletion
      then asserting flags HAS_DELETE_RANGE (counted (h_delete_range h cf (v_key v) (v_value v) s))
      else if tag = kTypeColumnFamilyMerge \<or> tag = kTypeMerge
      then asserting flags HAS_MERGE (counted (h_merge h cf (v_key v) (v_value v) s))
      else if tag = kTypeLogData then Inr (OK, h_log_data h (v_blob v) s, 0)
      else if tag = kTypeBeginPrepareXID then asserting flags HAS_BEGIN_PREPARE (tx_marker (h_begin_prepare h s))
      else if tag = kTypeEndPrepareXID then asserting flags HAS_END_PREPARE (tx_marker (h_end_prepare h (v_xid v) s))
      else if tag = kTypeCommitXID then asserting flags HAS_COMMIT (tx_marker (h_commit h (v_xid v) s))
      else if tag = kTypeRollbackXID then asserting flags HAS_ROLLBACK (tx_marker (h_rollback h (v_xid v) s))
      else if tag = kTypeNoop then Inr (OK, s, 0)
      else Inr (Corruption ''unknown WriteBatch tag'', s, 0))"

lemma GetVarint32_shorter: "GetVarint32 p = Some (v, q) \<Longrightarrow> length q \<le> length p"
  by (auto simp: GetVarint32_spec varint_of_def split: if_splits)

definition shortens :: "(slice \<Rightarrow> wb_vars \<Rightarrow> parsed) \<Rightarrow> bool" where
  "shortens k \<longleftrightarrow> (\<forall>i v. length (fst (snd (k i v))) \<le> length i)"

lemma shortens_intros:
  "shortens (\<lambda>i v. (st, i, v))" "shortens parsed_ok" "shortens k \<Longrightarrow> shortens (get_cf msg k)" "shortens k \<Longrightarrow> shortens (get_into upd msg k)"
proof -
  show "shortens (\<lambda>i v. (st, i, v))" "shortens parsed_ok" by (simp_all add: shortens_def parsed_ok_def)
  show "shortens (get_cf msg k)" if "shortens k"
    using that GetVarint32_shorter by (fastforce simp: shortens_def get_cf_def intro: le_trans split: option.split)
  show "shortens (get_into upd msg k)" if k: "shortens k"
  proof -
    have "length q \<le> length p" if "GetLengthPrefixedSlice p = (x, q)" for p x q
      using that by (auto simp: GetLengthPrefixedSlice_def split: option.splits if_splits dest!: GetVarint32_shorter)
    with k show ?thesis by (fastforce simp: shortens_def get_into_def intro: le_trans split: prod.split option.split)
  qed
qed

lemma shortensD: "shortens k \<Longrightarrow> length (fst (snd (k i v))) < Suc (length i)"
  by (simp add: shortens_def less_Suc_eq_le)

lemma ReadRecord_shorter:
  assumes "ReadRecordFromWriteBatch input v = Inr r"
  shows "length (fst (snd r)) < length input"
proof (cases input)
  case (Cons tag i)
  note sh = shortens_intros
  show ?thesis
    using assms unfolding Cons ReadRecordFromWriteBatch_def Let_def
    by (auto split: if_splits intro!: shortensD sh)
qed (use assms in \<open>simp add: ReadRecordFromWriteBatch_def\<close>)

function iterate_loop ::
  "'s wb_handler \<Rightarrow> u32 \<Rightarrow> slice \<Rightarrow> wb_vars \<Rightarrow> nat \<Rightarrow> 's \<Rightarrow> (wb_status \<times> nat \<times> 's) res" where
  "iterate_loop h flags input v found s =
     (if input = [] \<or> \<not> h_continue h s then Inr (OK, found, s)
      else bind_res (ReadRecordFromWriteBatch input v) (\<lambda>(st, input', v').
        if st \<noteq> OK then Inr (st, found, s)
        else bind_res (dispatch h flags v' s) (\<lambda>(st', s', n).
          if st' \<noteq> OK then Inr (st', found + n, s')
          else iterate_loop h flags input' v' (found + n) s')))"
  by pat_completeness auto
termination
  by (relation "measure (\<lambda>(h, flags, input, v, found, s). length input)")
     (simp_all add: ReadRecord_shorter split_def, metis ReadRecord_shorter fst_conv snd_conv)

declare iterate_loop.simps [simp del]

definition Iterate :: "bool \<Rightarrow> 's wb_handler \<Rightarrow> write_batch \<Rightarrow> 's \<Rightarrow> (wb_status \<times> 's) res" where
  "Iterate le h b s =
     (if length (rep b) < kHeader then Inr (Corruption ''malformed WriteBatch (too small)'', s)
      else bind_res (iterate_loop h (content_flags b) (drop kHeader (rep b)) no_vars 0 s) (\<lambda>(st, found, s).
        if st \<noteq> OK then Inr (st, s)
        else bind_res (batch_count le b) (\<lambda>n.
          Inr (if int found \<noteq> sint n then Corruption ''WriteBatch has wrong count'' else OK, s))))"

definition ReadKeyFromWriteBatchEntry :: "slice \<Rightarrow> bool \<Rightarrow> (slice option \<times> slice) res" where
  "ReadKeyFromWriteBatchEntry input cf_record =
     (case input of
        [] \<Rightarrow> Inl Assert_Failed
      | _ # input \<Rightarrow>
          Inr (if cf_record then
                 (case GetVarint32 input of
                    None \<Rightarrow> (None, input)
                  | Some (cf, input) \<Rightarrow> GetLengthPrefixedSlice input)
               else GetLengthPrefixedSlice input))"

text \<open>\<open>BatchContentClassifier\<close>.\<close>

definition classified :: "content_flag \<Rightarrow> u32 \<Rightarrow> (wb_status \<times> u32) res" where
  "classified f flags = Inr (OK, flags OR flag f)"

definition classifier :: "u32 wb_handler" where
  "classifier =
     \<lparr>h_continue = \<lambda>_. True,
      h_put = \<lambda>_ _ _. classified HAS_PUT,
      h_delete = \<lambda>_ _. classified HAS_DELETE,
      h_single_delete = \<lambda>_ _. classified HAS_SINGLE_DELETE,
      h_delete_range = \<lambda>_ _ _. classified HAS_DELETE_RANGE,
      h_merge = \<lambda>_ _ _. classified HAS_MERGE,
      h_log_data = \<lambda>_ s. s,
      h_begin_prepare = classified HAS_BEGIN_PREPARE,
      h_end_prepare = \<lambda>_. classified HAS_END_PREPARE,
      h_commit = \<lambda>_. classified HAS_COMMIT,
      h_rollback = \<lambda>_. classified HAS_ROLLBACK\<rparr>"

definition ComputeContentFlags :: "bool \<Rightarrow> write_batch \<Rightarrow> u32 res" where
  "ComputeContentFlags le b =
     (if content_flags b AND flag DEFERRED \<noteq> 0 then map_sum id snd (Iterate le classifier b 0)
      else Inr (content_flags b))"

definition batch_has :: "content_flag \<Rightarrow> bool \<Rightarrow> write_batch \<Rightarrow> bool res" where
  "batch_has f le b = map_sum id (\<lambda>flags. flags AND flag f \<noteq> 0) (ComputeContentFlags le b)"

end
