(* ===== verification/BatchSpec.thy ===== *)
theory BatchSpec
  imports WriteBatch "HOL-Library.Sublist"
begin

section \<open>RocksDB: what a write batch means\<close>

text \<open>
  A batch as the list of its updates. \<open>enc_all\<close> is the encoding of a list, \<open>deliver_all\<close> what a handler is
  told of it, \<open>spec_call\<close> what the calls that build a batch do to the list and to the stack of its save
  points, and \<open>conc\<close> the batch that stands for a list and a stack. The step lemmas show that every
  function of the batch refines the one on lists; \<open>encoded\<close> is all that reading needs to know.
\<close>

subsection \<open>Updates and their encoding\<close>

datatype update =
    U_Put u32 slice slice
  | U_Delete u32 slice
  | U_SingleDelete u32 slice
  | U_DeleteRange u32 slice slice
  | U_Merge u32 slice slice
  | U_LogData slice
  | U_Noop
  | U_BeginPrepare
  | U_EndPrepare slice
  | U_Commit slice
  | U_Rollback slice

abbreviation varstring :: "slice \<Rightarrow> slice" where
  "varstring s \<equiv> EncodeVarint32 (word_of_nat (length s)) @ s"

definition tagged :: "byte \<Rightarrow> byte \<Rightarrow> u32 \<Rightarrow> slice" where
  "tagged tag cf_tag cf = (if cf = 0 then [tag] else cf_tag # EncodeVarint32 cf)"

fun enc :: "update \<Rightarrow> slice" where
  "enc (U_Put cf k v) = tagged kTypeValue kTypeColumnFamilyValue cf @ varstring k @ varstring v"
| "enc (U_Delete cf k) = tagged kTypeDeletion kTypeColumnFamilyDeletion cf @ varstring k"
| "enc (U_SingleDelete cf k) = tagged kTypeSingleDeletion kTypeColumnFamilySingleDeletion cf @ varstring k"
| "enc (U_DeleteRange cf k l) = tagged kTypeRangeDeletion kTypeColumnFamilyRangeDeletion cf @ varstring k @ varstring l"
| "enc (U_Merge cf k v) = tagged kTypeMerge kTypeColumnFamilyMerge cf @ varstring k @ varstring v"
| "enc (U_LogData x) = kTypeLogData # varstring x"
| "enc U_Noop = [kTypeNoop]"
| "enc U_BeginPrepare = [kTypeBeginPrepareXID]"
| "enc (U_EndPrepare x) = kTypeEndPrepareXID # varstring x"
| "enc (U_Commit x) = kTypeCommitXID # varstring x"
| "enc (U_Rollback x) = kTypeRollbackXID # varstring x"

definition enc_all :: "update list \<Rightarrow> slice" where
  "enc_all us = concat (map enc us)"

fun strings_of :: "update \<Rightarrow> slice list" where
  "strings_of (U_Put cf k v) = [k, v]"
| "strings_of (U_Delete cf k) = [k]"
| "strings_of (U_SingleDelete cf k) = [k]"
| "strings_of (U_DeleteRange cf k l) = [k, l]"
| "strings_of (U_Merge cf k v) = [k, v]"
| "strings_of (U_LogData x) = [x]"
| "strings_of U_Noop = []"
| "strings_of U_BeginPrepare = []"
| "strings_of (U_EndPrepare x) = [x]"
| "strings_of (U_Commit x) = [x]"
| "strings_of (U_Rollback x) = [x]"

text \<open>The lengths are written as 32 bits.\<close>

definition wf_update :: "update \<Rightarrow> bool" where
  "wf_update u \<longleftrightarrow> (\<forall>s\<in>set (strings_of u). length s < 2 ^ 32)"

fun flag_of :: "update \<Rightarrow> content_flag option" where
  "flag_of (U_Put _ _ _) = Some HAS_PUT"
| "flag_of (U_Delete _ _) = Some HAS_DELETE"
| "flag_of (U_SingleDelete _ _) = Some HAS_SINGLE_DELETE"
| "flag_of (U_DeleteRange _ _ _) = Some HAS_DELETE_RANGE"
| "flag_of (U_Merge _ _ _) = Some HAS_MERGE"
| "flag_of (U_LogData _) = None"
| "flag_of U_Noop = None"
| "flag_of U_BeginPrepare = Some HAS_BEGIN_PREPARE"
| "flag_of (U_EndPrepare _) = Some HAS_END_PREPARE"
| "flag_of (U_Commit _) = Some HAS_COMMIT"
| "flag_of (U_Rollback _) = Some HAS_ROLLBACK"

fun is_counted :: "update \<Rightarrow> bool" where
  "is_counted (U_Put _ _ _) = True"
| "is_counted (U_Delete _ _) = True"
| "is_counted (U_SingleDelete _ _) = True"
| "is_counted (U_DeleteRange _ _ _) = True"
| "is_counted (U_Merge _ _ _) = True"
| "is_counted _ = False"

abbreviation count_of :: "update list \<Rightarrow> nat" where
  "count_of us \<equiv> length (filter is_counted us)"

text \<open>What a handler is to be told, one update after the other, until it reports an error.\<close>

definition told :: "(wb_status \<times> 's) res \<Rightarrow> (wb_status \<times> 's) res" where
  "told r = bind_res r (\<lambda>(st, s). Inr (OK, s))"

fun deliver1 :: "'s wb_handler \<Rightarrow> update \<Rightarrow> 's \<Rightarrow> (wb_status \<times> 's) res" where
  "deliver1 h (U_Put cf k v) s = h_put h cf k v s"
| "deliver1 h (U_Delete cf k) s = h_delete h cf k s"
| "deliver1 h (U_SingleDelete cf k) s = h_single_delete h cf k s"
| "deliver1 h (U_DeleteRange cf k l) s = h_delete_range h cf k l s"
| "deliver1 h (U_Merge cf k v) s = h_merge h cf k v s"
| "deliver1 h (U_LogData x) s = Inr (OK, h_log_data h x s)"
| "deliver1 h U_Noop s = Inr (OK, s)"
| "deliver1 h U_BeginPrepare s = told (h_begin_prepare h s)"
| "deliver1 h (U_EndPrepare x) s = told (h_end_prepare h x s)"
| "deliver1 h (U_Commit x) s = told (h_commit h x s)"
| "deliver1 h (U_Rollback x) s = told (h_rollback h x s)"

fun deliver_all :: "'s wb_handler \<Rightarrow> update list \<Rightarrow> 's \<Rightarrow> (wb_status \<times> 's) res" where
  "deliver_all h [] s = Inr (OK, s)"
| "deliver_all h (u # us) s =
     bind_res (deliver1 h u s) (\<lambda>(st, s). if st \<noteq> OK then Inr (st, s) else deliver_all h us s)"

lemma get_into_varstring:
  "length x < 2 ^ 32 \<Longrightarrow> get_into upd msg k (EncodeVarint32 (word_of_nat (length x)) @ x @ rest) v = k rest (upd x v)"
  by (simp add: get_into_def GetLengthPrefixedSlice_Encode)

lemma get_cf_varint: "get_cf msg k (EncodeVarint32 cf @ rest) v = k rest (v\<lparr>v_column_family := cf\<rparr>)"
  by (simp add: get_cf_def GetVarint_Encode)

lemma asserting_ok: "flags AND flag DEFERRED \<noteq> 0 \<or> flags AND flag f \<noteq> 0 \<Longrightarrow> asserting flags f r = r"
  by (simp add: asserting_def bit.conj_disj_distrib or_eq_0_iff) blast

definition flags_ok :: "u32 \<Rightarrow> update list \<Rightarrow> bool" where
  "flags_ok flags us \<longleftrightarrow> flags AND flag DEFERRED \<noteq> 0 \<or>
     (\<forall>u\<in>set us. \<forall>f. flag_of u = Some f \<longrightarrow> flags AND flag f \<noteq> 0)"

lemma flags_ok_Cons: "flags_ok flags (u # us) \<Longrightarrow> flags_ok flags us \<and>
    (flag_of u = Some f \<longrightarrow> flags AND flag DEFERRED \<noteq> 0 \<or> flags AND flag f \<noteq> 0)"
  unfolding flags_ok_def by (meson list.set_intros)

lemma bind_res_assoc: "bind_res (bind_res m f) g = bind_res m (\<lambda>x. bind_res (f x) g)"
  by (auto simp: bind_res_def split: sum.split)

text \<open>The variables after an update has been read.\<close>

abbreviation head_vars :: "byte \<Rightarrow> byte \<Rightarrow> u32 \<Rightarrow> wb_vars \<Rightarrow> wb_vars" where
  "head_vars tag cf_tag cf v \<equiv> v\<lparr>v_tag := (if cf = 0 then tag else cf_tag), v_column_family := cf\<rparr>"

fun vars_of :: "update \<Rightarrow> wb_vars \<Rightarrow> wb_vars" where
  "vars_of (U_Put cf k x) v = (head_vars kTypeValue kTypeColumnFamilyValue cf v)\<lparr>v_key := k, v_value := x\<rparr>"
| "vars_of (U_Delete cf k) v = (head_vars kTypeDeletion kTypeColumnFamilyDeletion cf v)\<lparr>v_key := k\<rparr>"
| "vars_of (U_SingleDelete cf k) v = (head_vars kTypeSingleDeletion kTypeColumnFamilySingleDeletion cf v)\<lparr>v_key := k\<rparr>"
| "vars_of (U_DeleteRange cf k x) v =
     (head_vars kTypeRangeDeletion kTypeColumnFamilyRangeDeletion cf v)\<lparr>v_key := k, v_value := x\<rparr>"
| "vars_of (U_Merge cf k x) v = (head_vars kTypeMerge kTypeColumnFamilyMerge cf v)\<lparr>v_key := k, v_value := x\<rparr>"
| "vars_of (U_LogData x) v = v\<lparr>v_tag := kTypeLogData, v_column_family := 0, v_blob := x\<rparr>"
| "vars_of U_Noop v = v\<lparr>v_tag := kTypeNoop, v_column_family := 0\<rparr>"
| "vars_of U_BeginPrepare v = v\<lparr>v_tag := kTypeBeginPrepareXID, v_column_family := 0\<rparr>"
| "vars_of (U_EndPrepare x) v = v\<lparr>v_tag := kTypeEndPrepareXID, v_column_family := 0, v_xid := x\<rparr>"
| "vars_of (U_Commit x) v = v\<lparr>v_tag := kTypeCommitXID, v_column_family := 0, v_xid := x\<rparr>"
| "vars_of (U_Rollback x) v = v\<lparr>v_tag := kTypeRollbackXID, v_column_family := 0, v_xid := x\<rparr>"

lemma read_update:
  "wf_update u \<Longrightarrow> ReadRecordFromWriteBatch (enc u @ rest) v = Inr (OK, rest, vars_of u v)"
  by (cases u)
    (auto simp: ReadRecordFromWriteBatch_def tagged_def get_cf_varint get_into_varstring parsed_ok_def Let_def
      tag_defs wf_update_def)

lemma dispatch_update:
  assumes "flags_ok flags (u # us)"
  shows "dispatch h flags (vars_of u v) s =
    bind_res (deliver1 h u s) (\<lambda>(st, s). Inr (st, s, if is_counted u then 1 else 0))"
proof -
  have f: "\<And>f r. flag_of u = Some f \<Longrightarrow> asserting flags f r = r"
    using flags_ok_Cons [OF assms] asserting_ok by blast
  show ?thesis
    by (cases u)
      (simp_all add: dispatch_def counted_def tx_marker_def told_def Let_def bind_res_assoc split_def tag_defs f)
qed

lemma enc_Cons: "enc u \<noteq> []"
  by (cases u) (simp_all add: tagged_def)

lemma iterate_updates:
  assumes "\<forall>u\<in>set us. wf_update u" "flags_ok flags us" "\<And>s. h_continue h s"
  shows "case deliver_all h us s of
      Inl e \<Rightarrow> iterate_loop h flags (enc_all us) v found s = Inl e
    | Inr (st, s') \<Rightarrow> \<exists>n. iterate_loop h flags (enc_all us) v found s = Inr (st, n, s') \<and>
        (st = OK \<longrightarrow> n = found + count_of us)"
  using assms(1,2)
proof (induction us arbitrary: s v found)
  case Nil
  then show ?case by (subst iterate_loop.simps) (simp add: enc_all_def)
next
  case (Cons u us)
  have ne: "enc_all (u # us) = enc u @ enc_all us" "enc u @ enc_all us \<noteq> []"
    using enc_Cons by (simp_all add: enc_all_def)
  define v' where "v' = vars_of u v"
  have v': "ReadRecordFromWriteBatch (enc u @ enc_all us) v = Inr (OK, enc_all us, v')"
    "dispatch h flags v' s = bind_res (deliver1 h u s) (\<lambda>(st, s). Inr (st, s, if is_counted u then 1 else 0))"
    using Cons.prems(1) by (simp_all add: v'_def read_update dispatch_update [OF Cons.prems(2)])
  have step: "iterate_loop h flags (enc_all (u # us)) v found s = bind_res (deliver1 h u s) (\<lambda>(st, s').
      if st \<noteq> OK then Inr (st, found + (if is_counted u then 1 else 0), s')
      else iterate_loop h flags (enc_all us) v' (found + (if is_counted u then 1 else 0)) s')"
    unfolding ne(1)
    by (subst iterate_loop.simps, cases "deliver1 h u s")
       (use enc_Cons [of u] assms(3) v' in \<open>simp_all add: split_def\<close>)
  show ?case
  proof (cases "deliver1 h u s")
    case (Inl e)
    then show ?thesis by (simp add: step)
  next
    case (Inr r)
    obtain st s1 where r: "r = (st, s1)" by fastforce
    have "flags_ok flags us" using flags_ok_Cons Cons.prems(2) by blast
    with Cons.IH [of v' "found + (if is_counted u then 1 else 0)" s1] Cons.prems(1) Inr r show ?thesis
      by (auto simp: step split: sum.splits prod.splits)
  qed
qed

subsection \<open>What a batch is\<close>

text \<open>A batch with \<open>n\<close> counted updates and the encoding \<open>bs\<close>.\<close>

definition raw :: "nat \<Rightarrow> slice \<Rightarrow> nat \<Rightarrow> slice \<Rightarrow> u32 \<Rightarrow> save_point list option \<Rightarrow> save_point \<Rightarrow> write_batch" where
  "raw m seq n bs fl sps wal =
     \<lparr>rep = seq @ le_bytes 4 (word_of_nat n :: u32) @ bs, content_flags = fl, save_points = sps,
      wal_term_point = wal, max_bytes = m\<rparr>"

lemma raw_sel [simp]:
  "rep (raw m seq n bs fl sps wal) = seq @ le_bytes 4 (word_of_nat n :: u32) @ bs"
  "content_flags (raw m seq n bs fl sps wal) = fl" "save_points (raw m seq n bs fl sps wal) = sps"
  "wal_term_point (raw m seq n bs fl sps wal) = wal" "max_bytes (raw m seq n bs fl sps wal) = m"
  by (simp_all add: raw_def)

lemma raw_upd [simp]:
  "(raw m seq n bs fl sps wal)\<lparr>content_flags := fl'\<rparr> = raw m seq n bs fl' sps wal"
  "(raw m seq n bs fl sps wal)\<lparr>save_points := sps'\<rparr> = raw m seq n bs fl sps' wal"
  "(raw m seq n bs fl sps wal)\<lparr>wal_term_point := wal'\<rparr> = raw m seq n bs fl sps wal'"
  by (simp_all add: raw_def)

lemma sint_of_nat: "n < 2 ^ 31 \<Longrightarrow> sint (word_of_nat n :: u32) = int n"
  using sint_small [of "int n"] by simp

lemma raw_count [simp]: "length seq = 8 \<Longrightarrow> batch_count le (raw m seq n bs fl sps wal) = Inr (word_of_nat n)"
  by (simp add: batch_count_def)

lemma raw_SetCount [simp]: "length seq = 8 \<Longrightarrow>
    SetCount le (word_of_nat k) (raw m seq n bs fl sps wal) = Inr (raw m seq k bs fl sps wal)"
  by (simp add: SetCount_def raw_def EncodeFixed32_le)

lemma raw_save [simp]:
  "length seq = 8 \<Longrightarrow> save_of le (raw m seq n bs fl sps wal) = Inr \<lparr>sp_size = 12 + length bs, sp_count = word_of_nat n, sp_flags = fl\<rparr>"
  by (simp add: save_of_def)

lemma raw_push [simp]: "push_back c (raw m seq n bs fl sps wal) = raw m seq n (bs @ [c]) fl sps wal"
  by (simp add: push_back_def raw_def)

lemma raw_add_flag [simp]: "add_flag f (raw m seq n bs fl sps wal) = raw m seq n bs (fl OR flag f) sps wal"
  by (simp add: add_flag_def)

lemma raw_put_rep:
  assumes "\<And>d. f d = Inr (d @ x)"
  shows "put_rep f (raw m seq n bs fl sps wal) = Inr (raw m seq n (bs @ x) fl sps wal)"
  by (simp add: put_rep_def assms raw_def)

lemma raw_strings:
  "put_strings (map whole ss) (raw m seq n bs fl sps wal) =
    Inr (raw m seq n (bs @ concat (map varstring ss)) fl sps wal)"
proof (induction ss arbitrary: bs)
  case (Cons s ss)
  then show ?case by (simp add: raw_put_rep [OF PutLengthPrefixedSlice_eq])
qed simp

lemma raw_commit:
  assumes "length seq = 8"
  shows "commit le \<lparr>sp_size = 12 + length bs, sp_count = word_of_nat k, sp_flags = fl'\<rparr> (raw m seq n (bs @ x) fl sps wal) =
    (if m \<noteq> 0 \<and> m < 12 + length (bs @ x) then Inr (MemoryLimit, raw m seq k bs fl' sps wal)
     else Inr (OK, raw m seq n (bs @ x) fl sps wal))"
proof -
  have "(raw m seq n (bs @ x) fl sps wal)\<lparr>rep := take (12 + length bs) (rep (raw m seq n (bs @ x) fl sps wal))\<rparr> =
      raw m seq n bs fl sps wal" by (simp add: raw_def assms)
  then show ?thesis using assms by (simp only: commit_def bind_res_simps raw_SetCount raw_upd save_point.select_convs)
      (simp add: add.commute)
qed

lemma raw_add_update:
  assumes "n < 2 ^ 31 - 1" "length seq = 8"
  shows "add_update le tag cf_tag f cf (map whole ss) (raw m seq n bs fl sps wal) =
    (let x = tagged tag cf_tag cf @ concat (map varstring ss)
     in if m \<noteq> 0 \<and> m < 12 + length (bs @ x) then Inr (MemoryLimit, raw m seq n bs fl sps wal)
        else Inr (OK, raw m seq (Suc n) (bs @ x) (fl OR flag f) sps wal))"
proof -
  have "plus_one (word_of_nat n) = Inr (word_of_nat (Suc n))"
    using assms by (simp add: plus_one_def sint_of_nat add.commute)
  moreover have "(if cf = 0 then Inr (push_back tag b) else put_rep (\<lambda>d. PutVarint32 d cf) (push_back cf_tag b)) =
      Inr (raw m seq k (bs @ tagged tag cf_tag cf) fl sps wal)" if "b = raw m seq k bs fl sps wal" for b k
    unfolding that by (simp add: tagged_def raw_put_rep [OF Put_Encode(1)])
  ultimately show ?thesis
    using assms(2) raw_commit [OF assms(2), of le bs n fl m "Suc n" "tagged tag cf_tag cf @ concat (map varstring ss)"]
    by (simp add: add_update_def raw_strings Let_def del: of_nat_Suc)
qed

lemma parts_whole: "in_parts ps = whole (concat ps)"
  by (simp add: PutLengthPrefixedSliceParts_eq fun_eq_iff)

subsection \<open>Batches are built\<close>

text \<open>The calls that build a batch.\<close>

datatype call =
    Add update
  | End_Prepare slice
  | Set_Save
  | Roll_Back
  | Pop_Save
  | Clear_All

fun run_add :: "bool \<Rightarrow> update \<Rightarrow> write_batch \<Rightarrow> (wb_status \<times> write_batch) res" where
  "run_add le (U_Put cf k v) b = batch_put le cf k v b"
| "run_add le (U_Delete cf k) b = batch_delete le cf k b"
| "run_add le (U_SingleDelete cf k) b = batch_single_delete le cf k b"
| "run_add le (U_DeleteRange cf k l) b = batch_delete_range le cf k l b"
| "run_add le (U_Merge cf k v) b = batch_merge le cf k v b"
| "run_add le (U_LogData x) b = batch_put_log_data le x b"
| "run_add le U_Noop b = Inr (InsertNoop b)"
| "run_add le (U_Commit x) b = MarkCommit x b"
| "run_add le (U_Rollback x) b = MarkRollback x b"
| "run_add le _ b = Inl Assert_Failed"

text \<open>No function adds the markers of a prepared section by themselves.\<close>

fun run_call :: "bool \<Rightarrow> call \<Rightarrow> write_batch \<Rightarrow> (wb_status \<times> write_batch) res" where
  "run_call le (Add u) b = run_add le u b"
| "run_call le (End_Prepare x) b = MarkEndPrepare x b"
| "run_call le Set_Save b = map_sum id (Pair OK) (SetSavePoint le b)"
| "run_call le Roll_Back b = RollbackToSavePoint le b"
| "run_call le Pop_Save b = Inr (PopSavePoint b)"
| "run_call le Clear_All b = Inr (OK, batch_clear b)"

text \<open>What they mean: a list of updates and a stack of such lists. \<open>limit\<close> is the largest size of the
  encoding, 0 for none; the markers of transactions are added whatever the size.\<close>

type_synonym batch_spec = "update list \<times> update list list option"

fun limited :: "update \<Rightarrow> bool" where
  "limited U_Noop = False"
| "limited (U_Commit _) = False"
| "limited (U_Rollback _) = False"
| "limited _ = True"

fun spec_call :: "nat \<Rightarrow> call \<Rightarrow> batch_spec \<Rightarrow> (wb_status \<times> batch_spec) res" where
  "spec_call limit (Add u) (us, st) =
     (if u = U_BeginPrepare \<or> (\<exists>x. u = U_EndPrepare x) then Inl Assert_Failed
      else if limited u \<and> limit \<noteq> 0 \<and> limit < kHeader + length (enc_all (us @ [u])) then Inr (MemoryLimit, us, st)
      else Inr (OK, us @ [u], st))"
| "spec_call limit (End_Prepare x) (us, st) =
     (case us of
        U_Noop # rest \<Rightarrow> Inr (OK, U_BeginPrepare # rest @ [U_EndPrepare x], map_option (\<lambda>_. []) st)
      | _ \<Rightarrow> Inl Assert_Failed)"
| "spec_call limit Set_Save (us, st) = Inr (OK, us, Some (us # (case st of None \<Rightarrow> [] | Some l \<Rightarrow> l)))"
| "spec_call limit Roll_Back (us, st) =
     (case st of Some (x # l) \<Rightarrow> Inr (OK, x, Some l) | _ \<Rightarrow> Inr (NotFound, us, st))"
| "spec_call limit Pop_Save (us, st) =
     (case st of Some (x # l) \<Rightarrow> Inr (OK, us, Some l) | _ \<Rightarrow> Inr (NotFound, us, st))"
| "spec_call limit Clear_All (us, st) = Inr (OK, [], map_option (\<lambda>_. []) st)"

fun run_calls :: "('c \<Rightarrow> 's \<Rightarrow> (wb_status \<times> 's) res) \<Rightarrow> 'c list \<Rightarrow> 's \<Rightarrow> (wb_status list \<times> 's) res" where
  "run_calls f [] s = Inr ([], s)"
| "run_calls f (c # cs) s =
     bind_res (f c s) (\<lambda>(r, s). bind_res (run_calls f cs s) (\<lambda>(rs, s). Inr (r # rs, s)))"

definition opt_flag :: "update \<Rightarrow> u32" where
  "opt_flag u = (case flag_of u of None \<Rightarrow> 0 | Some f \<Rightarrow> flag f)"

definition flags_of :: "update list \<Rightarrow> u32" where
  "flags_of us = foldr (\<lambda>u a. opt_flag u OR a) us 0"

lemma flags_of_simps [simp]:
  "flags_of [] = 0" "flags_of (u # us) = opt_flag u OR flags_of us" "flags_of (us @ vs) = flags_of us OR flags_of vs"
proof -
  show "flags_of [] = 0" "flags_of (u # us) = opt_flag u OR flags_of us" for u us by (simp_all add: flags_of_def)
  show "flags_of (us @ vs) = flags_of us OR flags_of vs"
    by (induction us) (simp_all add: flags_of_def or.assoc)
qed

lemma enc_all_simps [simp]:
  "enc_all [] = []" "enc_all (u # us) = enc u @ enc_all us" "enc_all (us @ vs) = enc_all us @ enc_all vs"
  by (simp_all add: enc_all_def)

definition sp_of :: "update list \<Rightarrow> save_point" where
  "sp_of us = \<lparr>sp_size = 12 + length (enc_all us), sp_count = word_of_nat (count_of us), sp_flags = flags_of us\<rparr>"

definition conc :: "nat \<Rightarrow> batch_spec \<Rightarrow> write_batch" where
  "conc m = (\<lambda>(us, st). raw m (replicate 8 0) (count_of us) (enc_all us) (flags_of us) (map_option (map sp_of) st) cleared)"

definition nested :: "batch_spec \<Rightarrow> bool" where
  "nested = (\<lambda>(us, st). sorted_wrt (\<lambda>x y. prefix y x) (us # (case st of None \<Rightarrow> [] | Some l \<Rightarrow> l)))"

lemma new_batch_conc: "new_batch m = conc m ([], None)"
  by (simp add: new_batch_def conc_def raw_def kHeader_def eval_nat_numeral)

lemma prefix_size:
  assumes "prefix x us"
  shows "length (enc_all x) \<le> length (enc_all us)" "count_of x \<le> count_of us"
    "length (enc_all x) = length (enc_all us) \<longleftrightarrow> x = us" "take (length (enc_all x)) (enc_all us) = enc_all x"
proof -
  from assms obtain y where y: "us = x @ y" by (auto elim: prefixE)
  show "length (enc_all x) \<le> length (enc_all us)" "count_of x \<le> count_of us"
    "take (length (enc_all x)) (enc_all us) = enc_all x" by (simp_all add: y)
  have "y \<noteq> [] \<Longrightarrow> enc_all y \<noteq> []" using enc_Cons by (cases y) auto
  then show "length (enc_all x) = length (enc_all us) \<longleftrightarrow> x = us" by (auto simp: y)
qed

lemma run_add_step:
  assumes "count_of us < 2 ^ 31 - 1" "u \<noteq> U_BeginPrepare" "\<And>x. u \<noteq> U_EndPrepare x"
  shows "run_add le u (conc m (us, st)) = map_sum id (\<lambda>(r, x). (r, conc m x)) (spec_call m (Add u) (us, st))"
proof -
  have len8: "length (replicate 8 (0 :: byte)) = 8" by simp
  note add = raw_add_update [OF assms(1) len8, of le _ _ _ _ "[_]", simplified]
    raw_add_update [OF assms(1) len8, of le _ _ _ _ "[_, _]", simplified]
  note put = raw_put_rep [OF PutLengthPrefixedSlice_eq]
  note defs = batch_put_def batch_delete_def batch_single_delete_def batch_delete_range_def batch_merge_def
  show ?thesis
  proof (cases u)
    case (U_LogData x)
    have "conc m (us, st) = raw m (replicate 8 0) (count_of us) (enc_all us) (flags_of us) (map_option (map sp_of) st) cleared"
      by (simp add: conc_def)
    with raw_commit [OF len8, of le "enc_all us" "count_of us" "flags_of us" m "count_of us" "kTypeLogData # varstring x" "flags_of us"]
    show ?thesis by (simp add: U_LogData batch_put_log_data_def put conc_def kHeader_def opt_flag_def)
  qed (use assms(2,3) in \<open>simp_all add: defs add conc_def kHeader_def opt_flag_def Let_def
      InsertNoop_def MarkCommit_def MarkRollback_def put or.commute\<close>)
qed

lemma tag_Noop: "enc u ! 0 = kTypeNoop \<longleftrightarrow> u = U_Noop"
  by (cases u) (simp_all add: tagged_def tag_defs)

abbreviation stack :: "'a list option \<Rightarrow> 'a list" where
  "stack st \<equiv> (case st of None \<Rightarrow> [] | Some l \<Rightarrow> l)"

lemma conc_simp: "conc m (us, st) =
    raw m (replicate 8 0) (count_of us) (enc_all us) (flags_of us) (map_option (map sp_of) st) cleared"
  by (simp add: conc_def)

lemma end_prepare_step:
  "MarkEndPrepare x (conc m (us, st)) = map_sum id (\<lambda>(r, y). (r, conc m y)) (spec_call m (End_Prepare x) (us, st))"
proof (cases us)
  case Nil
  then show ?thesis by (simp add: MarkEndPrepare_def conc_simp nth_append tag_defs)
next
  case (Cons u rest)
  have at12: "(rep (conc m (us, st)) @ [0]) ! 12 = enc u ! 0"
    using enc_Cons [of u] by (simp add: conc_simp Cons nth_append)
  show ?thesis
  proof (cases "u = U_Noop")
    case False
    then have "spec_call m (End_Prepare x) (us, st) = Inl Assert_Failed" by (cases u) (simp_all add: Cons)
    moreover have "MarkEndPrepare x (conc m (us, st)) = Inl Assert_Failed"
      unfolding MarkEndPrepare_def at12 using False tag_Noop [of u] by (simp add: conc_simp)
    ultimately show ?thesis by simp
  next
    case True
    let ?raw = "\<lambda>bs. raw m (replicate 8 0) (count_of rest) bs (flags_of rest) (map_option (\<lambda>_. []) st) cleared"
    have upd: "(?raw (kTypeNoop # bs))\<lparr>rep := (rep (?raw (kTypeNoop # bs)))[12 := c]\<rparr> = ?raw (c # bs)" for c bs
      by (simp add: raw_def list_update_append)
    have o: "option.map_option ((\<lambda>_. []) \<circ> map sp_of) st = (map_option (\<lambda>_. []) st :: save_point list option)"
      by (cases st) simp_all
    have st0: "map_option (map sp_of) (map_option (\<lambda>_. []) st) = map_option (\<lambda>_. []) st" by (cases st) simp_all
    show ?thesis
      unfolding MarkEndPrepare_def at12
      using upd [of "enc_all rest" kTypeBeginPrepareXID]
      by (simp add: True Cons conc_simp Let_def opt_flag_def raw_put_rep [OF PutLengthPrefixedSlice_eq] option.map_comp o comp_def
          or.assoc or.commute or.left_commute)
  qed
qed

lemma call_step:
  assumes "nested (us, st)" "count_of us < 2 ^ 31 - 1"
  shows "run_call le c (conc m (us, st)) = map_sum id (\<lambda>(r, y). (r, conc m y)) (spec_call m c (us, st))"
proof (cases c)
  case (Add u)
  show ?thesis
  proof (cases "u = U_BeginPrepare \<or> (\<exists>x. u = U_EndPrepare x)")
    case True
    then show ?thesis by (auto simp: Add)
  next
    case False
    then show ?thesis using run_add_step [OF assms(2)] by (simp add: Add)
  qed
next
  case (End_Prepare x)
  then show ?thesis using end_prepare_step by simp
next
  case Set_Save
  then show ?thesis by (cases st) (simp_all add: conc_simp SetSavePoint_def sp_of_def)
next
  case Roll_Back
  show ?thesis
  proof (cases "stack st")
    case Nil
    then show ?thesis by (auto simp: Roll_Back conc_simp RollbackToSavePoint_def split: option.splits)
  next
    case (Cons x l)
    then have st: "st = Some (x # l)" by (auto split: option.splits)
    with assms(1) have p: "prefix x us" by (simp add: nested_def)
    note ps = prefix_size [OF p]
    have small: "count_of x < 2 ^ 31" "count_of us < 2 ^ 31" using ps(2) assms(2) by simp_all
    have cut: "(raw m (replicate 8 0) n (enc_all us) fl sps wal)
        \<lparr>rep := take (12 + length (enc_all x)) (rep (raw m (replicate 8 0) n (enc_all us) fl sps wal))\<rparr> =
        raw m (replicate 8 0) n (enc_all x) fl sps wal" for n fl sps wal
      by (simp add: raw_def ps(4))
    show ?thesis
    proof (cases "x = us")
      case True
      then show ?thesis by (simp add: Roll_Back st conc_simp RollbackToSavePoint_def sp_of_def Let_def)
    next
      case False
      then have "length (enc_all x) \<noteq> length (enc_all us)" using ps(3) by simp
      then show ?thesis
        using ps(1,2) small cut
        by (simp add: Roll_Back st conc_simp RollbackToSavePoint_def sp_of_def Let_def sint_of_nat)
    qed
  qed
next
  case Pop_Save
  then show ?thesis by (auto simp: conc_simp PopSavePoint_def split: option.splits list.splits)
next
  case Clear_All
  have "batch_clear (conc m (us, st)) = conc m ([], map_option (\<lambda>_. []) st)"
    by (cases st) (simp_all add: batch_clear_def conc_simp raw_def kHeader_def eval_nat_numeral)
  then show ?thesis by (simp add: Clear_All)
qed

lemma nested_step:
  assumes "nested s" "spec_call m c s = Inr (r, s')"
  shows "nested s' \<and> count_of (fst s') \<le> Suc (count_of (fst s))"
proof -
  obtain us st where s: "s = (us, st)" by fastforce
  have st: "sorted_wrt (\<lambda>x y. prefix y x) (us # stack st)" using assms(1) by (simp add: nested_def s)
  show ?thesis
  proof (cases c)
    case (Add u)
    with st assms(2) show ?thesis by (auto simp: s nested_def split: if_splits intro: prefix_prefix)
  next
    case (End_Prepare x)
    with assms(2) show ?thesis
      by (cases st) (auto simp: s nested_def split: list.splits update.splits)
  next
    case Set_Save
    with st assms(2) show ?thesis by (auto simp: s nested_def)
  next
    case Roll_Back
    have "nested s'" using Roll_Back st assms(2) by (auto simp: s nested_def split: option.splits list.splits)
    moreover have "prefix (fst s') us" using Roll_Back st assms(2) by (auto simp: s split: option.splits list.splits)
    ultimately show ?thesis using prefix_size(2) [of "fst s'" us] by (simp add: s)
  next
    case Pop_Save
    with st assms(2) show ?thesis by (auto simp: s nested_def split: option.splits list.splits)
  next
    case Clear_All
    with assms(2) show ?thesis by (cases st) (auto simp: s nested_def)
  qed
qed

lemma calls_refine:
  assumes "nested s" "count_of (fst s) + length cs < 2 ^ 31"
  shows "run_calls (run_call le) cs (conc m s) =
      map_sum id (\<lambda>(rs, y). (rs, conc m y)) (run_calls (spec_call m) cs s)"
  using assms
proof (induction cs arbitrary: s)
  case (Cons c cs)
  obtain us st where s: "s = (us, st)" by fastforce
  have step: "run_call le c (conc m s) = map_sum id (\<lambda>(r, y). (r, conc m y)) (spec_call m c s)"
    unfolding s by (rule call_step) (use Cons.prems s in simp_all)
  show ?case
  proof (cases "spec_call m c s")
    case (Inl e)
    then show ?thesis by (simp add: step)
  next
    case (Inr a)
    obtain r s' where a: "a = (r, s')" by (cases a)
    have "nested s' \<and> count_of (fst s') \<le> Suc (count_of (fst s))"
      by (rule nested_step) (use Cons.prems(1) Inr a in auto)
    then have "run_calls (run_call le) cs (conc m s') =
        map_sum id (\<lambda>(rs, y). (rs, conc m y)) (run_calls (spec_call m) cs s')"
      using Cons.prems(2) by (intro Cons.IH) simp_all
    then show ?thesis
      by (cases "run_calls (spec_call m) cs s'") (auto simp: step Inr a)
  qed
qed simp

fun wf_call :: "call \<Rightarrow> bool" where
  "wf_call (Add u) = wf_update u"
| "wf_call (End_Prepare x) = (length x < 2 ^ 32)"
| "wf_call _ = True"

definition wf_spec :: "batch_spec \<Rightarrow> bool" where
  "wf_spec = (\<lambda>(us, st). \<forall>x\<in>set (us # stack st). \<forall>u\<in>set x. wf_update u)"

lemma wf_step:
  assumes "wf_spec s" "wf_call c" "spec_call m c s = Inr (r, s')"
  shows "wf_spec s'"
proof -
  have mk: "wf_update U_BeginPrepare" "wf_update (U_EndPrepare x) \<longleftrightarrow> length x < 2 ^ 32" for x
    by (simp_all add: wf_update_def)
  obtain us st where s: "s = (us, st)" by fastforce
  show ?thesis
    using assms
    by (cases c; cases st)
      (auto simp: s wf_spec_def mk split: if_splits list.splits update.splits)
qed

lemma calls_wf:
  assumes "wf_spec s" "\<forall>c\<in>set cs. wf_call c" "run_calls (spec_call m) cs s = Inr (rs, s')"
  shows "wf_spec s'"
  using assms
proof (induction cs arbitrary: s rs)
  case (Cons c cs)
  obtain r s1 rs1 where "spec_call m c s = Inr (r, s1)" "run_calls (spec_call m) cs s1 = Inr (rs1, s')"
    using Cons.prems(3) by (auto simp: bind_res_def split: sum.splits)
  then show ?case using Cons.IH [of s1 rs1] wf_step [of s c m r s1] Cons.prems by auto
qed simp

lemma flag_distinct: "flag f AND flag g \<noteq> 0 \<longleftrightarrow> f = g"
  by (cases f; cases g) (simp_all add: flag_def)

lemma flags_of_has: "flags_of us AND flag f \<noteq> 0 \<longleftrightarrow> (\<exists>u\<in>set us. flag_of u = Some f)"
proof (induction us)
  case (Cons u us)
  have "opt_flag u AND flag f \<noteq> 0 \<longleftrightarrow> flag_of u = Some f"
    by (cases "flag_of u") (auto simp: opt_flag_def flag_distinct)
  with Cons show ?case by (auto simp: bit.conj_disj_distrib2 or_eq_0_iff)
qed simp

lemma classify: "deliver_all classifier us fl = Inr (OK, fl OR flags_of us)"
proof (induction us arbitrary: fl)
  case (Cons u us)
  have "deliver1 classifier u fl = Inr (OK, fl OR opt_flag u)"
    by (cases u) (simp_all add: classifier_def classified_def told_def opt_flag_def)
  then show ?case by (simp add: Cons or.assoc)
qed simp

definition encoded :: "bool \<Rightarrow> write_batch \<Rightarrow> update list \<Rightarrow> bool" where
  "encoded le b us \<longleftrightarrow> (\<exists>seq. length seq = 8 \<and>
     rep b = seq @ le_bytes 4 (word_of_nat (count_of us) :: u32) @ enc_all us) \<and>
     (content_flags b AND flag DEFERRED \<noteq> 0 \<or> content_flags b = flags_of us) \<and> (\<forall>u\<in>set us. wf_update u) \<and> count_of us < 2 ^ 31"

lemma encoded_Iterate:
  assumes "encoded le b us" "\<And>s. h_continue h s"
  shows "Iterate le h b s = deliver_all h us s"
proof -
  obtain seq where seq: "length seq = 8" "rep b = seq @ le_bytes 4 (word_of_nat (count_of us) :: u32) @ enc_all us"
    and fl: "content_flags b AND flag DEFERRED \<noteq> 0 \<or> content_flags b = flags_of us" and wf: "\<forall>u\<in>set us. wf_update u" "count_of us < 2 ^ 31"
    using assms(1) by (auto simp: encoded_def)
  have ok: "flags_ok (content_flags b) us"
    using fl flags_of_has [of us] by (fastforce simp: flags_ok_def)
  have n: "batch_count le b = Inr (word_of_nat (count_of us))" by (simp add: batch_count_def seq)
  note it = iterate_updates [where s = s and v = no_vars and found = 0 and h = h, OF wf(1) ok assms(2)]
  show ?thesis
  proof (cases "deliver_all h us s")
    case (Inl e)
    with it show ?thesis by (simp add: Iterate_def seq kHeader_def)
  next
    case (Inr r)
    then obtain st s' where r: "r = (st, s')" by (cases r)
    with it Inr obtain k where "iterate_loop h (content_flags b) (enc_all us) no_vars 0 s = Inr (st, k, s')"
        "st = OK \<longrightarrow> k = count_of us" by auto
    then show ?thesis using n by (simp add: Iterate_def seq kHeader_def Inr r sint_of_nat [OF wf(2)])
  qed
qed

lemma encoded_flags: "encoded le b us \<Longrightarrow> ComputeContentFlags le b = Inr (flags_of us)"
proof -
  assume e: "encoded le b us"
  have no: "flags_of us AND flag DEFERRED = 0"
  proof -
    have "flag_of u \<noteq> Some DEFERRED" for u by (cases u) simp_all
    then show ?thesis using flags_of_has [of us DEFERRED] by blast
  qed
  have it: "Iterate le classifier b 0 = Inr (OK, flags_of us)"
    using encoded_Iterate [OF e, of classifier 0] by (simp add: classify) (simp add: classifier_def)
  show ?thesis
    using e no it by (auto simp: ComputeContentFlags_def encoded_def)
qed

lemma encoded_conc:
  assumes "wf_spec s" "count_of (fst s) < 2 ^ 31"
  shows "encoded le (conc m s) (fst s)"
  using assms unfolding encoded_def
  by (cases s) (auto simp: conc_simp wf_spec_def intro!: exI [of _ "replicate 8 0"])

lemma encoded_string: "encoded le b us \<Longrightarrow> encoded le (batch_of (rep b)) us"
  by (simp add: encoded_def batch_of_def) (simp add: flag_def)

lemma encoded_SetSequence:
  assumes "encoded le b us" "SetSequence le q b = Inr b'"
  shows "encoded le b' us" "Sequence le b' = Inr q"
  using assms by (auto simp: encoded_def SetSequence_def Sequence_def EncodeFixed64_le split: if_splits
      intro!: exI [of _ "le_bytes 8 q"])

text \<open>C26: a batch is the list of its updates. Any sequence of less than \<open>2 ^ 31\<close> calls on a new batch (updates
  are added, a prepared section is closed, save points are set, rolled back to and dropped, the batch is
  cleared) has the results that the same calls have on a list of updates with a stack of earlier lists, and
  leaves the batch that stands for that list: a string with the number of the updates in its header, the
  flags of the kinds of updates in it, and save points with the sizes, counts and flags of the lists in the
  stack. An update that makes the batch larger than \<open>m\<close> is taken back as a whole.\<close>

theorem batch_calls_refine:
  assumes "length cs < 2 ^ 31"
  shows "run_calls (run_call le) cs (new_batch m) =
    map_sum id (\<lambda>(rs, y). (rs, conc m y)) (run_calls (spec_call m) cs ([], None))"
  unfolding new_batch_conc by (rule calls_refine) (use assms in \<open>simp_all add: nested_def\<close>)

lemma calls_count:
  assumes "nested s" "run_calls (spec_call m) cs s = Inr (rs, s')"
  shows "count_of (fst s') \<le> count_of (fst s) + length cs"
  using assms
proof (induction cs arbitrary: s rs)
  case (Cons c cs)
  obtain r s1 rs1 where "spec_call m c s = Inr (r, s1)" "run_calls (spec_call m) cs s1 = Inr (rs1, s')"
    using Cons.prems(2) by (auto simp: bind_res_def split: sum.splits)
  then show ?case using Cons.IH [of s1 rs1] nested_step [of s m c r s1] Cons.prems(1) by fastforce
qed simp

lemma calls_encoded:
  assumes "run_calls (spec_call m) cs ([], None) = Inr (rs, s)" "\<forall>c\<in>set cs. wf_call c" "length cs < 2 ^ 31"
  shows "encoded le (conc m s) (fst s)"
proof (rule encoded_conc)
  show "wf_spec s" by (rule calls_wf [OF _ assms(2,1)]) (simp add: wf_spec_def)
  show "count_of (fst s) < 2 ^ 31" using calls_count [OF _ assms(1)] assms(3) by (simp add: nested_def)
qed

text \<open>C25: what is put into a batch is read from it. After any calls, \<open>Iterate\<close> hands the updates of the
  batch to a handler, in order, until one of them is refused, and \<open>ComputeContentFlags\<close> knows their
  kinds. The same holds of a batch that is made from the string of the first after a sequence number has
  been stored in it, as the recovery of a log makes it: its flags are computed when they are first needed.\<close>

theorem batch_read_back:
  assumes "run_calls (spec_call m) cs ([], None) = Inr (rs, us, st)" "\<forall>c\<in>set cs. wf_call c" "length cs < 2 ^ 31"
    "\<And>s. h_continue h s"
  shows "\<exists>b. run_calls (run_call le) cs (new_batch m) = Inr (rs, b) \<and>
      Iterate le h b s = deliver_all h us s \<and> ComputeContentFlags le b = Inr (flags_of us) \<and>
      (\<exists>b'. SetSequence le q b = Inr b' \<and> Sequence le (batch_of (rep b')) = Inr q \<and>
        Iterate le h (batch_of (rep b')) s = deliver_all h us s \<and>
        ComputeContentFlags le (batch_of (rep b')) = Inr (flags_of us))"
proof (intro exI conjI)
  let ?b = "conc m (us, st)"
  let ?b' = "?b\<lparr>rep := EncodeFixed64 le q @ drop 8 (rep ?b)\<rparr>"
  show "run_calls (run_call le) cs (new_batch m) = Inr (rs, ?b)"
    using calls_refine [of "([], None)" cs le m] assms(1,3) by (simp add: nested_def new_batch_conc)
  have e: "encoded le ?b us" using calls_encoded [OF assms(1-3)] by simp
  then show "Iterate le h ?b s = deliver_all h us s" "ComputeContentFlags le ?b = Inr (flags_of us)"
    using encoded_Iterate [OF _ assms(4)] encoded_flags by blast+
  show q: "SetSequence le q ?b = Inr ?b'" by (simp add: SetSequence_def conc_simp)
  note e' = encoded_SetSequence [OF e q]
  then show "Sequence le (batch_of (rep ?b')) = Inr q" by (simp add: Sequence_def batch_of_def)
  show "Iterate le h (batch_of (rep ?b')) s = deliver_all h us s"
    "ComputeContentFlags le (batch_of (rep ?b')) = Inr (flags_of us)"
    using encoded_Iterate [OF encoded_string [OF e'(1)] assms(4)] encoded_flags [OF encoded_string [OF e'(1)]] by auto
qed

lemma batch_read_back_witness:
  "\<exists>b. run_calls (run_call True) [Add U_Noop, Add (U_Put 0 [1] [2]), Set_Save, Add (U_Delete 7 [1]), Roll_Back, End_Prepare [9]] (new_batch 0) =
        Inr ([OK, OK, OK, OK, OK, OK], b) \<and>
      Iterate True classifier b 0 = Inr (OK, flags_of [U_BeginPrepare, U_Put 0 [1] [2], U_EndPrepare [9]])"
proof -
  have "\<exists>b. run_calls (run_call True) [Add U_Noop, Add (U_Put 0 [1] [2]), Set_Save, Add (U_Delete 7 [1]), Roll_Back, End_Prepare [9]]
          (new_batch 0) = Inr ([OK, OK, OK, OK, OK, OK], b) \<and>
      Iterate True classifier b 0 = deliver_all classifier [U_BeginPrepare, U_Put 0 [1] [2], U_EndPrepare [9]] 0 \<and>
      ComputeContentFlags True b = Inr (flags_of [U_BeginPrepare, U_Put 0 [1] [2], U_EndPrepare [9]]) \<and>
      (\<exists>b'. SetSequence True 5 b = Inr b' \<and> Sequence True (batch_of (rep b')) = Inr 5 \<and>
        Iterate True classifier (batch_of (rep b')) 0 = deliver_all classifier [U_BeginPrepare, U_Put 0 [1] [2], U_EndPrepare [9]] 0 \<and>
        ComputeContentFlags True (batch_of (rep b')) = Inr (flags_of [U_BeginPrepare, U_Put 0 [1] [2], U_EndPrepare [9]]))"
    by (rule batch_read_back) (simp_all add: wf_update_def classifier_def)
  then show ?thesis unfolding classify or.left_neutral by meson
qed

text \<open>C27: batches are put together. \<open>Append\<close> of a batch whose end for the log was marked after its first
  updates \<open>ws\<close> adds those to the destination for the log, and all its updates otherwise; a handler is told
  the updates of both, in order. The sum of the counts has to be below \<open>2 ^ 31\<close>.\<close>

theorem append_delivers:
  assumes "encoded le dst us" "encoded le src0 ws" "MarkWalTerminationPoint le src0 = Inr src1"
    "encoded le src (ws @ vs)" "wal_term_point src = wal_term_point src1" "length (rep src) < 2 ^ 64"
    "count_of us + count_of (ws @ vs) < 2 ^ 31" "\<And>s. h_continue h s"
  shows "\<exists>b. batch_append le dst src wal_only = Inr (OK, b) \<and>
    Iterate le h b s = deliver_all h (us @ ws @ (if wal_only then [] else vs)) s \<and>
    encoded le b (us @ ws @ (if wal_only then [] else vs))"
proof -
  obtain p q r where dst: "rep dst = p @ le_bytes 4 (word_of_nat (count_of us) :: u32) @ enc_all us" "length p = 8"
    and src0: "rep src0 = q @ le_bytes 4 (word_of_nat (count_of ws) :: u32) @ enc_all ws" "length q = 8"
    and src: "rep src = r @ le_bytes 4 (word_of_nat (count_of (ws @ vs)) :: u32) @ enc_all (ws @ vs)" "length r = 8"
    using assms(1,2,4) by (fastforce simp: encoded_def)
  have wal: "wal_term_point src =
      \<lparr>sp_size = 12 + length (enc_all ws), sp_count = word_of_nat (count_of ws), sp_flags = content_flags src0\<rparr>"
    using assms(3,5) src0 by (auto simp: MarkWalTerminationPoint_def save_of_def batch_count_def)
  have small: "12 + length (enc_all ws) < 2 ^ 64" using assms(6) src by simp
  have nz: "(word_of_nat (12 + length (enc_all ws)) :: u64) \<noteq> 0"
    using small by (simp only: word_of_nat_eq_0_iff) (auto dest!: dvd_imp_le)
  have clr: "\<not> is_cleared (wal_term_point src)"
    using nz by (simp add: is_cleared_def wal or_eq_0_iff del: of_nat_add)
  define n where "n = count_of ws + (if wal_only then 0 else count_of vs)"
  define fl where "fl = (if wal_only then content_flags src0 else content_flags src)"
  define size where "size = 12 + length (enc_all ws) + (if wal_only then 0 else length (enc_all vs))"
  have cnt: "batch_count le src = Inr (word_of_nat (count_of (ws @ vs)))" "batch_count le dst = Inr (word_of_nat (count_of us))"
    by (simp_all add: batch_count_def src dst)
  have pick: "(if wal_only \<and> \<not> is_cleared (wal_term_point src)
      then Inr (sp_size (wal_term_point src), sp_count (wal_term_point src), sp_flags (wal_term_point src))
      else bind_res (batch_count le src) (\<lambda>n. Inr (length (rep src), n, content_flags src))) = Inr (size, word_of_nat n, fl)"
    unfolding cnt using clr by (simp add: wal src size_def n_def fl_def)
  have b: "n < 2 ^ 31" "count_of us + n < 2 ^ 31" using assms(7) by (auto simp: n_def)
  have set: "SetCount le (word_of_nat (count_of us) + word_of_nat n) dst =
      Inr (dst\<lparr>rep := p @ le_bytes 4 (word_of_nat (count_of us + n) :: u32) @ enc_all us\<rparr>)"
    using dst by (simp add: SetCount_def EncodeFixed32_le)
  let ?vs = "if wal_only then [] else vs"
  let ?b = "dst\<lparr>rep := p @ le_bytes 4 (word_of_nat (count_of us + n) :: u32) @ enc_all us @ enc_all ws @ enc_all ?vs,
      content_flags := content_flags dst OR fl\<rparr>"
  have "batch_append le dst src wal_only = Inr (OK, ?b)"
    using src b sint_of_nat [of n] sint_of_nat [of "count_of us"]
    unfolding batch_append_def Let_def pick by (simp add: cnt set size_def kHeader_def)
  moreover have "encoded le ?b (us @ ws @ ?vs)"
  proof -
    have "content_flags src0 AND flag DEFERRED \<noteq> 0 \<or> content_flags src0 = flags_of ws"
      "content_flags src AND flag DEFERRED \<noteq> 0 \<or> content_flags src = flags_of (ws @ vs)"
      "content_flags dst AND flag DEFERRED \<noteq> 0 \<or> content_flags dst = flags_of us"
      using assms(1,2,4) by (simp_all add: encoded_def)
    then have "(content_flags dst OR fl) AND flag DEFERRED \<noteq> 0 \<or> content_flags dst OR fl = flags_of (us @ ws @ ?vs)"
      by (auto simp: fl_def bit.conj_disj_distrib2 or_eq_0_iff)
    then show ?thesis
      using assms(1,4) b dst(2) by (auto simp: encoded_def n_def intro!: exI [of _ p])
  qed
  ultimately show ?thesis using encoded_Iterate [OF _ assms(8)] by blast
qed


lemma batch_calls_refine_witness:
  "run_calls (run_call False) [Add (U_Put 0 [1] [2]), Set_Save, Add (U_LogData [9, 9, 9, 9]), Add (U_Merge 3 [7] [8]), Roll_Back] (new_batch 23) =
    Inr ([OK, OK, OK, MemoryLimit, OK], conc 23 ([U_Put 0 [1] [2]], Some []))"
proof -
  have "run_calls (run_call False) [Add (U_Put 0 [1] [2]), Set_Save, Add (U_LogData [9, 9, 9, 9]), Add (U_Merge 3 [7] [8]), Roll_Back] (new_batch 23) =
    map_sum id (\<lambda>(rs, y). (rs, conc 23 y))
      (run_calls (spec_call 23) [Add (U_Put 0 [1] [2]), Set_Save, Add (U_LogData [9, 9, 9, 9]), Add (U_Merge 3 [7] [8]), Roll_Back] ([], None))"
    by (rule batch_calls_refine) simp
  then show ?thesis
    by (simp add: kHeader_def enc_all_def tagged_def EncodeVarint32_def)
qed

text \<open>The functions that take strings in parts do what the others do with the strings put together.\<close>

theorem parts_concat:
  "batch_put_parts le cf ks vs b = batch_put le cf (concat ks) (concat vs) b \<and>
   batch_delete_parts le cf ks b = batch_delete le cf (concat ks) b \<and>
   batch_single_delete_parts le cf ks b = batch_single_delete le cf (concat ks) b \<and>
   batch_delete_range_parts le cf ks vs b = batch_delete_range le cf (concat ks) (concat vs) b \<and>
   batch_merge_parts le cf ks vs b = batch_merge le cf (concat ks) (concat vs) b"
  by (simp add: batch_put_parts_def batch_put_def batch_delete_parts_def batch_delete_def
      batch_single_delete_parts_def batch_single_delete_def batch_delete_range_parts_def batch_delete_range_def
      batch_merge_parts_def batch_merge_def parts_whole)

lemma append_delivers_witness:
  "\<exists>b. batch_append True (conc 0 ([U_Put 0 [1] [2]], None))
      ((conc 0 ([U_Delete 0 [1], U_Put 4 [3] []], None))\<lparr>wal_term_point := sp_of [U_Delete 0 [1]]\<rparr>) True = Inr (OK, b) \<and>
    Iterate True classifier b 0 = Inr (OK, flags_of [U_Put 0 [1] [2], U_Delete 0 [1]])"
proof -
  let ?us = "[U_Put 0 [1] [2]]" and ?ws = "[U_Delete 0 [1 :: byte]]" and ?vs = "[U_Put 4 [3] []]"
  let ?src = "(conc 0 (?ws @ ?vs, None))\<lparr>wal_term_point := sp_of ?ws\<rparr>"
  let ?src1 = "(conc 0 (?ws, None))\<lparr>wal_term_point := sp_of ?ws\<rparr>"
  have enc: "encoded True (conc 0 (us, None)) us" if "set us \<subseteq> {U_Put 0 [1] [2], U_Delete 0 [1], U_Put 4 [3] []}" "length us < 5" for us
  proof -
    have "count_of us < 5" using that(2) length_filter_le [of is_counted us] by linarith
    then show ?thesis using encoded_conc [of "(us, None)"] that(1) by (fastforce simp: wf_spec_def wf_update_def)
  qed
  have mark: "MarkWalTerminationPoint True (conc 0 (?ws, None)) = Inr ?src1"
    by (simp add: MarkWalTerminationPoint_def conc_simp sp_of_def)
  have e: "encoded True ?src (?ws @ ?vs)" using enc [of "?ws @ ?vs"] by (simp add: encoded_def)
  have all: "h_continue classifier s" for s by (simp add: classifier_def)
  have len: "length (rep ?src) < 2 ^ 64"
    by (simp add: conc_simp enc_all_def tagged_def EncodeVarint32_def)
  show ?thesis
    using append_delivers [where h = classifier and s = 0 and wal_only = True, OF enc [of ?us] enc [of ?ws] mark e _ len _ all]
    unfolding classify by auto
qed

end
