(* ===== verification/SkipList.thy ===== *)
theory SkipList
  imports InternalKey
begin

section \<open>RocksDB: the skip list of the memtable\<close>

text \<open>
  \<open>memtable/inlineskiplist.h\<close>; its concurrent insertion is in \<open>SkipListThreads\<close>. A node has a key and one pointer per level;
  here nodes are numbers, 0 is \<open>head_\<close>, \<open>None\<close> the null pointer, and \<open>nxt l n l\<close> the pointer of the node \<open>n\<close>
  on level \<open>l\<close>. An insertion starts from a \<open>Splice\<close>, the places on all levels where an earlier one ended;
  it is checked, repaired where the new key is not between its nodes, and used. Every assertion of the code
  is a branch of the model, and a loop that would not end has the value \<open>None\<close>.
\<close>

subsection \<open>Nodes\<close>

record 'k skiplist =
  nxt :: "nat \<Rightarrow> nat \<Rightarrow> nat option"
  node_key :: "nat \<Rightarrow> 'k"
  stashed_height :: "nat \<Rightarrow> nat"
  fresh :: nat
  max_height :: nat

text \<open>\<open>height_\<close>, \<open>prev_\<close> and \<open>next_\<close>; the arrays have one element more than the list has levels.\<close>

record splice =
  sp_height :: nat
  prevs :: "nat \<Rightarrow> nat"
  nexts :: "nat \<Rightarrow> nat option"

definition new_splice :: splice where
  "new_splice = \<lparr>sp_height = 0, prevs = \<lambda>_. 0, nexts = \<lambda>_. None\<rparr>"

text \<open>A new list; \<open>k\<close> fills the key of the head, which is never read.\<close>

definition new_skiplist :: "'k \<Rightarrow> 'k skiplist" where
  "new_skiplist k =
     \<lparr>nxt = \<lambda>_ _. None, node_key = \<lambda>_. k, stashed_height = \<lambda>_. 0, fresh = 1, max_height = 1\<rparr>"

definition kMaxPossibleHeight :: nat where
  "kMaxPossibleHeight = 32"

text \<open>\<open>RandomHeight\<close>: \<open>rs\<close> are the numbers that \<open>rnd->Next()\<close> gives; when there are no more the next one is
  taken to be too large.\<close>

fun grow_height :: "nat \<Rightarrow> nat \<Rightarrow> nat \<Rightarrow> nat list \<Rightarrow> nat" where
  "grow_height km inverse_branching height [] = height"
| "grow_height km inverse_branching height (r # rs) =
     (if height < km \<and> height < kMaxPossibleHeight \<and> r < inverse_branching
      then grow_height km inverse_branching (height + 1) rs else height)"

definition RandomHeight :: "nat \<Rightarrow> nat \<Rightarrow> nat list \<Rightarrow> nat" where
  "RandomHeight km inverse_branching rs = grow_height km inverse_branching 1 rs"

definition AllocateKey :: "nat \<Rightarrow> 'k \<Rightarrow> 'k skiplist \<Rightarrow> nat \<times> 'k skiplist" where
  "AllocateKey height key l =
     (fresh l, l\<lparr>node_key := (node_key l)(fresh l := key), stashed_height := (stashed_height l)(fresh l := height),
                 fresh := fresh l + 1\<rparr>)"

definition SetNext :: "nat \<Rightarrow> nat \<Rightarrow> nat option \<Rightarrow> 'k skiplist \<Rightarrow> 'k skiplist" where
  "SetNext n level x l = l\<lparr>nxt := (nxt l)(n := (nxt l n)(level := x))\<rparr>"

text \<open>\<open>KeyIsAfterNode\<close>. It is not called for the head.\<close>

definition key_after :: "('k \<Rightarrow> 'k \<Rightarrow> int) \<Rightarrow> 'k skiplist \<Rightarrow> 'k \<Rightarrow> nat option \<Rightarrow> bool" where
  "key_after compare l key n = (case n of None \<Rightarrow> False | Some i \<Rightarrow> compare (node_key l i) key < 0)"

text \<open>The two assertions at the head of the searching loops.\<close>

definition search_ok :: "('k \<Rightarrow> 'k \<Rightarrow> int) \<Rightarrow> 'k skiplist \<Rightarrow> 'k \<Rightarrow> nat \<Rightarrow> nat option \<Rightarrow> bool" where
  "search_ok compare l key x next \<longleftrightarrow>
     (x = 0 \<or> (case next of None \<Rightarrow> True | Some n \<Rightarrow> key_after compare l (node_key l n) (Some x))) \<and>
     (x = 0 \<or> key_after compare l key (Some x))"

subsection \<open>Searching\<close>

partial_function (option) find_ge ::
  "('k \<Rightarrow> 'k \<Rightarrow> int) \<Rightarrow> 'k skiplist \<Rightarrow> 'k \<Rightarrow> nat \<Rightarrow> nat \<Rightarrow> nat option \<Rightarrow> nat option res option" where
  "find_ge compare l key x level last_bigger =
     (let next = nxt l x level;
          c = (case next of None \<Rightarrow> 1
               | Some n \<Rightarrow> if next = last_bigger then 1 else compare (node_key l n) key)
      in if \<not> search_ok compare l key x next then Some (Inl Assert_Failed)
         else if c = 0 \<or> 0 < c \<and> level = 0 then Some (Inr next)
         else if c < 0 then find_ge compare l key (the next) level last_bigger
         else find_ge compare l key x (level - 1) next)"

definition FindGreaterOrEqual :: "('k \<Rightarrow> 'k \<Rightarrow> int) \<Rightarrow> 'k skiplist \<Rightarrow> 'k \<Rightarrow> nat option res option" where
  "FindGreaterOrEqual compare l key = find_ge compare l key 0 (max_height l - 1) None"

text \<open>\<open>FindLessThan\<close> without the array \<open>prev\<close>, which no caller passes.\<close>

partial_function (option) find_lt ::
  "('k \<Rightarrow> 'k \<Rightarrow> int) \<Rightarrow> 'k skiplist \<Rightarrow> 'k \<Rightarrow> nat \<Rightarrow> nat \<Rightarrow> nat option \<Rightarrow> nat res option" where
  "find_lt compare l key x level last_not_after =
     (let next = nxt l x level
      in if \<not> search_ok compare l key x next then Some (Inl Assert_Failed)
         else if next \<noteq> last_not_after \<and> key_after compare l key next
         then find_lt compare l key (the next) level last_not_after
         else if level = 0 then Some (Inr x)
         else find_lt compare l key x (level - 1) next)"

definition FindLessThan :: "('k \<Rightarrow> 'k \<Rightarrow> int) \<Rightarrow> 'k skiplist \<Rightarrow> 'k \<Rightarrow> nat res option" where
  "FindLessThan compare l key = find_lt compare l key 0 (max_height l - 1) None"

partial_function (option) find_last :: "'k skiplist \<Rightarrow> nat \<Rightarrow> nat \<Rightarrow> nat option" where
  "find_last l x level =
     (case nxt l x level of
        None \<Rightarrow> if level = 0 then Some x else find_last l x (level - 1)
      | Some n \<Rightarrow> find_last l n level)"

definition FindLast :: "'k skiplist \<Rightarrow> nat option" where
  "FindLast l = find_last l 0 (max_height l - 1)"

partial_function (option) estimate ::
  "('k \<Rightarrow> 'k \<Rightarrow> int) \<Rightarrow> nat \<Rightarrow> 'k skiplist \<Rightarrow> 'k \<Rightarrow> nat \<Rightarrow> nat \<Rightarrow> u64 \<Rightarrow> u64 res option" where
  "estimate compare branching l key x level count =
     (if \<not> (x = 0 \<or> compare (node_key l x) key < 0) then Some (Inl Assert_Failed)
      else (case nxt l x level of
          None \<Rightarrow> if level = 0 then Some (Inr count)
                  else estimate compare branching l key x (level - 1) (count * word_of_nat branching)
        | Some n \<Rightarrow>
            if 0 \<le> compare (node_key l n) key
            then if level = 0 then Some (Inr count)
                 else estimate compare branching l key x (level - 1) (count * word_of_nat branching)
            else estimate compare branching l key n level (count + 1)))"

definition EstimateCount :: "('k \<Rightarrow> 'k \<Rightarrow> int) \<Rightarrow> nat \<Rightarrow> 'k skiplist \<Rightarrow> 'k \<Rightarrow> u64 res option" where
  "EstimateCount compare branching l key = estimate compare branching l key 0 (max_height l - 1) 0"

definition Contains :: "('k \<Rightarrow> 'k \<Rightarrow> int) \<Rightarrow> 'k skiplist \<Rightarrow> 'k \<Rightarrow> bool res option" where
  "Contains compare l key =
     bind_run (FindGreaterOrEqual compare l key) (\<lambda>x.
       Some (Inr (case x of None \<Rightarrow> False | Some n \<Rightarrow> compare key (node_key l n) = 0)))"

subsection \<open>Iterators\<close>

text \<open>An iterator is the node it is at, or \<open>None\<close>.\<close>

definition it_next :: "'k skiplist \<Rightarrow> nat option \<Rightarrow> nat option res" where
  "it_next l it = (case it of None \<Rightarrow> Inl Assert_Failed | Some n \<Rightarrow> Inr (nxt l n 0))"

definition not_head :: "nat \<Rightarrow> nat option" where
  "not_head n = (if n = 0 then None else Some n)"

definition it_prev :: "('k \<Rightarrow> 'k \<Rightarrow> int) \<Rightarrow> 'k skiplist \<Rightarrow> nat option \<Rightarrow> nat option res option" where
  "it_prev compare l it =
     (case it of
        None \<Rightarrow> Some (Inl Assert_Failed)
      | Some n \<Rightarrow> bind_run (FindLessThan compare l (node_key l n)) (\<lambda>x. Some (Inr (not_head x))))"

definition it_seek :: "('k \<Rightarrow> 'k \<Rightarrow> int) \<Rightarrow> 'k skiplist \<Rightarrow> 'k \<Rightarrow> nat option res option" where
  "it_seek compare l target = FindGreaterOrEqual compare l target"

definition it_seek_to_first :: "'k skiplist \<Rightarrow> nat option" where
  "it_seek_to_first l = nxt l 0 0"

definition it_seek_to_last :: "'k skiplist \<Rightarrow> nat option res option" where
  "it_seek_to_last l = map_option (\<lambda>x. Inr (not_head x)) (FindLast l)"

partial_function (option) back_while ::
  "('k \<Rightarrow> 'k \<Rightarrow> int) \<Rightarrow> 'k skiplist \<Rightarrow> 'k \<Rightarrow> nat option \<Rightarrow> nat option res option" where
  "back_while compare l target it =
     (case it of
        None \<Rightarrow> Some (Inr None)
      | Some n \<Rightarrow>
          if compare target (node_key l n) < 0
          then (case it_prev compare l it of
                  None \<Rightarrow> None
                | Some (Inl e) \<Rightarrow> Some (Inl e)
                | Some (Inr it) \<Rightarrow> back_while compare l target it)
          else Some (Inr it))"

definition it_seek_for_prev :: "('k \<Rightarrow> 'k \<Rightarrow> int) \<Rightarrow> 'k skiplist \<Rightarrow> 'k \<Rightarrow> nat option res option" where
  "it_seek_for_prev compare l target =
     bind_run (it_seek compare l target) (\<lambda>it.
     bind_run (if it = None then it_seek_to_last l else Some (Inr it)) (\<lambda>it.
       back_while compare l target it))"

subsection \<open>Insertion\<close>

partial_function (option) FindSpliceForLevel ::
  "('k \<Rightarrow> 'k \<Rightarrow> int) \<Rightarrow> 'k skiplist \<Rightarrow> 'k \<Rightarrow> nat \<Rightarrow> nat option \<Rightarrow> nat \<Rightarrow> (nat \<times> nat option) res option" where
  "FindSpliceForLevel compare l key before after level =
     (let next = nxt l before level
      in if \<not> search_ok compare l key before next then Some (Inl Assert_Failed)
         else if next = after \<or> \<not> key_after compare l key next then Some (Inr (before, next))
         else FindSpliceForLevel compare l key (the next) after level)"

definition set_level :: "nat \<Rightarrow> nat \<times> nat option \<Rightarrow> splice \<Rightarrow> splice" where
  "set_level i r s = s\<lparr>prevs := (prevs s)(i := fst r), nexts := (nexts s)(i := snd r)\<rparr>"

text \<open>The loop of \<open>RecomputeSpliceLevels\<close>, from the level \<open>n - 1\<close> down to 0.\<close>

fun recompute_loop :: "('k \<Rightarrow> 'k \<Rightarrow> int) \<Rightarrow> 'k skiplist \<Rightarrow> 'k \<Rightarrow> nat \<Rightarrow> splice \<Rightarrow> splice res option" where
  "recompute_loop compare l key 0 s = Some (Inr s)"
| "recompute_loop compare l key (Suc i) s =
     bind_run (FindSpliceForLevel compare l key (prevs s (i + 1)) (nexts s (i + 1)) i) (\<lambda>r.
       recompute_loop compare l key i (set_level i r s))"

definition RecomputeSpliceLevels :: "('k \<Rightarrow> 'k \<Rightarrow> int) \<Rightarrow> 'k skiplist \<Rightarrow> 'k \<Rightarrow> nat \<Rightarrow> splice \<Rightarrow> splice res option" where
  "RecomputeSpliceLevels compare l key recompute_level s =
     (if recompute_level = 0 \<or> sp_height s < recompute_level then Some (Inl Assert_Failed)
      else recompute_loop compare l key recompute_level s)"

text \<open>\<open>while (f[i] == bad) ++i\<close>. The array has \<open>km + 1\<close> elements.\<close>

function skip_same :: "nat \<Rightarrow> (nat \<Rightarrow> 'a) \<Rightarrow> 'a \<Rightarrow> nat \<Rightarrow> nat res" where
  "skip_same km f bad i =
     (if km < i then Inl Out_Of_Range
      else if f i = bad then skip_same km f bad (i + 1) else Inr i)"
  by pat_completeness auto
termination by (relation "measure (\<lambda>(km, f, bad, i). Suc km - i)") auto

declare skip_same.simps [simp del]

lemma skip_same_ge: "skip_same km f bad i = Inr j \<Longrightarrow> i \<le> j \<and> (f i = bad \<longrightarrow> i < j) \<and> j \<le> km"
proof (induction km f bad i rule: skip_same.induct)
  case (1 km f bad i)
  from 1(2) show ?case
    by (subst (asm) skip_same.simps) (use 1(1) in \<open>fastforce split: if_splits\<close>)
qed

text \<open>The loop that looks for the lowest level at which the splice is tight and the key between its nodes.\<close>

function recompute_height ::
  "nat \<Rightarrow> ('k \<Rightarrow> 'k \<Rightarrow> int) \<Rightarrow> 'k skiplist \<Rightarrow> splice \<Rightarrow> 'k \<Rightarrow> bool \<Rightarrow> nat \<Rightarrow> nat \<Rightarrow> nat res" where
  "recompute_height km compare l s key allow_partial_splice_fix max_h i =
     (if \<not> i < max_h then Inr i
      else if nxt l (prevs s i) i \<noteq> nexts s i
      then recompute_height km compare l s key allow_partial_splice_fix max_h (i + 1)
      else if prevs s i \<noteq> 0 \<and> \<not> key_after compare l key (Some (prevs s i))
      then if allow_partial_splice_fix
           then bind_res (skip_same km (prevs s) (prevs s i) i) (\<lambda>i.
                  recompute_height km compare l s key allow_partial_splice_fix max_h i)
           else recompute_height km compare l s key allow_partial_splice_fix max_h max_h
      else if key_after compare l key (nexts s i)
      then if allow_partial_splice_fix
           then bind_res (skip_same km (nexts s) (nexts s i) i) (\<lambda>i.
                  recompute_height km compare l s key allow_partial_splice_fix max_h i)
           else recompute_height km compare l s key allow_partial_splice_fix max_h max_h
      else Inr i)"
  by pat_completeness auto
termination
  by (relation "measure (\<lambda>(km, compare, l, s, key, p, max_h, i). max_h - i)")
     (auto dest!: skip_same_ge)

declare recompute_height.simps [simp del]

text \<open>The new node \<open>x\<close> is linked on the levels \<open>is\<close>; \<open>r\<close> is \<open>recompute_height\<close>.\<close>

definition fix_level :: "('k \<Rightarrow> 'k \<Rightarrow> int) \<Rightarrow> 'k \<Rightarrow> nat \<Rightarrow> nat \<Rightarrow> splice \<Rightarrow> 'k skiplist \<Rightarrow> splice res option" where
  "fix_level compare key r i s l =
     (if r \<le> i \<and> nxt l (prevs s i) i \<noteq> nexts s i
      then bind_run (FindSpliceForLevel compare l key (prevs s i) None i) (\<lambda>p. Some (Inr (set_level i p s)))
      else Some (Inr s))"

definition link_ok :: "('k \<Rightarrow> 'k \<Rightarrow> int) \<Rightarrow> nat \<Rightarrow> nat \<Rightarrow> splice \<Rightarrow> 'k skiplist \<Rightarrow> bool" where
  "link_ok compare x i s l \<longleftrightarrow>
     (case nexts s i of None \<Rightarrow> True | Some n \<Rightarrow> compare (node_key l x) (node_key l n) < 0) \<and>
     (prevs s i = 0 \<or> compare (node_key l (prevs s i)) (node_key l x) < 0) \<and>
     nxt l (prevs s i) i = nexts s i"

fun link_levels ::
  "('k \<Rightarrow> 'k \<Rightarrow> int) \<Rightarrow> 'k \<Rightarrow> nat \<Rightarrow> nat \<Rightarrow> nat list \<Rightarrow> splice \<Rightarrow> 'k skiplist \<Rightarrow> (splice \<times> 'k skiplist) res option" where
  "link_levels compare key x r [] s l = Some (Inr (s, l))"
| "link_levels compare key x r (i # is) s l =
     bind_run (fix_level compare key r i s l) (\<lambda>s.
       if \<not> link_ok compare x i s l then Some (Inl Assert_Failed)
       else link_levels compare key x r is s (SetNext (prevs s i) i (Some x) (SetNext x i (nexts s i) l)))"

definition splice_asserts :: "('k \<Rightarrow> 'k \<Rightarrow> int) \<Rightarrow> 'k \<Rightarrow> splice \<Rightarrow> 'k skiplist \<Rightarrow> bool" where
  "splice_asserts compare key s l \<longleftrightarrow>
     prevs s (sp_height s) = 0 \<and> nexts s (sp_height s) = None \<and>
     list_all (\<lambda>i.
       (case nexts s i of None \<Rightarrow> True | Some n \<Rightarrow> compare key (node_key l n) < 0) \<and>
       (prevs s i = 0 \<or> compare (node_key l (prevs s i)) key \<le> 0) \<and>
       (prevs s (i + 1) = prevs s i \<or> prevs s (i + 1) = 0 \<or>
          compare (node_key l (prevs s (i + 1))) (node_key l (prevs s i)) < 0) \<and>
       (nexts s (i + 1) = nexts s i \<or> nexts s (i + 1) = None \<or>
          nexts s i \<noteq> None \<and> compare (node_key l (the (nexts s i))) (node_key l (the (nexts s (i + 1)))) < 0))
     [0..<sp_height s]"

text \<open>\<open>Insert\<close> of the allocated node \<open>x\<close>, without compare-and-swap.\<close>

definition Insert ::
  "nat \<Rightarrow> ('k \<Rightarrow> 'k \<Rightarrow> int) \<Rightarrow> nat \<Rightarrow> splice \<Rightarrow> bool \<Rightarrow> 'k skiplist \<Rightarrow> (splice \<times> 'k skiplist) res option" where
  "Insert km compare x s allow_partial_splice_fix l =
     (let key = node_key l x; height = stashed_height l x
      in if height < 1 \<or> km < height then Some (Inl Assert_Failed)
         else (let max_h = max (max_height l) height; l = l\<lparr>max_height := max_h\<rparr>
           in if kMaxPossibleHeight < max_h then Some (Inl Assert_Failed)
              else bind_run
                (if sp_height s < max_h
                 then Some (Inr (s\<lparr>sp_height := max_h, prevs := (prevs s)(max_h := 0), nexts := (nexts s)(max_h := None)\<rparr>, max_h))
                 else Some (map_sum id (Pair s) (recompute_height km compare l s key allow_partial_splice_fix max_h 0)))
                (\<lambda>(s, r).
                  if max_h < r then Some (Inl Assert_Failed)
                  else bind_run (if 0 < r then RecomputeSpliceLevels compare l key r s else Some (Inr s)) (\<lambda>s.
                       bind_run (link_levels compare key x r [0..<height] s l) (\<lambda>(s, l).
                         let s = s\<lparr>prevs := (\<lambda>i. if i < height then x else prevs s i)\<rparr>
                         in if splice_asserts compare key s l then Some (Inr (s, l)) else Some (Inl Assert_Failed))))))"

text \<open>The two calls that are not concurrent. A hint is what \<open>*hint\<close> points to, \<open>None\<close> the null pointer.\<close>

record 'k inserter =
  slist :: "'k skiplist"
  seq_splice :: splice
  hints :: "nat \<Rightarrow> splice option"

definition new_inserter :: "'k \<Rightarrow> 'k inserter" where
  "new_inserter k = \<lparr>slist = new_skiplist k, seq_splice = new_splice, hints = \<lambda>_. None\<rparr>"

definition Insert_key :: "nat \<Rightarrow> ('k \<Rightarrow> 'k \<Rightarrow> int) \<Rightarrow> nat \<Rightarrow> 'k inserter \<Rightarrow> 'k inserter res option" where
  "Insert_key km compare x m =
     bind_run (Insert km compare x (seq_splice m) False (slist m)) (\<lambda>(s, l).
       Some (Inr (m\<lparr>slist := l, seq_splice := s\<rparr>)))"

definition InsertWithHint :: "nat \<Rightarrow> ('k \<Rightarrow> 'k \<Rightarrow> int) \<Rightarrow> nat \<Rightarrow> nat \<Rightarrow> 'k inserter \<Rightarrow> 'k inserter res option" where
  "InsertWithHint km compare x hint m =
     bind_run (Insert km compare x (case hints m hint of None \<Rightarrow> new_splice | Some s \<Rightarrow> s) True (slist m)) (\<lambda>(s, l).
       Some (Inr (m\<lparr>slist := l, hints := (hints m)(hint \<mapsto> s)\<rparr>)))"

text \<open>Insertions one after the other; the numbers are drawn for the height of the node.\<close>

datatype 'k insertion =
  Seq_Insert "nat list" 'k
| Hint_Insert nat "nat list" 'k

fun ins_key :: "'k insertion \<Rightarrow> 'k" where
  "ins_key (Seq_Insert rs k) = k"
| "ins_key (Hint_Insert h rs k) = k"

fun insert_one :: "nat \<Rightarrow> nat \<Rightarrow> ('k \<Rightarrow> 'k \<Rightarrow> int) \<Rightarrow> 'k insertion \<Rightarrow> 'k inserter \<Rightarrow> 'k inserter res option" where
  "insert_one km inverse_branching compare (Seq_Insert rs k) m =
     (let (x, l) = AllocateKey (RandomHeight km inverse_branching rs) k (slist m)
      in Insert_key km compare x (m\<lparr>slist := l\<rparr>))"
| "insert_one km inverse_branching compare (Hint_Insert h rs k) m =
     (let (x, l) = AllocateKey (RandomHeight km inverse_branching rs) k (slist m)
      in InsertWithHint km compare x h (m\<lparr>slist := l\<rparr>))"

fun insert_all ::
  "nat \<Rightarrow> nat \<Rightarrow> ('k \<Rightarrow> 'k \<Rightarrow> int) \<Rightarrow> 'k insertion list \<Rightarrow> 'k inserter \<Rightarrow> 'k inserter res option" where
  "insert_all km inverse_branching compare [] m = Some (Inr m)"
| "insert_all km inverse_branching compare (a # as) m =
     bind_run (insert_one km inverse_branching compare a m) (insert_all km inverse_branching compare as)"

end
