(* ===== verification/SkipListSearch.thy ===== *)
theory SkipListSearch
  imports SkipList
begin

section \<open>RocksDB: searching the skip list\<close>

text \<open>
  The invariant \<open>sl_inv\<close> of the skip list and what the searches compute under it, for every comparison that is
  a \<open>key_order\<close>. A search goes right and down through places that lie before the key; that a place is such a
  place is \<open>reaches\<close>.
\<close>

subsection \<open>What a skip list is\<close>

text \<open>\<open>ns\<close> are the nodes in the order of their keys. Level \<open>i\<close> links the nodes that are higher than \<open>i\<close>.\<close>

fun chain :: "(nat \<Rightarrow> nat option) \<Rightarrow> nat \<Rightarrow> nat list \<Rightarrow> bool" where
  "chain f x [] \<longleftrightarrow> f x = None"
| "chain f x (y # ys) \<longleftrightarrow> f x = Some y \<and> chain f y ys"

abbreviation on_level :: "'k skiplist \<Rightarrow> nat \<Rightarrow> nat list \<Rightarrow> nat list" where
  "on_level l i ns \<equiv> filter (\<lambda>n. i < stashed_height l n) ns"

definition sl_inv :: "('k \<Rightarrow> 'k \<Rightarrow> int) \<Rightarrow> nat \<Rightarrow> 'k skiplist \<Rightarrow> nat list \<Rightarrow> bool" where
  "sl_inv compare km l ns \<longleftrightarrow>
     sorted_wrt (\<lambda>a b. compare (node_key l a) (node_key l b) < 0) ns \<and>
     (\<forall>n\<in>set ns. 0 < n \<and> n < fresh l \<and> 0 < stashed_height l n \<and> stashed_height l n \<le> max_height l) \<and>
     0 < fresh l \<and> 0 < max_height l \<and> max_height l \<le> km \<and> km \<le> kMaxPossibleHeight \<and>
     (\<forall>i<km. chain (\<lambda>n. nxt l n i) 0 (on_level l i ns))"

abbreviation hd_opt :: "'a list \<Rightarrow> 'a option" where
  "hd_opt xs \<equiv> (case xs of [] \<Rightarrow> None | x # _ \<Rightarrow> Some x)"

lemma hd_opt_in: "hd_opt xs = Some y \<Longrightarrow> y \<in> set xs"
  by (cases xs) simp_all

lemma chain_next: "chain f x (as @ bs) \<Longrightarrow> f (last (x # as)) = hd_opt bs"
proof (induction as arbitrary: x)
  case Nil
  then show ?case by (cases bs) simp_all
qed auto

lemma chain_cong: "(\<And>n. n \<in> insert x (set ns) \<Longrightarrow> f n = g n) \<Longrightarrow> chain f x ns \<longleftrightarrow> chain g x ns"
  by (induction ns arbitrary: x) auto

lemma chain_insert:
  assumes "chain f x (as @ bs)" "distinct (x # as @ bs)" "n \<notin> set (x # as @ bs)"
  shows "chain (f(n := hd_opt bs, last (x # as) := Some n)) x (as @ n # bs)"
  using assms
proof (induction as arbitrary: x)
  case Nil
  define g where "g = f(n := hd_opt bs, x := Some n)"
  have g: "g x = Some n" "g n = hd_opt bs" using Nil by (simp_all add: g_def)
  have "chain g b bs' \<longleftrightarrow> chain f b bs'" if "bs = b # bs'" for b bs'
    using Nil that by (intro chain_cong) (auto simp: g_def)
  with Nil g have "chain g x ([] @ n # bs)" by (cases bs) auto
  then show ?case by (simp only: g_def last.simps refl if_True)
next
  case (Cons a as)
  then show ?case by auto
qed

lemma last_in: "last (x # xs) = x \<or> last (x # xs) \<in> set xs"
  by (cases xs rule: rev_cases) simp_all

lemma sl_levelD: "sl_inv compare km l ns \<Longrightarrow> i < km \<Longrightarrow> chain (\<lambda>n. nxt l n i) 0 (on_level l i ns)"
  by (simp add: sl_inv_def)

lemma keys_cong:
  assumes "node_key l' = node_key l"
  shows "search_ok compare l' = search_ok compare l" "key_after compare l' = key_after compare l"
  by (intro ext, simp add: search_ok_def key_after_def assms split: option.split)+

text \<open>One step of the loops.\<close>

lemma Find_found:
  "search_ok compare l key b (nxt l b i) \<Longrightarrow> nxt l b i = after \<or> \<not> key_after compare l key (nxt l b i) \<Longrightarrow>
    FindSpliceForLevel compare l key b after i = Some (Inr (b, nxt l b i))"
  by (subst FindSpliceForLevel.simps) (auto simp: Let_def)

lemma Find_more:
  "search_ok compare l key b (nxt l b i) \<Longrightarrow> nxt l b i = Some n \<Longrightarrow> after \<noteq> Some n \<Longrightarrow> key_after compare l key (Some n) \<Longrightarrow>
    FindSpliceForLevel compare l key b after i = FindSpliceForLevel compare l key n after i"
  by (subst FindSpliceForLevel.simps) (auto simp: Let_def)

lemma ge_more:
  "search_ok compare l key x (nxt l x i) \<Longrightarrow> nxt l x i = Some n \<Longrightarrow> big \<noteq> Some n \<Longrightarrow> key_after compare l key (Some n) \<Longrightarrow>
    find_ge compare l key x i big = find_ge compare l key n i big"
  by (subst find_ge.simps) (auto simp: Let_def key_after_def)

lemma ge_down:
  "search_ok compare l key x (nxt l x (Suc i)) \<Longrightarrow>
    (\<And>n. nxt l x (Suc i) = Some n \<Longrightarrow> big \<noteq> Some n \<Longrightarrow> 0 < compare (node_key l n) key) \<Longrightarrow>
    find_ge compare l key x (Suc i) big = find_ge compare l key x i (nxt l x (Suc i))"
  by (subst find_ge.simps) (fastforce simp: Let_def split: option.splits)

lemma ge_found:
  "search_ok compare l key x (nxt l x 0) \<Longrightarrow> (\<And>n. nxt l x 0 = Some n \<Longrightarrow> 0 \<le> compare (node_key l n) key) \<Longrightarrow>
    find_ge compare l key x 0 big = Some (Inr (nxt l x 0))"
  by (subst find_ge.simps) (fastforce simp: Let_def split: option.splits)

lemma ge_equal:
  "search_ok compare l key x (nxt l x i) \<Longrightarrow> nxt l x i = Some n \<Longrightarrow> big \<noteq> Some n \<Longrightarrow> compare (node_key l n) key = 0 \<Longrightarrow>
    find_ge compare l key x i big = Some (Inr (Some n))"
  by (subst find_ge.simps) (simp add: Let_def)

context key_order
begin

abbreviation before :: "'a skiplist \<Rightarrow> 'a \<Rightarrow> nat list \<Rightarrow> nat list" where
  "before l k ns \<equiv> takeWhile (\<lambda>n. compare (node_key l n) k < 0) ns"

abbreviation rest :: "'a skiplist \<Rightarrow> 'a \<Rightarrow> nat list \<Rightarrow> nat list" where
  "rest l k ns \<equiv> dropWhile (\<lambda>n. compare (node_key l n) k < 0) ns"

lemma before_less: "n \<in> set (before l k ns) \<Longrightarrow> n \<in> set ns \<and> compare (node_key l n) k < 0"
  by (auto dest: set_takeWhileD)

lemma rest_not_less:
  assumes "sl_inv compare km l ns" "n \<in> set (rest l k ns)"
  shows "n \<in> set ns \<and> 0 \<le> compare (node_key l n) k"
proof -
  obtain m r where r: "rest l k ns = m # r" using assms(2) by (cases "rest l k ns") auto
  then have m: "\<not> compare (node_key l m) k < 0" by (simp add: dropWhile_eq_Cons_conv)
  have "sorted_wrt (\<lambda>a b. compare (node_key l a) (node_key l b) < 0) (before l k ns @ m # r)"
    using assms(1) r by (simp add: sl_inv_def flip: r)
  then have "n = m \<or> compare (node_key l m) (node_key l n) < 0" using assms(2) r by (auto simp: sorted_wrt_append)
  then have "\<not> compare (node_key l n) k < 0"
    using m less_le_trans [of "node_key l m" "node_key l n" k] by fastforce
  then show ?thesis using assms(2) by (simp add: set_dropWhileD)
qed

definition reaches :: "'a skiplist \<Rightarrow> 'a \<Rightarrow> nat list \<Rightarrow> nat \<Rightarrow> nat \<Rightarrow> bool" where
  "reaches l k ns i x \<longleftrightarrow> x = 0 \<or> x \<in> set (before l k ns) \<and> i < stashed_height l x"

lemma reaches_down: "reaches l k ns i x \<Longrightarrow> j \<le> i \<Longrightarrow> reaches l k ns j x"
  by (auto simp: reaches_def)

lemma split_level:
  assumes "reaches l k ns i x" "sl_inv compare km l ns"
  obtains as bs where "on_level l i (before l k ns) = as @ bs" "x = last (0 # as)"
proof (cases "x = 0")
  case True
  with that [of "[]"] show ?thesis by simp
next
  case False
  with assms(1) have "x \<in> set (on_level l i (before l k ns))" by (simp add: reaches_def)
  then obtain as bs where "on_level l i (before l k ns) = as @ x # bs" by (meson split_list)
  with that [of "as @ [x]" bs] show ?thesis by simp
qed

lemma level_split: "on_level l i ns = on_level l i (before l k ns) @ on_level l i (rest l k ns)"
  by (metis filter_append takeWhile_dropWhile_id)

lemma level_next:
  assumes "sl_inv compare km l ns" "i < km" "on_level l i (before l k ns) = as @ bs"
  shows "nxt l (last (0 # as)) i = hd_opt (bs @ on_level l i (rest l k ns))"
proof -
  have "on_level l i ns = as @ bs @ on_level l i (rest l k ns)"
    using assms(3) level_split [where l = l and i = i and ns = ns and k = k] by simp
  with sl_levelD [OF assms(1,2)] have "chain (\<lambda>n. nxt l n i) 0 (as @ bs @ on_level l i (rest l k ns))"
    by (simp only:)
  from chain_next [OF this] show ?thesis .
qed

lemma sorted_parts:
  assumes "sl_inv compare km l ns" "on_level l i (before l k ns) = as @ bs" 
  shows "n \<in> set as \<Longrightarrow> m \<in> set (bs @ on_level l i (rest l k ns)) \<Longrightarrow> compare (node_key l n) (node_key l m) < 0"
proof -
  have "on_level l i ns = as @ bs @ on_level l i (rest l k ns)"
    using assms(2) level_split [where l = l and i = i and ns = ns and k = k] by simp
  moreover have "sorted_wrt (\<lambda>a b. compare (node_key l a) (node_key l b) < 0) (on_level l i ns)"
    using assms(1) by (simp add: sl_inv_def sorted_wrt_filter)
  ultimately have "sorted_wrt (\<lambda>a b. compare (node_key l a) (node_key l b) < 0) (as @ bs @ on_level l i (rest l k ns))"
    by (simp only:)
  then show "n \<in> set as \<Longrightarrow> m \<in> set (bs @ on_level l i (rest l k ns)) \<Longrightarrow> compare (node_key l n) (node_key l m) < 0"
    unfolding sorted_wrt_append by blast
qed

lemma search_fine:
  assumes "sl_inv compare km l ns" "on_level l i (before l k ns) = as @ bs" "i < km"
  shows "search_ok compare l k (last (0 # as)) (nxt l (last (0 # as)) i)"
proof -
  define x where "x = last (0 # as)"
  have "search_ok compare l k x (nxt l x i)"
  proof (cases "x = 0")
    case False
    with last_in [of 0 as] have x: "x \<in> set as" by (simp add: x_def)
    then have "x \<in> set (on_level l i (before l k ns))" unfolding assms(2) by simp
    then have "x \<in> set (before l k ns)" by simp
    then have "compare (node_key l x) k < 0" by (rule before_less [THEN conjunct2])
    moreover have "compare (node_key l x) (node_key l n) < 0" if "nxt l x i = Some n" for n
    proof -
      have "hd_opt (bs @ on_level l i (rest l k ns)) = Some n"
        using level_next [OF assms(1,3,2)] that unfolding x_def by (rule HOL.trans [OF sym])
      from sorted_parts [OF assms(1,2) x hd_opt_in [OF this]] show ?thesis .
    qed
    ultimately show ?thesis by (cases "nxt l x i") (simp_all add: search_ok_def key_after_def)
  qed (simp add: search_ok_def)
  then show ?thesis by (simp only: x_def)
qed

lemma step_before:
  assumes "sl_inv compare km l ns" "on_level l i (before l k ns) = as @ b # bs" "i < km"
  shows "nxt l (last (0 # as)) i = Some b" "key_after compare l k (Some b)" "\<And>y. y \<in> set (rest l k ns) \<Longrightarrow> b \<noteq> y"
    "reaches l k ns i b" "b \<noteq> 0"
proof -
  show "nxt l (last (0 # as)) i = Some b" using level_next [OF assms(1,3,2)] by simp
  have "b \<in> set (on_level l i (before l k ns))" using assms(2) by simp
  then have b: "b \<in> set (before l k ns)" "i < stashed_height l b" by auto
  then have less: "compare (node_key l b) k < 0" "b \<in> set ns" using before_less by blast+
  then show "key_after compare l k (Some b)" by (simp add: key_after_def)
  show "b \<noteq> y" if "y \<in> set (rest l k ns)" for y using less rest_not_less [OF assms(1) that] by auto
  show "reaches l k ns i b" using b by (simp add: reaches_def)
  show "b \<noteq> 0" using less(2) assms(1) by (auto simp: sl_inv_def)
qed

lemma step_rest:
  assumes "sl_inv compare km l ns" "on_level l i (before l k ns) = as" "i < km"
  shows "nxt l (last (0 # as)) i = hd_opt (on_level l i (rest l k ns))"
    "\<And>y. hd_opt (on_level l i (rest l k ns)) = Some y \<Longrightarrow> y \<in> set (rest l k ns) \<and> 0 \<le> compare (node_key l y) k"
    "\<not> key_after compare l k (hd_opt (on_level l i (rest l k ns)))"
proof -
  show "nxt l (last (0 # as)) i = hd_opt (on_level l i (rest l k ns))"
    using level_next [OF assms(1,3), of k as "[]"] assms(2) by simp
  show *: "y \<in> set (rest l k ns) \<and> 0 \<le> compare (node_key l y) k" if "hd_opt (on_level l i (rest l k ns)) = Some y" for y
  proof -
    have "y \<in> set (on_level l i (rest l k ns))" by (rule hd_opt_in [OF that])
    then have "y \<in> set (rest l k ns)" by simp
    then show ?thesis using rest_not_less [OF assms(1)] by blast
  qed
  show "\<not> key_after compare l k (hd_opt (on_level l i (rest l k ns)))"
    using * by (cases "hd_opt (on_level l i (rest l k ns))") (auto simp: key_after_def simp del: filter.simps)
qed

subsection \<open>Searching finds the place\<close>

text \<open>The list \<open>l'\<close> agrees with \<open>l\<close> on the level that is searched.\<close>

lemma FindSplice_lemma:
  assumes "sl_inv compare km l ns" "i < km" "\<And>y. after = Some y \<Longrightarrow> y \<in> set (rest l k ns)"
    "node_key l' = node_key l" "\<And>n. nxt l' n i = nxt l n i"
  shows "on_level l i (before l k ns) = as @ bs \<Longrightarrow>
    FindSpliceForLevel compare l' k (last (0 # as)) after i =
      Some (Inr (last (0 # on_level l i (before l k ns)), hd_opt (on_level l i (rest l k ns))))"
proof (induction bs arbitrary: as)
  case Nil
  note ka = keys_cong [OF assms(4)]
  from Nil have B: "on_level l i (before l k ns) = as" by simp
  show ?case
    using Find_found [of compare l' k "last (0 # as)" i after] search_fine [OF assms(1) Nil assms(2)] step_rest(1,3) [OF assms(1) B assms(2)]
    unfolding B ka assms(5) by metis
next
  case (Cons b bs)
  note ka = keys_cong [OF assms(4)]
  note st = step_before [OF assms(1) Cons.prems assms(2)]
  have "on_level l i (before l k ns) = (as @ [b]) @ bs" using Cons.prems by simp
  from Cons.IH [OF this] have ih: "FindSpliceForLevel compare l' k b after i =
      Some (Inr (last (0 # on_level l i (before l k ns)), hd_opt (on_level l i (rest l k ns))))" by simp
  have ne: "after \<noteq> Some b" using st(3) assms(3) by blast
  have "FindSpliceForLevel compare l' k (last (0 # as)) after i = FindSpliceForLevel compare l' k b after i"
    by (rule Find_more) (unfold ka assms(5), rule search_fine [OF assms(1) Cons.prems assms(2)], rule st(1), rule ne, rule st(2))
  then show ?case using ih by (rule HOL.trans)
qed

lemma FindSplice:
  assumes "sl_inv compare km l ns" "i < km" "reaches l k ns i x" "\<And>y. after = Some y \<Longrightarrow> y \<in> set (rest l k ns)"
    "node_key l' = node_key l" "\<And>n. nxt l' n i = nxt l n i"
  shows "FindSpliceForLevel compare l' k x after i =
      Some (Inr (last (0 # on_level l i (before l k ns)), hd_opt (on_level l i (rest l k ns))))"
proof -
  obtain as bs where ab: "on_level l i (before l k ns) = as @ bs" and x: "x = last (0 # as)"
    using split_level [OF assms(3,1)] by blast
  show ?thesis unfolding x by (rule FindSplice_lemma [OF assms(1,2,4,5,6) ab])
qed

lemma level_zero: "sl_inv compare km l ns \<Longrightarrow> set xs \<subseteq> set ns \<Longrightarrow> on_level l 0 xs = xs"
  by (intro filter_True) (auto simp: sl_inv_def)

lemma first_of_rest:
  assumes "sl_inv compare km l ns" "y \<in> set (rest l k ns)" "compare (node_key l y) k = 0"
  shows "hd_opt (rest l k ns) = Some y"
proof -
  obtain m r where r: "rest l k ns = m # r" using assms(2) by (cases "rest l k ns") auto
  have "sorted_wrt (\<lambda>a b. compare (node_key l a) (node_key l b) < 0) (before l k ns @ m # r)"
    using assms(1) r by (simp add: sl_inv_def flip: r)
  then have "y = m \<or> compare (node_key l m) (node_key l y) < 0" using assms(2) r by (auto simp: sorted_wrt_append)
  moreover have "\<not> compare (node_key l m) k < 0" using r by (simp add: dropWhile_eq_Cons_conv)
  ultimately show ?thesis using r less_le_trans [of "node_key l m" "node_key l y" k] assms(3) by auto
qed

lemma find_ge_before:
  assumes "sl_inv compare km l ns" "i < km" "\<And>y. big = Some y \<Longrightarrow> y \<in> set (rest l k ns)"
  shows "on_level l i (before l k ns) = as @ bs \<Longrightarrow>
    find_ge compare l k (last (0 # as)) i big = find_ge compare l k (last (0 # on_level l i (before l k ns))) i big"
proof (induction bs arbitrary: as)
  case (Cons b bs)
  note st = step_before [OF assms(1) Cons.prems assms(2)]
  have "on_level l i (before l k ns) = (as @ [b]) @ bs" using Cons.prems by simp
  from Cons.IH [OF this] have ih: "find_ge compare l k b i big = find_ge compare l k (last (0 # on_level l i (before l k ns))) i big"
    by simp
  have ne: "big \<noteq> Some b" using st(3) assms(3) by blast
  show ?case
    using ge_more [OF search_fine [OF assms(1) Cons.prems assms(2)] st(1) ne st(2)] ih by (rule HOL.trans)
qed simp

lemma find_ge_lemma:
  assumes "sl_inv compare km l ns"
  shows "i < km \<Longrightarrow> reaches l k ns i x \<Longrightarrow> (\<And>y. big = Some y \<Longrightarrow> y \<in> set (rest l k ns)) \<Longrightarrow>
    find_ge compare l k x i big = Some (Inr (hd_opt (rest l k ns)))"
proof (induction i arbitrary: x big)
  case (0 x big)
  let ?B = "on_level l 0 (before l k ns)"
  have R: "on_level l 0 (rest l k ns) = rest l k ns"
    by (rule level_zero [OF assms]) (auto dest: set_dropWhileD)
  obtain as bs where ab: "?B = as @ bs" and x: "x = last (0 # as)" using split_level [OF 0(2) assms] by blast
  have B: "?B = ?B @ []" by simp
  note st = step_rest [OF assms refl 0(1), of k]
  have "find_ge compare l k (last (0 # ?B)) 0 big = Some (Inr (nxt l (last (0 # ?B)) 0))"
    by (rule ge_found [OF search_fine [OF assms B 0(1)]]) (use st(1,2) in metis)
  with find_ge_before [OF assms 0(1,3) ab] st(1) show ?case by (simp only: x R)
next
  case (Suc i x big)
  let ?B = "on_level l (Suc i) (before l k ns)" and ?R = "on_level l (Suc i) (rest l k ns)"
  obtain as bs where ab: "?B = as @ bs" and x: "x = last (0 # as)" using split_level [OF Suc.prems(2) assms] by blast
  have B: "?B = ?B @ []" by simp
  let ?x = "last (0 # ?B)"
  note st = step_rest [OF assms refl Suc.prems(1), of k]
  note fine = search_fine [OF assms B Suc.prems(1)]
  have "reaches l k ns i ?x" using last_in [of 0 ?B] by (auto simp: reaches_def)
  then have ih: "find_ge compare l k ?x i (hd_opt ?R) = Some (Inr (hd_opt (rest l k ns)))"
    using Suc.prems(1) st(2) by (intro Suc.IH) auto
  have "find_ge compare l k ?x (Suc i) big = Some (Inr (hd_opt (rest l k ns)))"
  proof (cases "\<exists>n. nxt l ?x (Suc i) = Some n \<and> big \<noteq> Some n \<and> compare (node_key l n) k = 0")
    case True
    then obtain n where n: "nxt l ?x (Suc i) = Some n" "big \<noteq> Some n" "compare (node_key l n) k = 0" by blast
    then have "n \<in> set (rest l k ns)" using st(1,2) by metis
    from first_of_rest [OF assms this n(3)] ge_equal [OF fine n] show ?thesis by simp
  next
    case False
    then have "find_ge compare l k ?x (Suc i) big = find_ge compare l k ?x i (nxt l ?x (Suc i))"
      by (intro ge_down [OF fine]) (metis st(1,2) order_less_le)
    with ih show ?thesis by (simp only: st(1))
  qed
  with find_ge_before [OF assms Suc.prems(1,3) ab] show ?case by (simp only: x)
qed

lemma FindGreaterOrEqual_eq:
  assumes "sl_inv compare km l ns"
  shows "FindGreaterOrEqual compare l k = Some (Inr (hd_opt (rest l k ns)))"
  unfolding FindGreaterOrEqual_def
  by (rule find_ge_lemma [OF assms]) (use assms in \<open>auto simp: sl_inv_def reaches_def\<close>)

end

lemma lt_more:
  "search_ok compare l key x (nxt l x i) \<Longrightarrow> nxt l x i = Some n \<Longrightarrow> big \<noteq> Some n \<Longrightarrow> key_after compare l key (Some n) \<Longrightarrow>
    find_lt compare l key x i big = find_lt compare l key n i big"
  by (subst find_lt.simps) (auto simp: Let_def)

lemma lt_down:
  "search_ok compare l key x (nxt l x (Suc i)) \<Longrightarrow> \<not> key_after compare l key (nxt l x (Suc i)) \<Longrightarrow>
    find_lt compare l key x (Suc i) big = find_lt compare l key x i (nxt l x (Suc i))"
  by (subst find_lt.simps) (simp add: Let_def)

lemma lt_found:
  "search_ok compare l key x (nxt l x 0) \<Longrightarrow> \<not> key_after compare l key (nxt l x 0) \<Longrightarrow>
    find_lt compare l key x 0 big = Some (Inr x)"
  by (subst find_lt.simps) (simp add: Let_def)

context key_order
begin

lemma find_lt_before:
  assumes "sl_inv compare km l ns" "i < km" "\<And>y. big = Some y \<Longrightarrow> y \<in> set (rest l k ns)"
  shows "on_level l i (before l k ns) = as @ bs \<Longrightarrow>
    find_lt compare l k (last (0 # as)) i big = find_lt compare l k (last (0 # on_level l i (before l k ns))) i big"
proof (induction bs arbitrary: as)
  case (Cons b bs)
  note st = step_before [OF assms(1) Cons.prems assms(2)]
  have "on_level l i (before l k ns) = (as @ [b]) @ bs" using Cons.prems by simp
  from Cons.IH [OF this] have ih: "find_lt compare l k b i big = find_lt compare l k (last (0 # on_level l i (before l k ns))) i big"
    by simp
  have ne: "big \<noteq> Some b" using st(3) assms(3) by blast
  show ?case
    using lt_more [OF search_fine [OF assms(1) Cons.prems assms(2)] st(1) ne st(2)] ih by (rule HOL.trans)
qed simp

lemma find_lt_lemma:
  assumes "sl_inv compare km l ns"
  shows "i < km \<Longrightarrow> reaches l k ns i x \<Longrightarrow> (\<And>y. big = Some y \<Longrightarrow> y \<in> set (rest l k ns)) \<Longrightarrow>
    find_lt compare l k x i big = Some (Inr (last (0 # before l k ns)))"
proof (induction i arbitrary: x big)
  case (0 x big)
  let ?B = "on_level l 0 (before l k ns)"
  have B0: "?B = before l k ns" by (rule level_zero [OF assms]) (auto dest: set_takeWhileD)
  obtain as bs where ab: "?B = as @ bs" and x: "x = last (0 # as)" using split_level [OF 0(2) assms] by blast
  have B: "?B = ?B @ []" by simp
  note st = step_rest [OF assms HOL.refl 0(1), of k]
  have "find_lt compare l k (last (0 # ?B)) 0 big = Some (Inr (last (0 # ?B)))"
    by (rule lt_found [OF search_fine [OF assms B 0(1)]]) (unfold st(1), rule st(3))
  with find_lt_before [OF assms 0(1,3) ab] show ?case by (simp only: x B0)
next
  case (Suc i x big)
  let ?B = "on_level l (Suc i) (before l k ns)" and ?R = "on_level l (Suc i) (rest l k ns)"
  obtain as bs where ab: "?B = as @ bs" and x: "x = last (0 # as)" using split_level [OF Suc.prems(2) assms] by blast
  have B: "?B = ?B @ []" by simp
  let ?x = "last (0 # ?B)"
  note st = step_rest [OF assms HOL.refl Suc.prems(1), of k]
  note fine = search_fine [OF assms B Suc.prems(1)]
  have "reaches l k ns i ?x" using last_in [of 0 ?B] by (auto simp: reaches_def)
  then have ih: "find_lt compare l k ?x i (hd_opt ?R) = Some (Inr (last (0 # before l k ns)))"
    using Suc.prems(1) st(2) by (intro Suc.IH) auto
  have "find_lt compare l k ?x (Suc i) big = find_lt compare l k ?x i (nxt l ?x (Suc i))"
    by (rule lt_down [OF fine]) (unfold st(1), rule st(3))
  with ih have "find_lt compare l k ?x (Suc i) big = Some (Inr (last (0 # before l k ns)))" by (simp only: st(1))
  with find_lt_before [OF assms Suc.prems(1,3) ab] show ?case by (simp only: x)
qed

lemma FindLessThan_eq:
  assumes "sl_inv compare km l ns"
  shows "FindLessThan compare l k = Some (Inr (last (0 # before l k ns)))"
  unfolding FindLessThan_def
  by (rule find_lt_lemma [OF assms]) (use assms in \<open>auto simp: sl_inv_def reaches_def\<close>)

lemma find_last_before:
  assumes "sl_inv compare km l ns" "i < km"
  shows "on_level l i ns = as @ bs \<Longrightarrow> find_last l (last (0 # as)) i = find_last l (last (0 # on_level l i ns)) i"
proof (induction bs arbitrary: as)
  case (Cons b bs)
  have "nxt l (last (0 # as)) i = Some b"
    using chain_next [of _ 0 as "b # bs"] sl_levelD [OF assms] Cons.prems by (simp only: list.case) 
  then have "find_last l (last (0 # as)) i = find_last l b i" by (subst find_last.simps) simp
  moreover have "on_level l i ns = (as @ [b]) @ bs" using Cons.prems by simp
  note Cons.IH [OF this]
  ultimately show ?case by simp
qed simp

lemma find_last_lemma:
  assumes "sl_inv compare km l ns"
  shows "i < km \<Longrightarrow> x = 0 \<or> x \<in> set (on_level l i ns) \<Longrightarrow> find_last l x i = Some (last (0 # ns))"
proof (induction i arbitrary: x)
  case (0 x)
  have N: "on_level l 0 ns = ns" by (rule level_zero [OF assms]) simp
  let ?x = "last (0 # on_level l 0 ns)"
  have "nxt l ?x 0 = None"
    using chain_next [of "\<lambda>n. nxt l n 0" 0 "on_level l 0 ns" "[]"] sl_levelD [OF assms 0(1)] by simp
  then have l: "find_last l ?x 0 = Some ?x" by (subst find_last.simps) simp
  obtain as bs where ab: "on_level l 0 ns = as @ bs" "x = last (0 # as)"
  proof (cases "x = 0")
    case True
    with that [of "[]"] show ?thesis by simp
  next
    case False
    with 0 obtain as bs where "on_level l 0 ns = as @ x # bs" by (meson split_list)
    with that [of "as @ [x]" bs] show ?thesis by simp
  qed
  have "find_last l x 0 = Some ?x" unfolding ab(2) using find_last_before [OF assms 0(1) ab(1)] l by (rule HOL.trans)
  then show ?case unfolding N .
next
  case (Suc i x)
  let ?x = "last (0 # on_level l (Suc i) ns)"
  have "nxt l ?x (Suc i) = None"
    using chain_next [of "\<lambda>n. nxt l n (Suc i)" 0 "on_level l (Suc i) ns" "[]"] sl_levelD [OF assms Suc.prems(1)] by simp
  then have "find_last l ?x (Suc i) = find_last l ?x i" by (subst find_last.simps) simp
  moreover have "?x = 0 \<or> ?x \<in> set (on_level l i ns)" using last_in [of 0 "on_level l (Suc i) ns"] by auto
  with Suc have "find_last l ?x i = Some (last (0 # ns))" by simp
  moreover obtain as bs where ab: "on_level l (Suc i) ns = as @ bs" "x = last (0 # as)"
  proof (cases "x = 0")
    case True
    with that [of "[]"] show ?thesis by simp
  next
    case False
    with Suc.prems obtain as bs where "on_level l (Suc i) ns = as @ x # bs" by (meson split_list)
    with that [of "as @ [x]" bs] show ?thesis by simp
  qed
  ultimately show ?case unfolding ab(2) using find_last_before [OF assms Suc.prems(1) ab(1)] by (simp only:)
qed

lemma FindLast_eq: "sl_inv compare km l ns \<Longrightarrow> FindLast l = Some (last (0 # ns))"
  unfolding FindLast_def by (rule find_last_lemma) (auto simp: sl_inv_def)

lemma Contains_eq:
  assumes "sl_inv compare km l ns"
  shows "Contains compare l k = Some (Inr (\<exists>n\<in>set ns. compare k (node_key l n) = 0))"
proof -
  have "(\<exists>n\<in>set ns. compare k (node_key l n) = 0) \<longleftrightarrow>
      (case hd_opt (rest l k ns) of None \<Rightarrow> False | Some n \<Rightarrow> compare k (node_key l n) = 0)"
  proof
    assume "\<exists>n\<in>set ns. compare k (node_key l n) = 0"
    then obtain n where n: "n \<in> set ns" "compare (node_key l n) k = 0" using eq_flip by blast
    then have "n \<in> set (rest l k ns)"
      by (metis Un_iff before_less less_irrefl set_append takeWhile_dropWhile_id)
    from first_of_rest [OF assms this n(2)] show "case hd_opt (rest l k ns) of None \<Rightarrow> False | Some n \<Rightarrow> compare k (node_key l n) = 0"
      using n(2) eq_flip by simp
  next
    assume *: "case hd_opt (rest l k ns) of None \<Rightarrow> False | Some n \<Rightarrow> compare k (node_key l n) = 0"
    then obtain y where y: "hd_opt (rest l k ns) = Some y" "compare k (node_key l y) = 0"
      by (cases "hd_opt (rest l k ns)") simp_all
    from rest_not_less [OF assms hd_opt_in [OF y(1)]] y(2) show "\<exists>n\<in>set ns. compare k (node_key l n) = 0" by blast
  qed
  then show ?thesis by (simp add: Contains_def FindGreaterOrEqual_eq [OF assms])
qed

end

end
