(* ===== verification/SkipListInsert.thy ===== *)
theory SkipListInsert
  imports SkipListSearch
begin

section \<open>RocksDB: inserting into the skip list\<close>

text \<open>
  A splice that was left by an earlier insertion is \<open>splice_ok\<close>: its nodes are in the list and lie around each
  other from level to level, but other nodes may have been inserted between them and the new key may be elsewhere.
  The lemmas follow \<open>Insert\<close>: the level is found up to which the splice is of no use (\<open>recompute_height_finds\<close>),
  the levels below are searched anew (\<open>recompute_loop_tight\<close>), the node is linked level by level
  (\<open>link_levels_linked\<close>), and list and splice are again as required (\<open>Insert_inserts\<close>).
\<close>

subsection \<open>Insertion\<close>

lemma rh_steps:
  assumes "i < m" 
  shows "nxt l (prevs s i) i \<noteq> nexts s i \<Longrightarrow> recompute_height km compare l s k p m i = recompute_height km compare l s k p m (i + 1)"
    "nxt l (prevs s i) i = nexts s i \<Longrightarrow> prevs s i \<noteq> 0 \<Longrightarrow> \<not> key_after compare l k (Some (prevs s i)) \<Longrightarrow>
      skip_same km (prevs s) (prevs s i) i = Inr j \<Longrightarrow>
      recompute_height km compare l s k p m i = recompute_height km compare l s k p m (if p then j else m)"
    "nxt l (prevs s i) i = nexts s i \<Longrightarrow> prevs s i = 0 \<or> key_after compare l k (Some (prevs s i)) \<Longrightarrow>
      key_after compare l k (nexts s i) \<Longrightarrow> skip_same km (nexts s) (nexts s i) i = Inr j \<Longrightarrow>
      recompute_height km compare l s k p m i = recompute_height km compare l s k p m (if p then j else m)"
    "nxt l (prevs s i) i = nexts s i \<Longrightarrow> prevs s i = 0 \<or> key_after compare l k (Some (prevs s i)) \<Longrightarrow>
      \<not> key_after compare l k (nexts s i) \<Longrightarrow> recompute_height km compare l s k p m i = Inr i"
  using assms by (subst recompute_height.simps, auto)+

context key_order
begin

text \<open>The tight place for the key \<open>k\<close> on level \<open>i\<close>.\<close>

abbreviation place_prev :: "'a skiplist \<Rightarrow> 'a \<Rightarrow> nat list \<Rightarrow> nat \<Rightarrow> nat" where
  "place_prev l k ns i \<equiv> last (0 # on_level l i (before l k ns))"

abbreviation place_next :: "'a skiplist \<Rightarrow> 'a \<Rightarrow> nat list \<Rightarrow> nat \<Rightarrow> nat option" where
  "place_next l k ns i \<equiv> hd_opt (on_level l i (rest l k ns))"

definition below :: "'a skiplist \<Rightarrow> nat \<Rightarrow> nat \<Rightarrow> bool" where
  "below l a b \<longleftrightarrow> a = b \<or> a = 0 \<or> (b \<noteq> 0 \<and> compare (node_key l a) (node_key l b) < 0)"

definition above :: "'a skiplist \<Rightarrow> nat option \<Rightarrow> nat option \<Rightarrow> bool" where
  "above l a b \<longleftrightarrow> b = a \<or> b = None \<or> (\<exists>y z. a = Some y \<and> b = Some z \<and> compare (node_key l y) (node_key l z) < 0)"

definition placed :: "'a skiplist \<Rightarrow> nat list \<Rightarrow> nat \<Rightarrow> nat \<Rightarrow> nat option \<Rightarrow> bool" where
  "placed l ns i p n \<longleftrightarrow> (p = 0 \<or> p \<in> set ns \<and> i < stashed_height l p) \<and>
     (\<forall>y. n = Some y \<longrightarrow> y \<in> set ns \<and> i < stashed_height l y)"

definition splice_ok :: "'a skiplist \<Rightarrow> nat list \<Rightarrow> splice \<Rightarrow> bool" where
  "splice_ok l ns s \<longleftrightarrow> sp_height s \<le> max_height l \<and>
     (0 < sp_height s \<longrightarrow> prevs s (sp_height s) = 0 \<and> nexts s (sp_height s) = None) \<and>
     (\<forall>i < sp_height s. placed l ns i (prevs s i) (nexts s i) \<and>
       below l (prevs s (Suc i)) (prevs s i) \<and> above l (nexts s i) (nexts s (Suc i)))"

definition brackets :: "'a skiplist \<Rightarrow> 'a \<Rightarrow> nat \<Rightarrow> nat option \<Rightarrow> bool" where
  "brackets l k p n \<longleftrightarrow> (p = 0 \<or> compare (node_key l p) k < 0) \<and> (\<forall>y. n = Some y \<longrightarrow> compare k (node_key l y) < 0)"

lemma less_trans: "compare a b < 0 \<Longrightarrow> compare b c < 0 \<Longrightarrow> compare a c < 0"
  using less_le_trans [of a b c] by simp

lemma brackets_up:
  assumes "brackets l k p n" "below l p' p" "above l n n'"
  shows "brackets l k p' n'"
  unfolding brackets_def
proof (intro conjI allI impI)
  show "p' = 0 \<or> compare (node_key l p') k < 0"
    using assms(1,2) less_trans [of "node_key l p'" "node_key l p" k] by (auto simp: brackets_def below_def)
  fix z assume z: "n' = Some z"
  with assms(3) consider "n = Some z" | y where "n = Some y" "compare (node_key l y) (node_key l z) < 0"
    by (auto simp: above_def)
  then show "compare k (node_key l z) < 0"
  proof cases
    case 1
    with assms(1) show ?thesis by (simp add: brackets_def)
  next
    case 2
    with assms(1) less_trans [of k "node_key l y"] show ?thesis by (simp add: brackets_def)
  qed
qed

lemma in_before:
  assumes "sl_inv compare km l ns" "n \<in> set ns" "compare (node_key l n) k < 0"
  shows "n \<in> set (before l k ns)"
  using assms rest_not_less [OF assms(1), of n k] by (metis Un_iff not_less set_append takeWhile_dropWhile_id)

lemma in_rest:
  assumes "n \<in> set ns" "compare k (node_key l n) < 0"
  shows "n \<in> set (rest l k ns)"
  using assms before_less [of n l k ns] flip by (metis Un_iff less_asym set_append takeWhile_dropWhile_id)

lemma placed_brackets:
  assumes "sl_inv compare km l ns" "placed l ns i p n" "brackets l k p n"
  shows "reaches l k ns i p" "\<And>y. n = Some y \<Longrightarrow> y \<in> set (on_level l i (rest l k ns))"
proof -
  show "reaches l k ns i p"
    using assms(2,3) in_before [OF assms(1), of p k] by (auto simp: placed_def brackets_def reaches_def)
  show "y \<in> set (on_level l i (rest l k ns))" if "n = Some y" for y
  proof -
    have "y \<in> set ns" "i < stashed_height l y" "compare k (node_key l y) < 0"
      using assms(2,3) that by (simp_all add: placed_def brackets_def)
    with in_rest show ?thesis by simp
  qed
qed

lemma tight_place:
  assumes "sl_inv compare km l ns" "i < km" "reaches l k ns i p" "nxt l p i = n" "\<And>y. n = Some y \<Longrightarrow> y \<in> set (rest l k ns)"
  shows "p = place_prev l k ns i" "n = place_next l k ns i"
proof -
  obtain as bs where ab: "on_level l i (before l k ns) = as @ bs" "p = last (0 # as)"
    using split_level [OF assms(3,1)] by blast
  have "bs = []"
  proof (cases bs)
    case (Cons b bs')
    note st = step_before [OF assms(1) ab(1) [unfolded Cons] assms(2)]
    from st(1) assms(4) ab(2) have "n = Some b" by simp
    with st(3) [of b] assms(5) show ?thesis by blast
  qed
  with ab(1) have B: "on_level l i (before l k ns) = as" by simp
  show "p = place_prev l k ns i" unfolding B ab(2) ..
  show "n = place_next l k ns i" using step_rest(1) [OF assms(1) B assms(2)] assms(4) ab(2) by metis
qed

lemma below_place:
  assumes "sl_inv compare km l ns" "reaches l k ns i p"
  shows "below l p (place_prev l k ns i)"
proof -
  obtain as bs where ab: "on_level l i (before l k ns) = as @ bs" "p = last (0 # as)"
    using split_level [OF assms(2,1)] by blast
  define q where "q = place_prev l k ns i"
  show ?thesis
  proof (cases "bs = [] \<or> p = 0")
    case True
    then show ?thesis using ab by (auto simp: below_def)
  next
    case False
    then have q: "q \<in> set bs" "p \<in> set as" using ab last_in [of 0 as] by (auto simp: q_def)
    then have "compare (node_key l p) (node_key l q) < 0"
      using sorted_parts [OF assms(1) ab(1), of p q] by simp
    moreover have "q \<in> set (on_level l i (before l k ns))" using q(1) unfolding ab(1) by simp
    then have "q \<in> set (before l k ns)" by simp
    then have "q \<in> set ns" by (rule before_less [THEN conjunct1])
    then have "q \<noteq> 0" using assms(1) by (auto simp: sl_inv_def)
    ultimately show ?thesis by (simp add: below_def q_def)
  qed
qed

lemma above_place:
  assumes "sl_inv compare km l ns" "\<And>y. n = Some y \<Longrightarrow> y \<in> set (on_level l i (rest l k ns))"
  shows "above l (place_next l k ns i) n"
proof (cases n)
  case (Some z)
  with assms(2) have z: "z \<in> set (on_level l i (rest l k ns))" by simp
  then obtain y r where y: "on_level l i (rest l k ns) = y # r" by (metis list.exhaust list.set(1) empty_iff)
  have "sorted_wrt (\<lambda>a b. compare (node_key l a) (node_key l b) < 0) (on_level l i (before l k ns) @ on_level l i (rest l k ns))"
    using assms(1) by (simp add: sl_inv_def sorted_wrt_filter flip: filter_append)
  then have "\<forall>b\<in>set r. compare (node_key l y) (node_key l b) < 0" unfolding y by (simp add: sorted_wrt_append)
  with z Some show ?thesis unfolding y by (auto simp: above_def)
qed (simp add: above_def)

subsubsection \<open>The splice is repaired\<close>

lemma skip_same_stops:
  "i \<le> m \<Longrightarrow> m \<le> km \<Longrightarrow> f m \<noteq> bad \<Longrightarrow> \<exists>j. skip_same km f bad i = Inr j \<and> i \<le> j \<and> j \<le> m"
proof (induction "m - i" arbitrary: i)
  case 0
  then show ?case by (subst skip_same.simps) auto
next
  case (Suc d)
  show ?case
  proof (cases "f i = bad")
    case True
    with Suc.prems have "i < m" using le_neq_implies_less by blast
    moreover have "d = m - Suc i" using Suc.hyps(2) by simp
    ultimately obtain j where "skip_same km f bad (Suc i) = Inr j \<and> Suc i \<le> j \<and> j \<le> m"
      using Suc.hyps(1) [of "Suc i"] Suc.prems by auto
    with True Suc.prems show ?thesis by (subst skip_same.simps) auto
  qed (use Suc.prems in \<open>subst skip_same.simps, auto\<close>)
qed

lemma recompute_height_finds:
  assumes "sl_inv compare km l ns" "splice_ok l ns s" "sp_height s = max_height l"
    "\<And>n. n \<in> set ns \<Longrightarrow> compare (node_key l n) k \<noteq> 0"
  shows "i \<le> max_height l \<Longrightarrow> \<exists>r\<le>max_height l. recompute_height km compare l s k p (max_height l) i = Inr r \<and>
    (r < max_height l \<longrightarrow> nxt l (prevs s r) r = nexts s r \<and> brackets l k (prevs s r) (nexts s r))"
proof (induction "max_height l - i" arbitrary: i rule: less_induct)
  case less
  let ?rh = "recompute_height km compare l s k p (max_height l)"
  have mh: "max_height l \<le> km" "0 < max_height l" using assms(1) by (simp_all add: sl_inv_def)
  have top: "prevs s (max_height l) = 0" "nexts s (max_height l) = None" using assms(2,3) mh by (simp_all add: splice_ok_def)
  have stop: "?rh (max_height l) = Inr (max_height l)" by (subst recompute_height.simps) simp
  show ?case
  proof (cases "i < max_height l")
    case False
    with less.prems have "i = max_height l" by simp
    with stop show ?thesis by simp
  next
    case True
    have pl: "placed l ns i (prevs s i) (nexts s i)" using assms(2,3) True by (simp add: splice_ok_def)
    have next_step: "\<exists>r\<le>max_height l. ?rh j = Inr r \<and>
        (r < max_height l \<longrightarrow> nxt l (prevs s r) r = nexts s r \<and> brackets l k (prevs s r) (nexts s r))"
      if "i < j" "j \<le> max_height l" for j using less.hyps [of j] that True by simp
    consider (loose) "nxt l (prevs s i) i \<noteq> nexts s i"
      | (bad_prev) "nxt l (prevs s i) i = nexts s i" "prevs s i \<noteq> 0" "\<not> key_after compare l k (Some (prevs s i))"
      | (bad_next) "nxt l (prevs s i) i = nexts s i" "prevs s i = 0 \<or> key_after compare l k (Some (prevs s i))"
          "key_after compare l k (nexts s i)"
      | (good) "nxt l (prevs s i) i = nexts s i" "prevs s i = 0 \<or> key_after compare l k (Some (prevs s i))"
          "\<not> key_after compare l k (nexts s i)"
      by (cases "nxt l (prevs s i) i = nexts s i"; cases "prevs s i = 0"; cases "key_after compare l k (Some (prevs s i))";
          cases "key_after compare l k (nexts s i)"; simp)
    then show ?thesis
    proof cases
      case loose
      show ?thesis unfolding rh_steps(1) [OF True loose] by (rule next_step) (use True in simp_all)
    next
      case bad_prev
      obtain j where j: "skip_same km (prevs s) (prevs s i) i = Inr j" "j \<le> max_height l"
        using skip_same_stops [of i "max_height l" km "prevs s" "prevs s i"] top bad_prev mh True by auto
      have "i < j" using skip_same_ge [OF j(1)] by simp
      with j(2) True show ?thesis unfolding rh_steps(2) [OF True bad_prev j(1)] by (intro next_step) simp_all
    next
      case bad_next
      have "nexts s i \<noteq> None" using bad_next(3) by (cases "nexts s i") (simp_all add: key_after_def)
      then obtain j where j: "skip_same km (nexts s) (nexts s i) i = Inr j" "j \<le> max_height l"
        using skip_same_stops [of i "max_height l" km "nexts s" "nexts s i"] top mh True by auto
      have "i < j" using skip_same_ge [OF j(1)] by simp
      with j(2) True show ?thesis unfolding rh_steps(3) [OF True bad_next j(1)] by (intro next_step) simp_all
    next
      case good
      have "brackets l k (prevs s i) (nexts s i)"
        unfolding brackets_def
      proof (intro conjI allI impI)
        show "prevs s i = 0 \<or> compare (node_key l (prevs s i)) k < 0" using good(2) by (auto simp: key_after_def)
        fix y assume y: "nexts s i = Some y"
        with pl have "y \<in> set ns" by (simp add: placed_def)
        with assms(4) good(3) y show "compare k (node_key l y) < 0"
          using flip [of k "node_key l y"] by (fastforce simp: key_after_def)
      qed
      with good(1) True show ?thesis unfolding rh_steps(4) [OF True good] by (intro exI [of _ i]) simp
    qed
  qed
qed

end

lemma link_step:
  "fix_level compare k r j s l = Some (Inr s') \<Longrightarrow> link_ok compare x j s' l \<Longrightarrow>
    SetNext (prevs s' j) j (Some x) (SetNext x j (nexts s' j) l) = l' \<Longrightarrow>
    link_levels compare k x r (j # js) s l = link_levels compare k x r js s' l'"
  by simp

context key_order
begin

definition tight_below :: "'a skiplist \<Rightarrow> 'a \<Rightarrow> nat list \<Rightarrow> nat set \<Rightarrow> splice \<Rightarrow> splice" where
  "tight_below l k ns I s = s\<lparr>prevs := \<lambda>i. if i \<in> I then place_prev l k ns i else prevs s i,
                          nexts := \<lambda>i. if i \<in> I then place_next l k ns i else nexts s i\<rparr>"

lemma tight_below_sel [simp]:
  "prevs (tight_below l k ns I s) i = (if i \<in> I then place_prev l k ns i else prevs s i)"
  "nexts (tight_below l k ns I s) i = (if i \<in> I then place_next l k ns i else nexts s i)"
  "sp_height (tight_below l k ns I s) = sp_height s"
  by (simp_all add: tight_below_def)

lemma tight_below_step: "tight_below l k ns I (set_level i (place_prev l k ns i, place_next l k ns i) s) =
    tight_below l k ns (insert i I) s"
  by (simp add: tight_below_def set_level_def fun_eq_iff)

lemma tight_below_empty: "tight_below l k ns {} s = s"
  by (simp add: tight_below_def)

lemma recompute_loop_tight:
  assumes "sl_inv compare km l ns"
  shows "r < km \<or> prevs s r = 0 \<and> r \<le> km \<Longrightarrow> reaches l k ns r (prevs s r) \<Longrightarrow>
    (\<And>y. nexts s r = Some y \<Longrightarrow> y \<in> set (rest l k ns)) \<Longrightarrow>
    recompute_loop compare l k r s = Some (Inr (tight_below l k ns {..<r} s))"
proof (induction r arbitrary: s)
  case 0
  then show ?case by (simp add: tight_below_empty)
next
  case (Suc i)
  let ?s = "set_level i (place_prev l k ns i, place_next l k ns i) s"
  have i: "i < km" using Suc.prems(1) by auto
  have F: "FindSpliceForLevel compare l k (prevs s (i + 1)) (nexts s (i + 1)) i =
      Some (Inr (place_prev l k ns i, place_next l k ns i))"
  proof (rule FindSplice [OF assms i])
    show "reaches l k ns i (prevs s (i + 1))" using reaches_down [OF Suc.prems(2)] by simp
    show "y \<in> set (rest l k ns)" if "nexts s (i + 1) = Some y" for y using Suc.prems(3) that by simp
  qed simp_all
  have "recompute_loop compare l k i ?s = Some (Inr (tight_below l k ns {..<i} ?s))"
  proof (rule Suc.IH)
    show "i < km \<or> prevs ?s i = 0 \<and> i \<le> km" using i by simp
    have "prevs ?s i = place_prev l k ns i" by (simp only: set_level_def) simp
    then show "reaches l k ns i (prevs ?s i)" using last_in [of 0 "on_level l i (before l k ns)"]
      by (auto simp only: reaches_def set_filter)
    show "y \<in> set (rest l k ns)" if "nexts ?s i = Some y" for y
    proof -
      have "place_next l k ns i = Some y" using that unfolding set_level_def by simp
      from hd_opt_in [OF this] show ?thesis by simp
    qed
  qed
  then show ?case
    using F by (simp only: recompute_loop.simps bind_run_simps tight_below_step lessThan_Suc)
qed

text \<open>The list after the node \<open>x\<close> has been linked on the levels below \<open>j\<close>.\<close>

definition linked :: "'a skiplist \<Rightarrow> 'a \<Rightarrow> nat list \<Rightarrow> nat \<Rightarrow> nat \<Rightarrow> 'a skiplist" where
  "linked l k ns x j = l\<lparr>nxt := \<lambda>n i.
     if i < j then if n = place_prev l k ns i then Some x else if n = x then place_next l k ns i else nxt l n i
     else nxt l n i\<rparr>"

lemma linked_sel [simp]:
  "node_key (linked l k ns x j) = node_key l" "stashed_height (linked l k ns x j) = stashed_height l"
  "max_height (linked l k ns x j) = max_height l" "fresh (linked l k ns x j) = fresh l"
  "j \<le> i \<Longrightarrow> nxt (linked l k ns x j) n i = nxt l n i"
  by (simp_all add: linked_def)

lemma linked_Suc:
  "place_prev l k ns j \<noteq> x \<Longrightarrow>
    SetNext (place_prev l k ns j) j (Some x) (SetNext x j (place_next l k ns j) (linked l k ns x j)) = linked l k ns x (Suc j)"
  by (simp add: linked_def SetNext_def fun_eq_iff less_Suc_eq)

text \<open>What holds of the splice when the node is linked; the levels below \<open>r\<close> are tight.\<close>

definition ready :: "'a skiplist \<Rightarrow> 'a \<Rightarrow> nat list \<Rightarrow> nat \<Rightarrow> splice \<Rightarrow> nat \<Rightarrow> bool" where
  "ready l k ns r s i \<longleftrightarrow> reaches l k ns i (prevs s i) \<and> (\<forall>y. nexts s i = Some y \<longrightarrow> y \<in> set (on_level l i (rest l k ns))) \<and>
     (i < r \<longrightarrow> prevs s i = place_prev l k ns i \<and> nexts s i = place_next l k ns i)"

lemma fix_level_tight:
  assumes "sl_inv compare km l ns" "i < km" "ready l k ns r s i"
  shows "fix_level compare k r i s (linked l k ns x i) = Some (Inr (tight_below l k ns {i} s))"
proof -
  have rd: "reaches l k ns i (prevs s i)" "\<And>y. nexts s i = Some y \<Longrightarrow> y \<in> set (rest l k ns)"
    using assms(3) by (auto simp: ready_def)
  have same: "tight_below l k ns {i} s = s" if "prevs s i = place_prev l k ns i" "nexts s i = place_next l k ns i"
    using that by (auto simp: tight_below_def fun_eq_iff intro!: splice.equality)
  have nx: "nxt (linked l k ns x i) n i = nxt l n i" for n by simp
  show ?thesis
  proof (cases "r \<le> i \<and> nxt l (prevs s i) i \<noteq> nexts s i")
    case True
    have "FindSpliceForLevel compare (linked l k ns x i) k (prevs s i) None i =
        Some (Inr (place_prev l k ns i, place_next l k ns i))"
      by (rule FindSplice [OF assms(1,2) rd(1)]) simp_all
    then show ?thesis using True unfolding fix_level_def nx
      using tight_below_step [of l k ns "{}" i s] by (simp only: tight_below_empty bind_run_simps if_True simp_thms)
  next
    case False
    have "prevs s i = place_prev l k ns i \<and> nexts s i = place_next l k ns i"
    proof (cases "r \<le> i")
      case True
      with False have "nxt l (prevs s i) i = nexts s i" by simp
      from tight_place [OF assms(1,2) rd(1) this rd(2)] show ?thesis by (intro conjI)
    next
      case False
      with assms(3) show ?thesis unfolding ready_def not_le by blast
    qed
    then have "tight_below l k ns {i} s = s" by (intro same) simp_all
    then show ?thesis unfolding fix_level_def nx if_not_P [OF False] by (simp only:)
  qed
qed

lemma link_levels_linked:
  assumes "sl_inv compare km l ns" "h \<le> km" "x \<notin> set ns" "0 < x" "node_key l x = k"
    "\<And>n. n \<in> set ns \<Longrightarrow> compare (node_key l n) k \<noteq> 0"
  shows "j \<le> h \<Longrightarrow> (\<And>i. j \<le> i \<Longrightarrow> i < h \<Longrightarrow> ready l k ns r s i) \<Longrightarrow>
    link_levels compare k x r [j..<h] s (linked l k ns x j) = Some (Inr (tight_below l k ns {j..<h} s, linked l k ns x h))"
proof (induction "h - j" arbitrary: j s)
  case 0
  then show ?case by (simp add: tight_below_empty)
next
  case (Suc d)
  then have j: "j < h" "j < km" using assms(2) by simp_all
  let ?s = "tight_below l k ns {j} s" and ?p = "place_prev l k ns j" and ?n = "place_next l k ns j"
  have fix1: "fix_level compare k r j s (linked l k ns x j) = Some (Inr ?s)"
    by (rule fix_level_tight [OF assms(1) j(2)]) (use Suc.prems(2) j in simp)
  have p: "?p = 0 \<or> ?p \<in> set (before l k ns)"
    using last_in [of 0 "on_level l j (before l k ns)"] by (auto simp only: set_filter)
  have p': "?p \<noteq> x" "?p = 0 \<or> compare (node_key l ?p) k < 0" 
    using p before_less [of ?p l k ns] assms(3,4) by (auto simp del: last.simps filter.simps)
  have n: "compare k (node_key l y) < 0" if "?n = Some y" for y
  proof -
    have "y \<in> set (rest l k ns)" using hd_opt_in [OF that] by simp
    from rest_not_less [OF assms(1) this] assms(6) have "0 < compare (node_key l y) k" by fastforce
    then show ?thesis using flip by blast
  qed
  have nx: "nxt l ?p j = ?n" by (rule step_rest(1) [OF assms(1) HOL.refl j(2)])
  have ok: "link_ok compare x j ?s (linked l k ns x j)"
    unfolding link_ok_def tight_below_sel linked_sel assms(5)
    using p'(2) n nx by (simp split: option.split del: last.simps filter.simps)
  have lk: "SetNext (prevs ?s j) j (Some x) (SetNext x j (nexts ?s j) (linked l k ns x j)) = linked l k ns x (Suc j)"
    using linked_Suc [OF p'(1)] by simp
  have ih: "link_levels compare k x r [Suc j..<h] ?s (linked l k ns x (Suc j)) =
      Some (Inr (tight_below l k ns {Suc j..<h} ?s, linked l k ns x h))"
  proof (rule Suc.hyps(1))
    show "d = h - Suc j" "Suc j \<le> h" using Suc.hyps(2) j by simp_all
    show "ready l k ns r ?s i" if "Suc j \<le> i" "i < h" for i
    proof -
      have e: "prevs ?s i = prevs s i" "nexts ?s i = nexts s i" using that by simp_all
      have "ready l k ns r s i" by (rule Suc.prems(2)) (use that in simp_all)
      then show ?thesis unfolding ready_def e .
    qed
  qed
  have ts: "tight_below l k ns {Suc j..<h} ?s = tight_below l k ns {j..<h} s"
    using j by (auto simp: tight_below_def fun_eq_iff intro!: splice.equality)
  show ?case unfolding upt_conv_Cons [OF j(1)] link_step [OF fix1 ok lk] ih ts ..
qed


lemma same_keys:
  assumes "node_key l' = node_key l" "stashed_height l' = stashed_height l"
  shows "placed l' = placed l" "below l' = below l" "above l' = above l"
  by (intro ext, simp add: placed_def below_def above_def assms)+

lemma splice_ok_mono:
  assumes "splice_ok l ns s" "node_key l' = node_key l" "stashed_height l' = stashed_height l"
    "max_height l \<le> max_height l'" "set ns \<subseteq> set ns'"
  shows "splice_ok l' ns' s"
proof -
  have "placed l ns i p n \<Longrightarrow> placed l ns' i p n" for i p n using assms(5) by (auto simp: placed_def)
  with assms(1,4) show ?thesis unfolding splice_ok_def same_keys [OF assms(2,3)] by (meson le_trans)
qed

text \<open>The splice that the search starts from, and the level \<open>r\<close> up to which it is repaired.\<close>

definition prepared :: "'a skiplist \<Rightarrow> 'a \<Rightarrow> nat list \<Rightarrow> splice \<Rightarrow> nat \<Rightarrow> bool" where
  "prepared l k ns s r \<longleftrightarrow> r \<le> max_height l \<and> sp_height s = max_height l \<and>
     prevs s (max_height l) = 0 \<and> nexts s (max_height l) = None \<and>
     (\<forall>i. r \<le> i \<longrightarrow> i < max_height l \<longrightarrow> placed l ns i (prevs s i) (nexts s i) \<and> brackets l k (prevs s i) (nexts s i) \<and>
       below l (prevs s (Suc i)) (prevs s i) \<and> above l (nexts s i) (nexts s (Suc i)))"

lemma prepare:
  assumes "sl_inv compare km l ns" "splice_ok l ns s" "\<And>n. n \<in> set ns \<Longrightarrow> compare (node_key l n) k \<noteq> 0"
  shows "\<exists>s' r. (if sp_height s < max_height l
      then Some (Inr (s\<lparr>sp_height := max_height l, prevs := (prevs s)(max_height l := 0), nexts := (nexts s)(max_height l := None)\<rparr>, max_height l))
      else Some (map_sum id (Pair s) (recompute_height km compare l s k p (max_height l) 0))) = Some (Inr (s', r)) \<and>
    prepared l k ns s' r"
proof (cases "sp_height s < max_height l")
  case True
  then show ?thesis by (simp add: prepared_def)
next
  case False
  with assms(2) have h: "sp_height s = max_height l" by (simp add: splice_ok_def)
  from recompute_height_finds [OF assms(1,2) h assms(3), of 0 p]
  obtain r where r: "r \<le> max_height l" "recompute_height km compare l s k p (max_height l) 0 = Inr r"
    "r < max_height l \<Longrightarrow> brackets l k (prevs s r) (nexts s r)" by auto
  have ok: "placed l ns i (prevs s i) (nexts s i)" "below l (prevs s (Suc i)) (prevs s i)" "above l (nexts s i) (nexts s (Suc i))"
    if "i < max_height l" for i using assms(2) h that by (simp_all add: splice_ok_def)
  have "brackets l k (prevs s i) (nexts s i)" if "r \<le> i" "i < max_height l" for i
    using that
  proof (induction i rule: dec_induct)
    case base
    then show ?case by (rule r(3))
  next
    case (step i)
    then show ?case using brackets_up ok(2,3) Suc_lessD by blast
  qed
  moreover have "0 < max_height l" using assms(1) by (simp add: sl_inv_def)
  with assms(2) h have "prevs s (max_height l) = 0" "nexts s (max_height l) = None" by (simp_all add: splice_ok_def)
  ultimately have "prepared l k ns s r" using r(1) h ok by (simp add: prepared_def)
  with False r(2) show ?thesis by simp
qed

lemma place_ready:
  assumes "sl_inv compare km l ns"
  shows "reaches l k ns i (place_prev l k ns i)"
    "\<And>y. place_next l k ns i = Some y \<Longrightarrow> y \<in> set (on_level l i (rest l k ns))"
proof -
  show "reaches l k ns i (place_prev l k ns i)"
    using last_in [of 0 "on_level l i (before l k ns)"] by (auto simp only: reaches_def set_filter)
  show "y \<in> set (on_level l i (rest l k ns))" if "place_next l k ns i = Some y" for y
    using that by (rule hd_opt_in)
qed

lemma prepared_ready:
  assumes "sl_inv compare km l ns" "prepared l k ns s r" "i \<le> max_height l"
  shows "ready l k ns r (tight_below l k ns {..<r} s) i"
proof (cases "i < r")
  case True
  then have e: "prevs (tight_below l k ns {..<r} s) i = place_prev l k ns i"
    "nexts (tight_below l k ns {..<r} s) i = place_next l k ns i" by simp_all
  show ?thesis unfolding ready_def e using place_ready [OF assms(1)] by blast
next
  case False
  then have e: "prevs (tight_below l k ns {..<r} s) i = prevs s i" "nexts (tight_below l k ns {..<r} s) i = nexts s i"
    by simp_all
  show ?thesis
  proof (cases "i = max_height l")
    case True
    with assms(2) False show ?thesis unfolding ready_def e by (simp add: prepared_def reaches_def)
  next
    case ne: False
    with assms(2,3) False have "placed l ns i (prevs s i) (nexts s i)" "brackets l k (prevs s i) (nexts s i)"
      by (simp_all add: prepared_def)
    from placed_brackets [OF assms(1) this] False show ?thesis unfolding ready_def e by blast
  qed
qed

lemma recompute_prepared:
  assumes "sl_inv compare km l ns" "prepared l k ns s r"
  shows "(if 0 < r then RecomputeSpliceLevels compare l k r s else Some (Inr s)) = Some (Inr (tight_below l k ns {..<r} s))"
proof (cases "r = 0")
  case True
  then show ?thesis by (simp add: tight_below_empty)
next
  case False
  have r: "r \<le> max_height l" "max_height l \<le> km" "sp_height s = max_height l"
    using assms by (simp_all add: prepared_def sl_inv_def)
  have rd: "ready l k ns r (tight_below l k ns {..<r} s) r" by (rule prepared_ready [OF assms r(1)])
  have "recompute_loop compare l k r s = Some (Inr (tight_below l k ns {..<r} s))"
  proof (rule recompute_loop_tight [OF assms(1)])
    show "r < km \<or> prevs s r = 0 \<and> r \<le> km" using assms(2) r by (cases "r = max_height l") (auto simp: prepared_def)
    show "reaches l k ns r (prevs s r)" using rd by (simp add: ready_def)
    show "y \<in> set (rest l k ns)" if "nexts s r = Some y" for y using rd that by (auto simp: ready_def)
  qed
  then show ?thesis using False r by (simp add: RecomputeSpliceLevels_def)
qed

lemma sorted_distinct: "sorted_wrt (\<lambda>a b. compare (node_key l a) (node_key l b) < 0) ns \<Longrightarrow> distinct ns"
  using same by (induction ns) fastforce+

lemma linked_inv:
  assumes "sl_inv compare km l ns" "x \<notin> set ns" "0 < x" "x < fresh l" "node_key l x = k"
    "\<And>n. n \<in> set ns \<Longrightarrow> compare (node_key l n) k \<noteq> 0"
    "stashed_height l x = h" "0 < h" "h \<le> max_height l"
  shows "sl_inv compare km (linked l k ns x h) (before l k ns @ x # rest l k ns)"
proof -
  let ?B = "before l k ns" and ?R = "rest l k ns"
  have sorted: "sorted_wrt (\<lambda>a b. compare (node_key l a) (node_key l b) < 0) (?B @ ?R)"
    using assms(1) by (simp add: sl_inv_def)
  have less: "compare (node_key l n) k < 0" if "n \<in> set ?B" for n using before_less [OF that] by blast
  have more: "compare k (node_key l n) < 0" if "n \<in> set ?R" for n
  proof -
    from rest_not_less [OF assms(1) that] assms(6) have "0 < compare (node_key l n) k" by fastforce
    then show ?thesis using flip by blast
  qed
  have s: "sorted_wrt (\<lambda>a b. compare (node_key l a) (node_key l b) < 0) (?B @ x # ?R)"
    using sorted less more assms(5) by (auto simp: sorted_wrt_append dest: less_trans)
  have sets: "set (?B @ x # ?R) = insert x (set ns)" by (metis Un_insert_right list.set(2) set_append takeWhile_dropWhile_id)
  have ns: "\<forall>n\<in>insert x (set ns). 0 < n \<and> n < fresh l \<and> 0 < stashed_height l n \<and> stashed_height l n \<le> max_height l"
    using assms by (simp add: sl_inv_def)
  have dist: "distinct (0 # ns)"
  proof -
    have "distinct ns" using assms(1) by (intro sorted_distinct) (auto simp: sl_inv_def)
    then show ?thesis using assms(1) by (auto simp: sl_inv_def)
  qed
  have ch: "chain (\<lambda>n. nxt (linked l k ns x h) n i) 0 (on_level l i (?B @ x # ?R))" if i: "i < km" for i
  proof (cases "i < h")
    case True
    let ?as = "on_level l i ?B" and ?bs = "on_level l i ?R"
    have lv: "on_level l i ns = ?as @ ?bs" by (rule level_split)
    have "chain ((\<lambda>n. nxt l n i)(x := hd_opt ?bs, last (0 # ?as) := Some x)) 0 (?as @ x # ?bs)"
    proof (rule chain_insert)
      show "chain (\<lambda>n. nxt l n i) 0 (?as @ ?bs)" using sl_levelD [OF assms(1) i] unfolding lv .
      have "distinct (0 # on_level l i ns)" "x \<notin> set (0 # on_level l i ns)" using dist assms(2,3) by auto
      then show "distinct (0 # ?as @ ?bs)" "x \<notin> set (0 # ?as @ ?bs)" unfolding lv by blast+
    qed
    moreover have "(\<lambda>n. nxt l n i)(x := hd_opt ?bs, last (0 # ?as) := Some x) = (\<lambda>n. nxt (linked l k ns x h) n i)"
      using True by (simp only: linked_def fun_eq_iff fun_upd_apply skiplist.simps if_True) simp
    moreover have "on_level l i (?B @ x # ?R) = ?as @ x # ?bs" using True assms(7) by simp
    ultimately show ?thesis by (simp only:)
  next
    case False
    then have "on_level l i (?B @ x # ?R) = on_level l i ns" using assms(7) level_split [of i l ns k] by simp
    with False sl_levelD [OF assms(1) i] show ?thesis by simp
  qed
  show ?thesis using assms(1) s ns ch unfolding sl_inv_def linked_sel sets by blast
qed

end

lemma if_nested: "r \<le> (m::nat) \<Longrightarrow> (if i < m then a else b) = (if i < m then a else if i < r then a else b)"
  by simp

context key_order
begin

text \<open>The splice after the levels below \<open>m\<close> are tight.\<close>

lemma tight_splice:
  assumes "sl_inv compare km l ns" "prepared l k ns s r" "r \<le> m"
  shows "i \<le> max_height l \<Longrightarrow> reaches l k ns i (prevs (tight_below l k ns {..<m} s) i)" (is "_ \<Longrightarrow> ?reach i")
    "i \<le> max_height l \<Longrightarrow> nexts (tight_below l k ns {..<m} s) i = Some y \<Longrightarrow> y \<in> set (on_level l i (rest l k ns))"
      (is "_ \<Longrightarrow> ?next i y \<Longrightarrow> _")
    "i < max_height l \<Longrightarrow> below l (prevs (tight_below l k ns {..<m} s) (Suc i)) (prevs (tight_below l k ns {..<m} s) i)"
    "i < max_height l \<Longrightarrow> above l (nexts (tight_below l k ns {..<m} s) i) (nexts (tight_below l k ns {..<m} s) (Suc i))"
proof -
  let ?t = "tight_below l k ns {..<m} s"
  have p: "prevs ?t i = (if i < m then place_prev l k ns i else prevs (tight_below l k ns {..<r} s) i)"
    and n: "nexts ?t i = (if i < m then place_next l k ns i else nexts (tight_below l k ns {..<r} s) i)" for i
    unfolding tight_below_sel lessThan_iff by (rule if_nested [OF assms(3)])+
  have rd: "ready l k ns r (tight_below l k ns {..<r} s) i" if "i \<le> max_height l" for i
    by (rule prepared_ready [OF assms(1,2) that])
  show 1: "?reach i" if "i \<le> max_height l" for i
    using rd [OF that] place_ready(1) [OF assms(1), where i = i and k = k] unfolding p ready_def by (simp only: if_split) blast
  show 2: "y \<in> set (on_level l i (rest l k ns))" if "i \<le> max_height l" "?next i y" for i y
    using rd [OF that(1)] place_ready(2) [OF assms(1), where i = i and k = k and y = y] that(2) unfolding n ready_def
    by (cases "i < m") (simp_all only: if_True if_False)
  show "below l (prevs ?t (Suc i)) (prevs ?t i)" if i: "i < max_height l"
  proof (cases "i < m")
    case True
    have "reaches l k ns i (prevs ?t (Suc i))" using reaches_down [OF 1, of "Suc i" i] i by simp
    from below_place [OF assms(1) this] show ?thesis using p [of i] True by (simp only: if_True)
  next
    case False
    with assms i show ?thesis by (simp add: prepared_def)
  qed
  show "above l (nexts ?t i) (nexts ?t (Suc i))" if i: "i < max_height l"
  proof (cases "i < m")
    case True
    have "y \<in> set (on_level l i (rest l k ns))" if "nexts ?t (Suc i) = Some y" for y
      using 2 [of "Suc i" y] that i by simp
    from above_place [OF assms(1) this] show ?thesis using n [of i] True by (simp only: if_True)
  next
    case False
    with assms i show ?thesis by (simp add: prepared_def)
  qed
qed

lemma rest_greater:
  assumes "sl_inv compare km l ns" "\<And>n. n \<in> set ns \<Longrightarrow> compare (node_key l n) k \<noteq> 0" "y \<in> set (rest l k ns)"
  shows "compare k (node_key l y) < 0"
proof -
  from rest_not_less [OF assms(1,3)] assms(2) have "0 < compare (node_key l y) k" by fastforce
  then show ?thesis using flip by blast
qed

lemma raise_max:
  assumes "sl_inv compare km l ns" "h \<le> km"
  shows "sl_inv compare km (l\<lparr>max_height := max (max_height l) h\<rparr>) ns"
  using assms by (auto simp: sl_inv_def)

lemma linked_0: "linked l k ns x 0 = l"
  by (simp add: linked_def)

text \<open>The insertion, from the splice that is at hand.\<close>

lemma finish_insert:
  assumes inv: "sl_inv compare km l ns" and prep: "prepared l k ns s r"
    and x: "x \<notin> set ns" "0 < x" "x < fresh l" "node_key l x = k" "stashed_height l x = h" "0 < h" "h \<le> max_height l"
    and new: "\<And>n. n \<in> set ns \<Longrightarrow> compare (node_key l n) k \<noteq> 0"
  defines "s' \<equiv> tight_below l k ns {..<max h r} s"
  defines "s'' \<equiv> s'\<lparr>prevs := (\<lambda>i. if i < h then x else prevs s' i)\<rparr>"
  shows "link_levels compare k x r [0..<h] (tight_below l k ns {..<r} s) l = Some (Inr (s', linked l k ns x h))"
    and "splice_ok (linked l k ns x h) (before l k ns @ x # rest l k ns) s''"
    and "splice_asserts compare k s'' (linked l k ns x h)"
proof -
  have km: "max_height l \<le> km" using inv by (simp add: sl_inv_def)
  have r: "r \<le> max_height l" "sp_height s = max_height l" using prep by (simp_all add: prepared_def)
  have "link_levels compare k x r [0..<h] (tight_below l k ns {..<r} s) (linked l k ns x 0) =
      Some (Inr (tight_below l k ns {0..<h} (tight_below l k ns {..<r} s), linked l k ns x h))"
    by (rule link_levels_linked [OF inv _ x(1,2,4) new]) (use prepared_ready [OF inv prep] x(7) km in simp_all)
  moreover have "tight_below l k ns {0..<h} (tight_below l k ns {..<r} s) = s'"
    unfolding s'_def tight_below_def by (auto simp: fun_eq_iff intro!: splice.equality)
  ultimately show "link_levels compare k x r [0..<h] (tight_below l k ns {..<r} s) l = Some (Inr (s', linked l k ns x h))"
    unfolding linked_0 by (simp only:)
  note tight = tight_splice [OF inv prep max.cobounded2 [of r h], folded s'_def]
  have sel: "prevs s'' i = (if i < h then x else prevs s' i)" "nexts s'' i = nexts s' i" "sp_height s'' = max_height l" for i
    by (simp_all add: s''_def s'_def r)
  have no_level: "max_height l < max h r \<longleftrightarrow> False" "max_height l < h \<longleftrightarrow> False" using r(1) x(7) by simp_all
  have top: "prevs s'' (max_height l) = 0" "nexts s'' (max_height l) = None"
    using prep unfolding sel s'_def tight_below_sel lessThan_iff no_level if_False by (simp_all add: prepared_def)
  have sets: "set (before l k ns @ x # rest l k ns) = insert x (set ns)"
    by (metis Un_insert_right list.set(2) set_append takeWhile_dropWhile_id)
  have pr: "prevs s' i = 0 \<or> prevs s' i \<in> set ns \<and> i < stashed_height l (prevs s' i) \<and> compare (node_key l (prevs s' i)) k < 0"
    if "i \<le> max_height l" for i using tight(1) [OF that] before_less [of "prevs s' i" l k ns] unfolding reaches_def by blast
  have nr: "y \<in> set ns \<and> i < stashed_height l y \<and> compare k (node_key l y) < 0" if "i \<le> max_height l" "nexts s' i = Some y" for i y
  proof -
    have "y \<in> set (rest l k ns)" "i < stashed_height l y" using tight(2) [OF that] by simp_all
    then show ?thesis using rest_greater [OF inv new] rest_not_less [OF inv] by blast
  qed
  have bl: "below l (prevs s'' (Suc i)) (prevs s'' i)" if i: "i < max_height l" for i
  proof -
    consider "Suc i < h" | "Suc i = h" | "h \<le> i" by linarith
    then show ?thesis
    proof cases
      case 2
      with pr [of "Suc i"] i x show ?thesis unfolding sel by (auto simp: below_def)
    qed (use tight(3) [OF i] in \<open>simp_all add: sel below_def\<close>)
  qed
  note ab = tight(4) [folded sel(2)]
  have pl: "placed l (before l k ns @ x # rest l k ns) i (prevs s'' i) (nexts s'' i)" if "i < max_height l" for i
    using pr [of i] nr [of i] x that unfolding placed_def sets sel by auto
  note keys = same_keys [of "linked l k ns x h" l, OF linked_sel(1,2)]
  show "splice_ok (linked l k ns x h) (before l k ns @ x # rest l k ns) s''"
    using bl ab pl top unfolding splice_ok_def keys by (simp add: sel(3))
  show "splice_asserts compare k s'' (linked l k ns x h)"
    unfolding splice_asserts_def sel(3) linked_sel list_all_iff
  proof (intro conjI ballI)
    fix i assume "i \<in> set [0..<max_height l]"
    then have i: "i < max_height l" by simp
    show "case nexts s'' i of None \<Rightarrow> True | Some n \<Rightarrow> compare k (node_key l n) < 0"
      using nr [of i] i unfolding sel by (auto split: option.split)
    show "prevs s'' i = 0 \<or> compare (node_key l (prevs s'' i)) k \<le> 0"
      using pr [of i] i x(4) same [of k] unfolding sel by auto
    show "prevs s'' (i + 1) = prevs s'' i \<or> prevs s'' (i + 1) = 0 \<or>
        compare (node_key l (prevs s'' (i + 1))) (node_key l (prevs s'' i)) < 0"
      using bl [OF i] by (auto simp: below_def)
    show "nexts s'' (i + 1) = nexts s'' i \<or> nexts s'' (i + 1) = None \<or>
        nexts s'' i \<noteq> None \<and> compare (node_key l (the (nexts s'' i))) (node_key l (the (nexts s'' (i + 1)))) < 0"
      using ab [OF i] by (auto simp: above_def)
  qed (fact top)+
qed


lemma Insert_inserts:
  assumes inv: "sl_inv compare km l ns" and sp: "splice_ok l ns s"
    and x: "x \<notin> set ns" "0 < x" "x < fresh l" "0 < stashed_height l x" "stashed_height l x \<le> km"
    and new: "\<And>n. n \<in> set ns \<Longrightarrow> compare (node_key l n) (node_key l x) \<noteq> 0"
  defines "ns' \<equiv> before l (node_key l x) ns @ x # rest l (node_key l x) ns"
  shows "\<exists>s' l'. Insert km compare x s p l = Some (Inr (s', l')) \<and> sl_inv compare km l' ns' \<and> splice_ok l' ns' s' \<and>
    node_key l' = node_key l \<and> stashed_height l' = stashed_height l \<and> fresh l' = fresh l \<and> max_height l \<le> max_height l'"
proof -
  define k where "k = node_key l x"
  define h where "h = stashed_height l x"
  define l1 where "l1 = l\<lparr>max_height := max (max_height l) h\<rparr>"
  have l1: "node_key l1 = node_key l" "stashed_height l1 = stashed_height l" "fresh l1 = fresh l"
    "max_height l1 = max (max_height l) h" by (simp_all add: l1_def)
  have l1_eq: "l\<lparr>max_height := max_height l1\<rparr> = l1" by (simp add: l1_def)
  have inv1: "sl_inv compare km l1 ns" unfolding l1_def by (rule raise_max [OF inv]) (simp add: h_def x)
  have sp1: "splice_ok l1 ns s" by (rule splice_ok_mono [OF sp l1(1,2)]) (simp_all add: l1)
  have new1: "compare (node_key l1 n) k \<noteq> 0" if "n \<in> set ns" for n using new [OF that] by (simp add: l1 k_def)
  from prepare [OF inv1 sp1 new1, of p]
  obtain s' r where P: "(if sp_height s < max_height l1
      then Some (Inr (s\<lparr>sp_height := max_height l1, prevs := (prevs s)(max_height l1 := 0), nexts := (nexts s)(max_height l1 := None)\<rparr>, max_height l1))
      else Some (map_sum id (Pair s) (recompute_height km compare l1 s k p (max_height l1) 0))) = Some (Inr (s', r))"
    and prep: "prepared l1 k ns s' r" by blast
  have hx: "stashed_height l1 x = h" "0 < h" "h \<le> max_height l1" "node_key l1 x = k" "x < fresh l1"
    using x by (simp_all add: l1 h_def k_def)
  note fin = finish_insert [OF inv1 prep x(1,2) hx(5,4,1,2,3) new1]
  have r: "r \<le> max_height l1" using prep by (simp add: prepared_def)
  have km: "max_height l1 \<le> kMaxPossibleHeight" "h \<le> km" using inv1 x(5) by (auto simp: sl_inv_def h_def)
  define t where "t = tight_below l1 k ns {..<max h r} s'"
  have "Insert km compare x s p l = Some (Inr (t\<lparr>prevs := (\<lambda>i. if i < h then x else prevs t i)\<rparr>, linked l1 k ns x h))"
    unfolding Insert_def Let_def k_def [symmetric] h_def [symmetric] l1(4) [symmetric] l1_eq P bind_run_simps prod.case
      recompute_prepared [OF inv1 prep]
    using fin(1,3) [folded t_def] r km hx(2) by simp
  moreover have "ns' = before l1 k ns @ x # rest l1 k ns" by (simp add: ns'_def l1 k_def)
  moreover have "sl_inv compare km (linked l1 k ns x h) (before l1 k ns @ x # rest l1 k ns)"
    by (rule linked_inv [OF inv1 x(1,2) hx(5,4) new1 hx(1-3)])
  ultimately show ?thesis using fin(2) [folded t_def] by (simp add: l1)
qed

end

end
