(* ===== verification/SkipListSpec.thy ===== *)
theory SkipListSpec
  imports SkipListInsert
begin

section \<open>RocksDB: what the skip list promises\<close>

text \<open>
  Insertions one after the other through the splice of the list and through hints, then the iterators and the
  estimate, and the properties of the list for the comparison of internal keys.
\<close>

subsection \<open>Many insertions\<close>

lemma RandomHeight_bounds:
  assumes "0 < km"
  shows "0 < RandomHeight km ib rs" "RandomHeight km ib rs \<le> km"
proof -
  have "0 < h \<Longrightarrow> h \<le> km \<Longrightarrow> 0 < grow_height km ib h rs \<and> grow_height km ib h rs \<le> km" for h
    by (induction km ib h rs rule: grow_height.induct) auto
  from this [of 1] assms show "0 < RandomHeight km ib rs" "RandomHeight km ib rs \<le> km"
    by (simp_all add: RandomHeight_def)
qed

context key_order
begin

definition inserter_inv :: "nat \<Rightarrow> 'a inserter \<Rightarrow> nat list \<Rightarrow> bool" where
  "inserter_inv km m ns \<longleftrightarrow> sl_inv compare km (slist m) ns \<and> splice_ok (slist m) ns (seq_splice m) \<and>
     (\<forall>h s. hints m h = Some s \<longrightarrow> splice_ok (slist m) ns s)"

abbreviation insert_sorted :: "'a \<Rightarrow> 'a list \<Rightarrow> 'a list" where
  "insert_sorted k ks \<equiv> takeWhile (\<lambda>a. compare a k < 0) ks @ k # dropWhile (\<lambda>a. compare a k < 0) ks"

lemma new_splice_ok: "splice_ok l ns new_splice"
  by (simp add: splice_ok_def new_splice_def)

lemma new_inserter_inv: "0 < km \<Longrightarrow> km \<le> kMaxPossibleHeight \<Longrightarrow> inserter_inv km (new_inserter k) []"
  by (simp add: inserter_inv_def new_inserter_def new_skiplist_def new_splice_ok sl_inv_def)

lemma sorted_keys:
  "(\<And>n. n \<in> set ns \<Longrightarrow> f n = g n) \<Longrightarrow>
    sorted_wrt (\<lambda>a b. compare (f a) (f b) < 0) ns \<longleftrightarrow> sorted_wrt (\<lambda>a b. compare (g a) (g b) < 0) ns"
  by (induction ns) auto

lemma allocated:
  assumes "sl_inv compare km l ns" "0 < height" "height \<le> km" "AllocateKey height k l = (x, l')"
  shows "sl_inv compare km l' ns" "x \<notin> set ns" "0 < x" "x < fresh l'" "node_key l' x = k"
    "stashed_height l' x = height" "\<And>n. n \<in> set ns \<Longrightarrow> node_key l' n = node_key l n \<and> stashed_height l' n = stashed_height l n"
    "max_height l' = max_height l"
proof -
  have l': "x = fresh l" "l' = l\<lparr>node_key := (node_key l)(fresh l := k), stashed_height := (stashed_height l)(fresh l := height),
      fresh := fresh l + 1\<rparr>" using assms(4) unfolding AllocateKey_def by (metis prod.inject)+
  show new: "x \<notin> set ns" using assms(1) by (auto simp: sl_inv_def l')
  then show old: "node_key l' n = node_key l n \<and> stashed_height l' n = stashed_height l n" if "n \<in> set ns" for n
    using that by (auto simp: l')
  have lv: "on_level l' i ns = on_level l i ns" for i using old by (intro filter_cong) simp_all
  have nx: "nxt l' = nxt l" by (simp add: l')
  have "sorted_wrt (\<lambda>a b. compare (node_key l' a) (node_key l' b) < 0) ns \<longleftrightarrow>
      sorted_wrt (\<lambda>a b. compare (node_key l a) (node_key l b) < 0) ns"
    by (rule sorted_keys) (use old in simp)
  moreover have "fresh l < fresh l'" "max_height l' = max_height l" by (simp_all add: l')
  moreover note sl = assms(1) [unfolded sl_inv_def]
  have "\<forall>n\<in>set ns. 0 < n \<and> n < fresh l' \<and> 0 < stashed_height l' n \<and> stashed_height l' n \<le> max_height l'"
    using sl old by (auto simp: l')
  ultimately show "sl_inv compare km l' ns" using sl unfolding sl_inv_def lv nx by auto
  show "0 < x" "x < fresh l'" "node_key l' x = k" "stashed_height l' x = height" "max_height l' = max_height l"
    using sl by (simp_all add: l')
qed

lemma splice_ok_cong:
  assumes "splice_ok l ns s" "\<And>n. n \<in> set ns \<Longrightarrow> node_key l' n = node_key l n \<and> stashed_height l' n = stashed_height l n"
    "max_height l' = max_height l"
  shows "splice_ok l' ns s"
proof -
  have top: "sp_height s \<le> max_height l'" "0 < sp_height s \<longrightarrow> prevs s (sp_height s) = 0 \<and> nexts s (sp_height s) = None"
    using assms(1,3) by (simp_all add: splice_ok_def)
  have pl: "i < sp_height s \<Longrightarrow> placed l ns i (prevs s i) (nexts s i)" for i
    using assms(1) by (simp add: splice_ok_def)
  have pl': "i < sp_height s \<Longrightarrow> placed l' ns i (prevs s i) (nexts s i)" for i
    using pl [of i] assms(2) by (auto simp: placed_def)
  have p: "prevs s i = 0 \<or> prevs s i \<in> set ns" and n: "\<And>y. nexts s i = Some y \<Longrightarrow> y \<in> set ns" if "i \<le> sp_height s" "0 < sp_height s" for i
    using pl [of i] top that unfolding placed_def by (cases "i = sp_height s"; auto)+
  have "below l' (prevs s (Suc i)) (prevs s i)" "above l' (nexts s i) (nexts s (Suc i))" if i: "i < sp_height s" for i
  proof -
    have "below l (prevs s (Suc i)) (prevs s i)" "above l (nexts s i) (nexts s (Suc i))"
      using assms(1) i by (simp_all add: splice_ok_def)
    then show "below l' (prevs s (Suc i)) (prevs s i)" "above l' (nexts s i) (nexts s (Suc i))"
      using p [of i] p [of "Suc i"] n [of i] n [of "Suc i"] i assms(2) by (auto simp: below_def above_def)
  qed
  with top pl' show ?thesis by (simp add: splice_ok_def)
qed

lemma insertion_inserts:
  assumes "inserter_inv km m ns" "0 < km" "\<And>n. n \<in> set ns \<Longrightarrow> compare (node_key (slist m) n) (ins_key a) \<noteq> 0"
  shows "\<exists>m' ns'. insert_one km ib compare a m = Some (Inr m') \<and> inserter_inv km m' ns' \<and>
    map (node_key (slist m')) ns' = insert_sorted (ins_key a) (map (node_key (slist m)) ns)"
proof -
  obtain rs where rs: "a = Seq_Insert rs (ins_key a) \<or> (\<exists>h. a = Hint_Insert h rs (ins_key a))" by (cases a) auto
  let ?k = "ins_key a"
  obtain x l where al: "AllocateKey (RandomHeight km ib rs) ?k (slist m) = (x, l)" by fastforce
  have inv: "sl_inv compare km (slist m) ns" "splice_ok (slist m) ns (seq_splice m)"
    "\<And>h s. hints m h = Some s \<Longrightarrow> splice_ok (slist m) ns s" using assms(1) by (auto simp: inserter_inv_def)
  note alloc = allocated [OF inv(1) RandomHeight_bounds [OF assms(2)] al]
  have ok: "splice_ok l ns s" if "splice_ok (slist m) ns s" for s
    by (rule splice_ok_cong [OF that]) (simp_all add: alloc(7,8))
  let ?ns = "before l ?k ns @ x # rest l ?k ns"
  have keys: "map (node_key l) ns = map (node_key (slist m)) ns" using alloc(7) by simp
  have new: "compare (node_key l n) (node_key l x) \<noteq> 0" if "n \<in> set ns" for n using assms(3) alloc(5,7) that by simp
  have height: "0 < stashed_height l x" "stashed_height l x \<le> km"
    unfolding alloc(6) using RandomHeight_bounds [OF assms(2)] by blast+
  have one: "\<exists>s' l'. Insert km compare x s p l = Some (Inr (s', l')) \<and> sl_inv compare km l' ?ns \<and> splice_ok l' ?ns s' \<and>
      (\<forall>s. splice_ok l ns s \<longrightarrow> splice_ok l' ?ns s) \<and> node_key l' = node_key l" if s: "splice_ok l ns s" for s p
  proof -
    obtain s' l' where i: "Insert km compare x s p l = Some (Inr (s', l'))" "sl_inv compare km l' ?ns" "splice_ok l' ?ns s'"
      "node_key l' = node_key l" "stashed_height l' = stashed_height l" "max_height l \<le> max_height l'"
      using Insert_inserts [OF alloc(1) s alloc(2-4) height new, of p] unfolding alloc(5) by blast
    have "set ns \<subseteq> set ?ns" by (metis Un_insert_right list.set(2) set_append subset_insertI takeWhile_dropWhile_id)
    with i splice_ok_mono [OF _ i(4-6)] show ?thesis by blast
  qed
  have ks: "map (node_key l) ?ns = insert_sorted ?k (map (node_key (slist m)) ns)"
    unfolding keys [symmetric] by (simp add: takeWhile_map dropWhile_map comp_def alloc(5))
  have hint: "splice_ok l ns (case hints m h of None \<Rightarrow> new_splice | Some s \<Rightarrow> s)" for h
    using ok inv(3) new_splice_ok by (auto split: option.split)
  from rs show ?thesis
  proof (elim disjE exE)
    assume a: "a = Seq_Insert rs ?k"
    obtain s' l' where i: "Insert km compare x (seq_splice m) False l = Some (Inr (s', l'))" "sl_inv compare km l' ?ns"
      "splice_ok l' ?ns s'" "\<And>s. splice_ok l ns s \<Longrightarrow> splice_ok l' ?ns s" "node_key l' = node_key l"
      using one [OF ok [OF inv(2)]] by blast
    show ?thesis
      by (intro exI [of _ "m\<lparr>slist := l', seq_splice := s'\<rparr>"] exI [of _ ?ns], subst a)
        (use i(1-3) ok i(4) inv(3) ks in \<open>auto simp: al Insert_key_def inserter_inv_def i(5)\<close>)
  next
    fix h assume a: "a = Hint_Insert h rs ?k"
    obtain s' l' where i: "Insert km compare x (case hints m h of None \<Rightarrow> new_splice | Some s \<Rightarrow> s) True l = Some (Inr (s', l'))"
      "sl_inv compare km l' ?ns" "splice_ok l' ?ns s'" "\<And>s. splice_ok l ns s \<Longrightarrow> splice_ok l' ?ns s" "node_key l' = node_key l"
      using one [OF hint] by blast
    show ?thesis
      by (intro exI [of _ "m\<lparr>slist := l', hints := (hints m)(h \<mapsto> s')\<rparr>"] exI [of _ ?ns], subst a)
        (use i(1-3) ok i(4) inv(2,3) ks in \<open>auto simp: al InsertWithHint_def inserter_inv_def i(5)\<close>)
  qed
qed

end

lemma estimate_steps:
  assumes "x = 0 \<or> compare (node_key l x) key < 0"
  shows "nxt l x i = Some n \<Longrightarrow> compare (node_key l n) key < 0 \<Longrightarrow>
      estimate compare b l key x i c = estimate compare b l key n i (c + 1)"
    "(\<And>n. nxt l x i = Some n \<Longrightarrow> 0 \<le> compare (node_key l n) key) \<Longrightarrow> estimate compare b l key x i c =
      (if i = 0 then Some (Inr c) else estimate compare b l key x (i - 1) (c * word_of_nat b))"
  using assms by (subst estimate.simps, fastforce split: option.splits)+

context key_order
begin

lemma set_insert_sorted: "set (insert_sorted k ks) = insert k (set ks)"
  by (metis Un_insert_right list.set(2) set_append takeWhile_dropWhile_id)

definition distinct_keys :: "'a insertion list \<Rightarrow> bool" where
  "distinct_keys as \<longleftrightarrow> sorted_wrt (\<lambda>a b. compare (ins_key a) (ins_key b) \<noteq> 0) as"

lemma insert_all_inserts:
  assumes "0 < km"
  shows "inserter_inv km m ns \<Longrightarrow> distinct_keys as \<Longrightarrow>
    (\<And>a n. a \<in> set as \<Longrightarrow> n \<in> set ns \<Longrightarrow> compare (node_key (slist m) n) (ins_key a) \<noteq> 0) \<Longrightarrow>
    \<exists>m' ns'. insert_all km ib compare as m = Some (Inr m') \<and> inserter_inv km m' ns' \<and>
      node_key (slist m') ` set ns' = node_key (slist m) ` set ns \<union> ins_key ` set as"
proof (induction as arbitrary: m ns)
  case (Cons a as)
  obtain m1 ns1 where 1: "insert_one km ib compare a m = Some (Inr m1)" "inserter_inv km m1 ns1"
    "map (node_key (slist m1)) ns1 = insert_sorted (ins_key a) (map (node_key (slist m)) ns)"
    using insertion_inserts [OF Cons.prems(1) assms, of a ib] Cons.prems(3) by fastforce
  from 1(3) have keys: "node_key (slist m1) ` set ns1 = insert (ins_key a) (node_key (slist m) ` set ns)"
    using set_insert_sorted [of "ins_key a" "map (node_key (slist m)) ns"] by (metis list.set_map)
  have "compare (node_key (slist m1) n) (ins_key b) \<noteq> 0" if "b \<in> set as" "n \<in> set ns1" for b n
  proof -
    have "node_key (slist m1) n \<in> insert (ins_key a) (node_key (slist m) ` set ns)" using that(2) keys by blast
    then show ?thesis using Cons.prems(2,3) that(1) by (auto simp: distinct_keys_def)
  qed
  moreover have "distinct_keys as" using Cons.prems(2) by (simp add: distinct_keys_def)
  ultimately obtain m2 ns2 where 2: "insert_all km ib compare as m1 = Some (Inr m2)" "inserter_inv km m2 ns2"
    "node_key (slist m2) ` set ns2 = node_key (slist m1) ` set ns1 \<union> ins_key ` set as"
    using Cons.IH [OF 1(2)] by blast
  have "insert_all km ib compare (a # as) m = Some (Inr m2)" using 1(1) 2(1) by simp
  moreover have "node_key (slist m2) ` set ns2 = node_key (slist m) ` set ns \<union> ins_key ` set (a # as)"
    unfolding 2(3) keys by auto
  ultimately show ?case using 2(2) by blast
qed auto

subsection \<open>Iterators\<close>

lemma level0: "sl_inv compare km l ns \<Longrightarrow> chain (\<lambda>n. nxt l n 0) 0 ns"
  using sl_levelD [of compare km l ns 0] level_zero [of km l ns ns] by (simp add: sl_inv_def)

lemma it_next_eq:
  assumes "sl_inv compare km l ns" "i < length ns"
  shows "it_next l (Some (ns ! i)) = Inr (if Suc i < length ns then Some (ns ! Suc i) else None)"
proof -
  have "chain (\<lambda>n. nxt l n 0) 0 (take (Suc i) ns @ drop (Suc i) ns)" using level0 [OF assms(1)] by simp
  from chain_next [OF this] have "nxt l (ns ! i) 0 = hd_opt (drop (Suc i) ns)"
    using assms(2) by (simp add: take_Suc_conv_app_nth)
  then show ?thesis by (cases "Suc i < length ns") (simp_all add: it_next_def flip: Cons_nth_drop_Suc)
qed

lemma before_nth:
  assumes "sl_inv compare km l ns" "i < length ns"
  shows "before l (node_key l (ns ! i)) ns = take i ns"
proof (rule takeWhile_eq_take_P_nth)
  have s: "sorted_wrt (\<lambda>a b. compare (node_key l a) (node_key l b) < 0) ns" using assms(1) by (simp add: sl_inv_def)
  show "compare (node_key l (ns ! j)) (node_key l (ns ! i)) < 0" if "j < i" "j < length ns" for j
    using sorted_wrt_nth_less [OF s that(1) assms(2)] .
  show "\<not> compare (node_key l (ns ! i)) (node_key l (ns ! i)) < 0" using same by simp
qed

lemma last_or_head:
  assumes "sl_inv compare km l ns" "set xs \<subseteq> set ns"
  shows "not_head (last (0 # xs)) = (if xs = [] then None else Some (last xs))"
proof (cases "xs = []")
  case False
  then have "last xs \<in> set ns" using assms(2) by auto
  then have "last xs \<noteq> 0" using assms(1) by (auto simp: sl_inv_def)
  with False show ?thesis by (simp add: not_head_def)
qed (simp add: not_head_def)

lemma it_prev_eq:
  assumes "sl_inv compare km l ns" "i < length ns"
  shows "it_prev compare l (Some (ns ! i)) = Some (Inr (if i = 0 then None else Some (ns ! (i - 1))))"
  using assms last_or_head [OF assms(1), of "take i ns"] set_take_subset [of i ns]
  by (auto simp: it_prev_def FindLessThan_eq before_nth last_conv_nth simp del: last.simps)

lemma it_seek_to_last_eq: "sl_inv compare km l ns \<Longrightarrow>
    it_seek_to_last l = Some (Inr (if ns = [] then None else Some (last ns)))"
  using last_or_head [of km l ns ns] by (simp add: it_seek_to_last_def FindLast_eq del: last.simps)

lemma it_seek_to_first_eq: "sl_inv compare km l ns \<Longrightarrow> it_seek_to_first l = hd_opt ns"
  using chain_next [of "\<lambda>n. nxt l n 0" 0 "[]" ns] level0 by (simp add: it_seek_to_first_def)

lemma it_seek_for_prev_eq:
  fixes k :: 'a
  assumes "sl_inv compare km l ns"
  defines "ps \<equiv> takeWhile (\<lambda>n. compare (node_key l n) k \<le> 0) ns"
  shows "it_seek_for_prev compare l k = Some (Inr (if ps = [] then None else Some (last ps)))"
proof (cases "rest l k ns")
  case Nil
  then have "before l k ns = ns" by (metis append.right_neutral takeWhile_dropWhile_id)
  then have all: "compare (node_key l n) k < 0" if "n \<in> set ns" for n using before_less [of n l k ns] that by simp
  then have ps: "ps = ns" by (simp add: ps_def takeWhile_eq_all_conv order_less_imp_le)
  have "back_while compare l k (if ns = [] then None else Some (last ns)) = Some (Inr (if ns = [] then None else Some (last ns)))"
    using all last_in_set [of ns] flip [of k] by (subst back_while.simps) fastforce
  then show ?thesis
    by (simp add: it_seek_for_prev_def it_seek_def FindGreaterOrEqual_eq [OF assms(1)] Nil it_seek_to_last_eq [OF assms(1)] ps)
next
  case (Cons y r)
  let ?b = "before l k ns"
  have ns: "ns = ?b @ y # r" by (metis Cons takeWhile_dropWhile_id)
  have y: "0 \<le> compare (node_key l y) k" using rest_not_less [OF assms(1), of y k] Cons by simp
  have b: "compare (node_key l n) k < 0" if "n \<in> set ?b" for n using before_less [OF that] by blast
  have r: "0 < compare (node_key l n) k" if "n \<in> set r" for n
  proof -
    have "sorted_wrt (\<lambda>a b. compare (node_key l a) (node_key l b) < 0) (?b @ y # r)"
      using assms(1) unfolding sl_inv_def ns [symmetric] by blast
    then have "compare (node_key l y) (node_key l n) < 0" using that by (simp add: sorted_wrt_append)
    from le_less_trans [OF _ this, of k] y le_flip [of k "node_key l y"] flip [of k "node_key l n"] show ?thesis by linarith
  qed
  have stop: "back_while compare l k (if xs = [] then None else Some (last xs)) = Some (Inr (if xs = [] then None else Some (last xs)))"
    if "\<And>n. n \<in> set xs \<Longrightarrow> compare (node_key l n) k \<le> 0" for xs
    using that last_in_set [of xs] flip [of k] by (subst back_while.simps) fastforce
  have seek: "it_seek_for_prev compare l k = back_while compare l k (Some y)"
    by (simp add: it_seek_for_prev_def it_seek_def FindGreaterOrEqual_eq [OF assms(1)] Cons)
  have r0: "takeWhile (\<lambda>n. compare (node_key l n) k \<le> 0) r = []" using r by (cases r) force+
  have psb: "ps = ?b @ (if compare (node_key l y) k = 0 then [y] else [])"
    unfolding ps_def using b r0 y by (subst ns, subst takeWhile_append2) (auto simp: order_less_imp_le)
  show ?thesis
  proof (cases "compare (node_key l y) k = 0")
    case True
    with b have "compare (node_key l n) k \<le> 0" if "n \<in> set (?b @ [y])" for n using that by (auto simp: order_less_imp_le)
    from stop [of "?b @ [y]", OF this] psb seek True show ?thesis by simp
  next
    case False
    with y have k: "compare k (node_key l y) < 0" using flip [of k "node_key l y"] by simp
    have i: "ns ! length ?b = y" "length ?b < length ns" using ns by (metis nth_append_length, metis length_append add_less_cancel_left add.right_neutral length_greater_0_conv list.distinct(1))
    have "?b \<noteq> [] \<Longrightarrow> (?b @ y # r) ! (length ?b - 1) = last ?b" by (simp add: nth_append last_conv_nth)
    then have lst: "?b \<noteq> [] \<Longrightarrow> ns ! (length ?b - 1) = last ?b" unfolding ns [symmetric] .
    from it_prev_eq [OF assms(1) i(2)] have "it_prev compare l (Some y) = Some (Inr (if ?b = [] then None else Some (last ?b)))"
      unfolding i(1) using lst by auto
    with k have "back_while compare l k (Some y) = back_while compare l k (if ?b = [] then None else Some (last ?b))"
      by (subst back_while.simps) simp
    with stop [of ?b] b seek psb False show ?thesis by (simp add: order_less_imp_le)
  qed
qed

subsection \<open>The estimate\<close>

lemma estimate_before:
  assumes "sl_inv compare km l ns" "i < km"
  shows "on_level l i (before l k ns) = as @ bs \<Longrightarrow>
    estimate compare b l k (last (0 # as)) i c = estimate compare b l k (place_prev l k ns i) i (c + word_of_nat (length bs))"
proof (induction bs arbitrary: as c)
  case (Cons y bs)
  note st = step_before [OF assms(1) Cons.prems assms(2)]
  have x: "last (0 # as) = 0 \<or> compare (node_key l (last (0 # as))) k < 0"
    using search_fine [OF assms(1) Cons.prems assms(2)] unfolding search_ok_def key_after_def option.case by blast
  have y: "compare (node_key l y) k < 0" using st(2) by (simp add: key_after_def)
  have "on_level l i (before l k ns) = (as @ [y]) @ bs" using Cons.prems by simp
  from Cons.IH [OF this, of "c + 1"]
  have "estimate compare b l k y i (c + 1) = estimate compare b l k (place_prev l k ns i) i (c + 1 + word_of_nat (length bs))"
    by simp
  then show ?case unfolding estimate_steps(1) [where compare = compare, OF x st(1) y] by (simp add: add.assoc)
qed simp

lemma estimate_returns:
  assumes "sl_inv compare km l ns"
  shows "i < km \<Longrightarrow> reaches l k ns i x \<Longrightarrow> \<exists>c'. estimate compare b l k x i c = Some (Inr c')"
proof (induction i arbitrary: x c)
  case (0 x c)
  let ?B = "on_level l 0 (before l k ns)"
  obtain as bs where ab: "?B = as @ bs" and x: "x = last (0 # as)" using split_level [OF 0(2) assms] by blast
  have B: "?B = ?B @ []" by simp
  note st = step_rest [OF assms HOL.refl 0(1), of k]
  have h: "place_prev l k ns 0 = 0 \<or> compare (node_key l (place_prev l k ns 0)) k < 0"
    using search_fine [OF assms B 0(1)] unfolding search_ok_def key_after_def option.case by blast
  have n: "0 \<le> compare (node_key l n) k" if "nxt l (place_prev l k ns 0) 0 = Some n" for n
    using st(2) [of n] that unfolding st(1) by blast
  have "estimate compare b l k (place_prev l k ns 0) 0 c =
      (if (0::nat) = 0 then Some (Inr c) else estimate compare b l k (place_prev l k ns 0) (0 - 1) (c * word_of_nat b))" for c
    by (rule estimate_steps(2), rule h, erule n)
  then show ?case unfolding x estimate_before [OF assms 0(1) ab] by (simp only: if_True simp_thms) blast
next
  case (Suc i x c)
  let ?B = "on_level l (Suc i) (before l k ns)"
  obtain as bs where ab: "?B = as @ bs" and x: "x = last (0 # as)" using split_level [OF Suc.prems(2) assms] by blast
  have B: "?B = ?B @ []" by simp
  note st = step_rest [OF assms HOL.refl Suc.prems(1), of k]
  have h: "place_prev l k ns (Suc i) = 0 \<or> compare (node_key l (place_prev l k ns (Suc i))) k < 0"
    using search_fine [OF assms B Suc.prems(1)] unfolding search_ok_def key_after_def option.case by blast
  have n: "0 \<le> compare (node_key l n) k" if "nxt l (place_prev l k ns (Suc i)) (Suc i) = Some n" for n
    using st(2) [of n] that unfolding st(1) by blast
  have "reaches l k ns i (place_prev l k ns (Suc i))"
    using reaches_down [OF place_ready(1) [OF assms, where i = "Suc i" and k = k], of i] by (simp only: le_SucI order_refl)
  then have "\<exists>c'. estimate compare b l k (place_prev l k ns (Suc i)) i c = Some (Inr c')" for c
    using Suc.IH Suc.prems(1) by simp
  moreover have "estimate compare b l k (place_prev l k ns (Suc i)) (Suc i) c =
      (if Suc i = 0 then Some (Inr c) else estimate compare b l k (place_prev l k ns (Suc i)) (Suc i - 1) (c * word_of_nat b))" for c
    by (rule estimate_steps(2), rule h, erule n)
  ultimately show ?case unfolding x estimate_before [OF assms Suc.prems(1) ab] by (simp only: nat.distinct if_False diff_Suc_1)
qed

lemma EstimateCount_returns: "sl_inv compare km l ns \<Longrightarrow> \<exists>c. EstimateCount compare b l k = Some (Inr c)"
  unfolding EstimateCount_def by (rule estimate_returns) (auto simp: sl_inv_def reaches_def)

end

subsection \<open>The skip list of internal keys\<close>

lemma user_order:
  assumes "user \<in> {BytewiseComparator, ReverseBytewiseComparator}"
  shows "key_order (tag_compare (cmp user))" "tag_compare (cmp user) a b = 0 \<longleftrightarrow> a = b"
proof -
  show "key_order (tag_compare (cmp user))"
    using assms bytewise.tagged.key_order_axioms reverse_bytewise.tagged.key_order_axioms by blast
  have "cmp user (fst a) (fst b) = 0 \<longleftrightarrow> fst a = fst b"
    using assms by (auto simp: BytewiseComparator_def ReverseBytewiseComparator_def reverse_compare_def slice_compare_order)
  then show "tag_compare (cmp user) a b = 0 \<longleftrightarrow> a = b"
    by (auto simp: tag_compare_def Let_def prod_eq_iff)
qed

text \<open>C29: insertion into the skip list. Nodes with pairwise different internal keys are inserted one after the
  other, each of any height that can be drawn, through the splice of the list or through any hint. Every
  insertion ends, no assertion fails, and afterwards the nodes with exactly these keys are linked in the order
  of the keys, on each level those that are high enough.\<close>

theorem skip_list_insertions:
  assumes "user \<in> {BytewiseComparator, ReverseBytewiseComparator}" "0 < km" "km \<le> kMaxPossibleHeight"
    "distinct (map ins_key as)"
  shows "\<exists>m ns. insert_all km ib (tag_compare (cmp user)) as (new_inserter k) = Some (Inr m) \<and>
    sl_inv (tag_compare (cmp user)) km (slist m) ns \<and> node_key (slist m) ` set ns = ins_key ` set as"
proof -
  let ?c = "tag_compare (cmp user)"
  note ko = user_order(1) [OF assms(1)]
  have "key_order.distinct_keys ?c as"
    unfolding key_order.distinct_keys_def [OF ko] user_order(2) [OF assms(1)]
    using assms(4) by (induction as) auto
  from key_order.insert_all_inserts [OF ko assms(2) key_order.new_inserter_inv [OF ko assms(2,3)] this, of k ib]
  obtain m ns where "insert_all km ib ?c as (new_inserter k) = Some (Inr m)" "key_order.inserter_inv ?c km m ns"
    "node_key (slist m) ` set ns = ins_key ` set as" by auto
  then show ?thesis unfolding key_order.inserter_inv_def [OF ko] by blast
qed

lemma skip_list_insertions_witness:
  "\<exists>m ns. insert_all 12 4 (tag_compare (cmp BytewiseComparator))
      [Seq_Insert [0, 0, 9] ([7], 5), Hint_Insert 3 [] ([7], 8), Hint_Insert 3 [1] ([2], 6), Seq_Insert [] ([9, 1], 7)]
      (new_inserter ([], 0)) = Some (Inr m) \<and>
    sl_inv (tag_compare (cmp BytewiseComparator)) 12 (slist m) ns \<and>
    node_key (slist m) ` set ns = {([7], 5), ([7], 8), ([2], 6), ([9, 1], 7)}"
  using skip_list_insertions [of BytewiseComparator 12
      "[Seq_Insert [0, 0, 9] ([7], 5), Hint_Insert 3 [] ([7], 8), Hint_Insert 3 [1] ([2], 6), Seq_Insert [] ([9, 1], 7)]" 4 "([], 0)"]
  by (simp add: kMaxPossibleHeight_def)

text \<open>C32: searching the skip list. \<open>FindGreaterOrEqual\<close> ends, without a failing assertion, at the first node
  whose key is not less than the one asked for, \<open>FindLessThan\<close> at the last one whose key is less (or at the head),
  \<open>FindLast\<close> at the last; \<open>Contains\<close> tells whether there is an equal key, and the estimate of the number of
  smaller keys is computed.\<close>

theorem skip_list_searches:
  assumes "user \<in> {BytewiseComparator, ReverseBytewiseComparator}" "sl_inv (tag_compare (cmp user)) km l ns"
  shows "FindGreaterOrEqual (tag_compare (cmp user)) l key =
      Some (Inr (find (\<lambda>n. 0 \<le> tag_compare (cmp user) (node_key l n) key) ns)) \<and>
    FindLessThan (tag_compare (cmp user)) l key =
      Some (Inr (last (0 # filter (\<lambda>n. tag_compare (cmp user) (node_key l n) key < 0) ns))) \<and>
    FindLast l = Some (last (0 # ns)) \<and>
    Contains (tag_compare (cmp user)) l key = Some (Inr (key \<in> node_key l ` set ns)) \<and>
    (\<exists>c. EstimateCount (tag_compare (cmp user)) branching l key = Some (Inr c))"
proof (intro conjI)
  let ?c = "tag_compare (cmp user)"
  note ko = user_order(1) [OF assms(1)]
  have find: "hd_opt (dropWhile (\<lambda>n. ?c (node_key l n) key < 0) xs) = find (\<lambda>n. 0 \<le> ?c (node_key l n) key) xs" for xs
    by (induction xs) (auto simp: not_less)
  show "FindGreaterOrEqual ?c l key = Some (Inr (find (\<lambda>n. 0 \<le> ?c (node_key l n) key) ns))"
    using key_order.FindGreaterOrEqual_eq [OF ko assms(2), of key] unfolding find .
  have "filter (\<lambda>n. ?c (node_key l n) key < 0) (dropWhile (\<lambda>n. ?c (node_key l n) key < 0) ns) = []"
    using key_order.rest_not_less [OF ko assms(2), of _ key] by (auto simp: filter_empty_conv not_less)
  moreover have "filter (\<lambda>n. ?c (node_key l n) key < 0) (takeWhile (\<lambda>n. ?c (node_key l n) key < 0) ns) =
      takeWhile (\<lambda>n. ?c (node_key l n) key < 0) ns" by (auto simp: filter_id_conv dest: set_takeWhileD)
  ultimately have "filter (\<lambda>n. ?c (node_key l n) key < 0) ns = takeWhile (\<lambda>n. ?c (node_key l n) key < 0) ns"
    by (metis append.right_neutral filter_append takeWhile_dropWhile_id)
  then show "FindLessThan ?c l key = Some (Inr (last (0 # filter (\<lambda>n. ?c (node_key l n) key < 0) ns)))"
    using key_order.FindLessThan_eq [OF ko assms(2)] by (simp only:)
  show "FindLast l = Some (last (0 # ns))" by (rule key_order.FindLast_eq [OF ko assms(2)])
  show "Contains ?c l key = Some (Inr (key \<in> node_key l ` set ns))"
    using key_order.Contains_eq [OF ko assms(2)] user_order(2) [OF assms(1)] by auto
  show "\<exists>c. EstimateCount ?c branching l key = Some (Inr c)" by (rule key_order.EstimateCount_returns [OF ko assms(2)])
qed

lemma skip_list_searches_witness:
  "FindGreaterOrEqual (tag_compare (cmp ReverseBytewiseComparator))
      \<lparr>nxt = (\<lambda>_ _. None)(0 := (\<lambda>_. None)(0 := Some 1)), node_key = \<lambda>_. ([4], 2), stashed_height = \<lambda>_. 1, fresh = 2, max_height = 1\<rparr>
      ([4], 3) = Some (Inr (Some 1))"
proof -
  let ?l = "\<lparr>nxt = (\<lambda>_ _. None)(0 := (\<lambda>_. None)(0 := Some 1)), node_key = \<lambda>_. ([4], 2), stashed_height = \<lambda>_. 1,
    fresh = 2, max_height = 1\<rparr> :: (slice \<times> u64) skiplist"
  have "sl_inv (tag_compare (cmp ReverseBytewiseComparator)) 1 ?l [1]" by (simp add: sl_inv_def kMaxPossibleHeight_def)
  from skip_list_searches [OF _ this, of "([4], 3)" 4] show ?thesis
    by (simp add: tag_compare_def ReverseBytewiseComparator_def reverse_compare_def)
qed

text \<open>C34: iterators of the skip list. \<open>SeekToFirst\<close> and \<open>SeekToLast\<close> go to the ends, \<open>Next\<close> and \<open>Prev\<close> go from
  each node to the one after and before it and become invalid beyond the ends, \<open>SeekForPrev\<close> goes to the last
  node whose key is not greater than the target; none of them runs for ever or fails an assertion.\<close>

theorem skip_list_iterators:
  assumes "user \<in> {BytewiseComparator, ReverseBytewiseComparator}" "sl_inv (tag_compare (cmp user)) km l ns"
  shows "it_seek_to_first l = (if ns = [] then None else Some (hd ns)) \<and>
    it_seek_to_last l = Some (Inr (if ns = [] then None else Some (last ns))) \<and>
    (\<forall>i<length ns. it_next l (Some (ns ! i)) = Inr (if Suc i < length ns then Some (ns ! Suc i) else None) \<and>
      it_prev (tag_compare (cmp user)) l (Some (ns ! i)) = Some (Inr (if i = 0 then None else Some (ns ! (i - 1))))) \<and>
    it_seek_for_prev (tag_compare (cmp user)) l key =
      Some (Inr (find (\<lambda>n. tag_compare (cmp user) (node_key l n) key \<le> 0) (rev ns)))"
proof (intro conjI allI impI)
  let ?c = "tag_compare (cmp user)"
  let ?P = "\<lambda>n. ?c (node_key l n) key \<le> 0"
  note ko = user_order(1) [OF assms(1)]
  show "it_seek_to_first l = (if ns = [] then None else Some (hd ns))"
    using key_order.it_seek_to_first_eq [OF ko assms(2)] by (cases ns) simp_all
  show "it_seek_to_last l = Some (Inr (if ns = [] then None else Some (last ns)))"
    by (rule key_order.it_seek_to_last_eq [OF ko assms(2)])
  fix i assume i: "i < length ns"
  show "it_next l (Some (ns ! i)) = Inr (if Suc i < length ns then Some (ns ! Suc i) else None)"
    by (rule key_order.it_next_eq [OF ko assms(2) i])
  show "it_prev ?c l (Some (ns ! i)) = Some (Inr (if i = 0 then None else Some (ns ! (i - 1))))"
    by (rule key_order.it_prev_eq [OF ko assms(2) i])
next
  let ?c = "tag_compare (cmp user)"
  let ?P = "\<lambda>n. ?c (node_key l n) key \<le> 0"
  note ko = user_order(1) [OF assms(1)]
  have "sorted_wrt (\<lambda>a b. ?c (node_key l a) (node_key l b) < 0) ns" using assms(2) by (simp add: sl_inv_def)
  then have "(if takeWhile ?P ns = [] then None else Some (last (takeWhile ?P ns))) = find ?P (rev ns)"
  proof (induction ns rule: rev_induct)
    case (snoc n ns)
    show ?case
    proof (cases "?P n")
      case True
      have "?P m" if "m \<in> set ns" for m
        using snoc.prems that True key_order.less_le_trans [OF ko, of "node_key l m" "node_key l n" key]
        by (fastforce simp: sorted_wrt_append)
      with True show ?thesis by (simp add: takeWhile_append2)
    next
      case False
      have tw: "takeWhile ?P (ns @ [n]) = takeWhile ?P ns" using False by (simp add: takeWhile_tail)
      have fd: "find ?P (rev (ns @ [n])) = find ?P (rev ns)" using False by simp
      show ?thesis unfolding tw fd by (rule snoc.IH) (use snoc.prems in \<open>simp add: sorted_wrt_append\<close>)
    qed
  qed simp
  then show "it_seek_for_prev ?c l key = Some (Inr (find ?P (rev ns)))"
    using key_order.it_seek_for_prev_eq [OF ko assms(2), of key] by (simp only:)
qed

lemma skip_list_iterators_witness:
  "it_seek_for_prev (tag_compare (cmp BytewiseComparator))
      \<lparr>nxt = (\<lambda>_ _. None)(0 := (\<lambda>_. None)(0 := Some 1)), node_key = \<lambda>_. ([4], 2), stashed_height = \<lambda>_. 1, fresh = 2, max_height = 1\<rparr>
      ([5], 0) = Some (Inr (Some 1))"
proof -
  let ?l = "\<lparr>nxt = (\<lambda>_ _. None)(0 := (\<lambda>_. None)(0 := Some 1)), node_key = \<lambda>_. ([4], 2), stashed_height = \<lambda>_. 1,
    fresh = 2, max_height = 1\<rparr> :: (slice \<times> u64) skiplist"
  have "sl_inv (tag_compare (cmp BytewiseComparator)) 1 ?l [1]" by (simp add: sl_inv_def kMaxPossibleHeight_def)
  from skip_list_iterators [OF _ this, of "([5], 0)"] show ?thesis
    by (simp add: tag_compare_def BytewiseComparator_def)
qed

end
