(* ===== verification/SkipListThreads.thy ===== *)
theory SkipListThreads
  imports SkipListSpec
begin

section \<open>RocksDB: concurrent insertion into the skip list\<close>

text \<open>
  \<open>InsertConcurrently\<close> of \<open>memtable/inlineskiplist.h\<close>: any number of threads, each of which runs
  \<open>Insert<true>\<close> with a splice of its own. A step of a thread is one access to the memory that the threads
  share; they interleave in any order. The atomic operations are taken as sequentially consistent, and
  \<open>compare_exchange_weak\<close> may fail without a reason, which is the parameter \<open>lucky\<close>.
\<close>

subsection \<open>One thread\<close>

text \<open>Where a thread is: before it loads \<open>max_height_\<close>; before it exchanges it, with the value it expects; in
  \<open>FindSpliceForLevel\<close> at a level, with \<open>before\<close> and \<open>after\<close>; before it writes the pointer of its own node at a
  level; before \<open>CASNext\<close> at a level; in \<open>FindSpliceForLevel\<close> after \<open>CASNext\<close> has failed; before the end; returned.\<close>

datatype insert_pc =
  Load_Max
| Cas_Max nat
| Search nat nat "nat option"
| Set_Next nat
| Cas_Next nat
| Search_Again nat nat
| Finish
| Returned

record insert_thread =
  own_node :: nat
  pc :: insert_pc
  own_splice :: splice
  splice_is_valid :: bool

definition new_thread :: "nat \<Rightarrow> insert_thread" where
  "new_thread x = \<lparr>own_node = x, pc = Load_Max, own_splice = new_splice, splice_is_valid = True\<rparr>"

text \<open>One round of the loop of \<open>FindSpliceForLevel\<close>.\<close>

datatype find_result = Go_On nat | Found nat "nat option"

definition find_step ::
  "('k \<Rightarrow> 'k \<Rightarrow> int) \<Rightarrow> 'k skiplist \<Rightarrow> 'k \<Rightarrow> nat \<Rightarrow> nat option \<Rightarrow> nat \<Rightarrow> find_result res" where
  "find_step compare l key before after level =
     (let next = nxt l before level
      in if \<not> search_ok compare l key before next then Inl Assert_Failed
         else if next = after \<or> \<not> key_after compare l key next then Inr (Found before next)
         else Inr (Go_On (the next)))"

text \<open>After the loop on \<open>max_height_\<close>. The splice of \<open>InsertConcurrently\<close> has height 0, so all levels are searched;
  its arrays have \<open>kMaxPossibleHeight\<close> elements.\<close>

definition start_search :: "nat \<Rightarrow> insert_thread \<Rightarrow> insert_thread res" where
  "start_search max_h th =
     (if kMaxPossibleHeight < max_h \<or> max_h = 0 then Inl Assert_Failed
      else if kMaxPossibleHeight \<le> max_h then Inl Out_Of_Range
      else Inr (th\<lparr>own_splice := (own_splice th)\<lparr>sp_height := max_h, prevs := (prevs (own_splice th))(max_h := 0),
                                               nexts := (nexts (own_splice th))(max_h := None)\<rparr>,
                   pc := Search (max_h - 1) 0 None\<rparr>))"

definition loaded_max :: "nat \<Rightarrow> nat \<Rightarrow> insert_thread \<Rightarrow> insert_thread res" where
  "loaded_max height max_h th =
     (if max_h < height then Inr (th\<lparr>pc := Cas_Max max_h\<rparr>) else start_search max_h th)"

definition thread_step ::
  "nat \<Rightarrow> ('k \<Rightarrow> 'k \<Rightarrow> int) \<Rightarrow> bool \<Rightarrow> insert_thread \<Rightarrow> 'k skiplist \<Rightarrow> (insert_thread \<times> 'k skiplist) res" where
  "thread_step km compare lucky th l =
     (let x = own_node th; key = node_key l x; height = stashed_height l x; s = own_splice th
      in case pc th of
        Load_Max \<Rightarrow>
          if height < 1 \<or> km < height then Inl Assert_Failed
          else bind_res (loaded_max height (max_height l) th) (\<lambda>th. Inr (th, l))
      | Cas_Max m \<Rightarrow>
          if max_height l = m \<and> lucky
          then bind_res (start_search height th) (\<lambda>th. Inr (th, l\<lparr>max_height := height\<rparr>))
          else bind_res (loaded_max height (max_height l) th) (\<lambda>th. Inr (th, l))
      | Search i before after \<Rightarrow>
          bind_res (find_step compare l key before after i) (\<lambda>r. Inr (case r of
            Go_On b \<Rightarrow> th\<lparr>pc := Search i b after\<rparr>
          | Found p n \<Rightarrow> th\<lparr>own_splice := set_level i (p, n) s, pc := if i = 0 then Set_Next 0 else Search (i - 1) p n\<rparr>, l))
      | Set_Next i \<Rightarrow>
          if (case nexts s i of None \<Rightarrow> True | Some n \<Rightarrow> compare key (node_key l n) < 0) \<and>
             (prevs s i = 0 \<or> compare (node_key l (prevs s i)) key < 0)
          then Inr (th\<lparr>pc := Cas_Next i\<rparr>, SetNext x i (nexts s i) l)
          else Inl Assert_Failed
      | Cas_Next i \<Rightarrow>
          if nxt l (prevs s i) i = nexts s i
          then Inr (th\<lparr>pc := if i + 1 < height then Set_Next (i + 1) else Finish\<rparr>, SetNext (prevs s i) i (Some x) l)
          else Inr (th\<lparr>pc := Search_Again i (prevs s i)\<rparr>, l)
      | Search_Again i before \<Rightarrow>
          bind_res (find_step compare l key before None i) (\<lambda>r. Inr (case r of
            Go_On b \<Rightarrow> th\<lparr>pc := Search_Again i b\<rparr>
          | Found p n \<Rightarrow> th\<lparr>own_splice := set_level i (p, n) s, splice_is_valid := splice_is_valid th \<and> \<not> 0 < i, pc := Set_Next i\<rparr>, l))
      | Finish \<Rightarrow>
          if splice_is_valid th
          then (let s = s\<lparr>prevs := (\<lambda>i. if i < height then x else prevs s i)\<rparr>
                in if splice_asserts compare key s l then Inr (th\<lparr>own_splice := s, pc := Returned\<rparr>, l) else Inl Assert_Failed)
          else Inr (th\<lparr>own_splice := s\<lparr>sp_height := 0\<rparr>, pc := Returned\<rparr>, l)
      | Returned \<Rightarrow> Inr (th, l))"

text \<open>A thread that makes \<open>n\<close> steps while the others make none, and does not fail without a reason.\<close>

fun run_alone ::
  "nat \<Rightarrow> ('k \<Rightarrow> 'k \<Rightarrow> int) \<Rightarrow> nat \<Rightarrow> insert_thread \<Rightarrow> 'k skiplist \<Rightarrow> (insert_thread \<times> 'k skiplist) res" where
  "run_alone km compare 0 th l = Inr (th, l)"
| "run_alone km compare (Suc n) th l =
     bind_res (thread_step km compare True th l) (\<lambda>(th, l). run_alone km compare n th l)"

text \<open>A thread that reads: it is in the loop of \<open>FindGreaterOrEqual\<close>.\<close>

record 'k seeker =
  rd_key :: 'k
  rd_at :: nat
  rd_level :: nat
  last_bigger :: "nat option"

definition new_seeker :: "'k \<Rightarrow> 'k skiplist \<Rightarrow> 'k seeker" where
  "new_seeker key l = \<lparr>rd_key = key, rd_at = 0, rd_level = max_height l - 1, last_bigger = None\<rparr>"

text \<open>One round of the loop: it goes on, or the node is returned.\<close>

definition read_step :: "('k \<Rightarrow> 'k \<Rightarrow> int) \<Rightarrow> 'k skiplist \<Rightarrow> 'k seeker \<Rightarrow> ('k seeker + nat option) res" where
  "read_step compare l r =
     (let next = nxt l (rd_at r) (rd_level r);
          c = (case next of None \<Rightarrow> 1
               | Some n \<Rightarrow> if next = last_bigger r then 1 else compare (node_key l n) (rd_key r))
      in if \<not> search_ok compare l (rd_key r) (rd_at r) next then Inl Assert_Failed
         else if c = 0 \<or> 0 < c \<and> rd_level r = 0 then Inr (Inr next)
         else if c < 0 then Inr (Inl (r\<lparr>rd_at := the next\<rparr>))
         else Inr (Inl (r\<lparr>rd_level := rd_level r - 1, last_bigger := next\<rparr>)))"

subsection \<open>All threads\<close>

record 'k shared_list =
  the_list :: "'k skiplist"
  threads :: "nat \<Rightarrow> insert_thread option"
  readers :: "nat \<Rightarrow> 'k seeker option"

text \<open>A thread may begin to insert a key that is not equal to any that is in the list or being inserted.\<close>

abbreviation nodes :: "'k skiplist \<Rightarrow> nat set" where
  "nodes l \<equiv> {0<..<fresh l}"

inductive shared_step :: "nat \<Rightarrow> ('k \<Rightarrow> 'k \<Rightarrow> int) \<Rightarrow> 'k shared_list \<Rightarrow> 'k shared_list \<Rightarrow> bool"
  for km compare where
  Begin: "threads s t = None \<Longrightarrow> 0 < height \<Longrightarrow> height \<le> km \<Longrightarrow>
    (\<forall>n\<in>nodes (the_list s). compare (node_key (the_list s) n) key \<noteq> 0) \<Longrightarrow>
    AllocateKey height key (the_list s) = (x, l) \<Longrightarrow>
    shared_step km compare s (s\<lparr>the_list := l, threads := (threads s)(t \<mapsto> new_thread x)\<rparr>)"
| Step: "threads s t = Some th \<Longrightarrow> thread_step km compare lucky th (the_list s) = Inr (th', l) \<Longrightarrow>
    shared_step km compare s (s\<lparr>the_list := l, threads := (threads s)(t \<mapsto> th')\<rparr>)"
| End: "threads s t = Some th \<Longrightarrow> pc th = Returned \<Longrightarrow>
    shared_step km compare s (s\<lparr>threads := (threads s)(t := None)\<rparr>)"
| Read_Begin: "readers s t = None \<Longrightarrow>
    shared_step km compare s (s\<lparr>readers := (readers s)(t \<mapsto> new_seeker key (the_list s))\<rparr>)"
| Read_Step: "readers s t = Some r \<Longrightarrow> read_step compare (the_list s) r = Inr (Inl r') \<Longrightarrow>
    shared_step km compare s (s\<lparr>readers := (readers s)(t \<mapsto> r')\<rparr>)"
| Read_End: "readers s t = Some r \<Longrightarrow> read_step compare (the_list s) r = Inr (Inr n) \<Longrightarrow>
    shared_step km compare s (s\<lparr>readers := (readers s)(t := None)\<rparr>)"

inductive shared_reach :: "nat \<Rightarrow> ('k \<Rightarrow> 'k \<Rightarrow> int) \<Rightarrow> 'k shared_list \<Rightarrow> bool" for km compare where
  Start: "shared_reach km compare \<lparr>the_list = new_skiplist k, threads = \<lambda>_. None, readers = \<lambda>_. None\<rparr>"
| More: "shared_reach km compare s \<Longrightarrow> shared_step km compare s s' \<Longrightarrow> shared_reach km compare s'"

inductive_cases shared_stepE: "shared_step km compare s s'"

end
