(* ===== verification/SkipListThreadsInv.thy ===== *)
theory SkipListThreadsInv
  imports SkipListThreads
begin

section \<open>RocksDB: the steps of concurrent insertion\<close>

text \<open>
  What holds of the list while threads insert into it (\<open>levels_ok\<close>: every level is sorted and a part of the level below),
  and what holds at each place of a thread (\<open>thread_inv\<close>) and of a reader (\<open>reader_inv\<close>): the nodes they remember
  lie on their level and around their key. Nodes are only ever added, so the steps of the others keep this
  (\<open>thread_inv_stable\<close>, \<open>reader_inv_stable\<close>); the steps of the thread itself lead from place to place (\<open>thread_step_ok\<close>).
\<close>

context key_order
begin

subsection \<open>The levels\<close>

text \<open>\<open>L i\<close> are the nodes that are linked on level \<open>i\<close>, in their order.\<close>

definition level_ok :: "'a skiplist \<Rightarrow> nat \<Rightarrow> nat list \<Rightarrow> bool" where
  "level_ok l i ys \<longleftrightarrow> chain (\<lambda>n. nxt l n i) 0 ys \<and>
     sorted_wrt (\<lambda>a b. compare (node_key l a) (node_key l b) < 0) ys \<and> (\<forall>n\<in>set ys. n \<in> nodes l \<and> i < stashed_height l n)"

definition levels_ok :: "nat \<Rightarrow> 'a skiplist \<Rightarrow> (nat \<Rightarrow> nat list) \<Rightarrow> bool" where
  "levels_ok km l L \<longleftrightarrow> (\<forall>i<km. level_ok l i (L i)) \<and> (\<forall>i. Suc i < km \<longrightarrow> set (L (Suc i)) \<subseteq> set (L i)) \<and>
     (\<forall>i<km. max_height l \<le> i \<longrightarrow> L i = []) \<and> 0 < max_height l \<and> max_height l \<le> km \<and> km < kMaxPossibleHeight \<and> 0 < fresh l"

definition nodes_ok :: "nat \<Rightarrow> 'a skiplist \<Rightarrow> bool" where
  "nodes_ok km l \<longleftrightarrow> (\<forall>n\<in>nodes l. 0 < stashed_height l n \<and> stashed_height l n \<le> km) \<and>
     (\<forall>a\<in>nodes l. \<forall>b\<in>nodes l. a \<noteq> b \<longrightarrow> compare (node_key l a) (node_key l b) \<noteq> 0)"

definition lies_before :: "'a skiplist \<Rightarrow> nat list \<Rightarrow> 'a \<Rightarrow> nat \<Rightarrow> bool" where
  "lies_before l ys k p \<longleftrightarrow> p = 0 \<or> p \<in> set ys \<and> compare (node_key l p) k < 0"

definition lies_after :: "'a skiplist \<Rightarrow> nat list \<Rightarrow> 'a \<Rightarrow> nat option \<Rightarrow> bool" where
  "lies_after l ys k n \<longleftrightarrow> (\<forall>y. n = Some y \<longrightarrow> y \<in> set ys \<and> compare k (node_key l y) < 0)"

lemma next_in_level:
  assumes "level_ok l i ys" "b = 0 \<or> b \<in> set ys"
  obtains as bs where "ys = as @ bs" "b = last (0 # as)" "nxt l b i = hd_opt bs"
    "\<And>n m. n \<in> set as \<Longrightarrow> m \<in> set bs \<Longrightarrow> compare (node_key l n) (node_key l m) < 0"
    "sorted_wrt (\<lambda>a b. compare (node_key l a) (node_key l b) < 0) bs" "0 \<notin> set ys"
proof -
  obtain as bs where ab: "ys = as @ bs" "b = last (0 # as)"
  proof (cases "b = 0")
    case True
    with that [of "[]" ys] show ?thesis by simp
  next
    case False
    with assms(2) obtain as bs where "ys = as @ b # bs" by (meson split_list)
    with that [of "as @ [b]" bs] show ?thesis by simp
  qed
  from assms(1) have "chain (\<lambda>n. nxt l n i) 0 (as @ bs)"
    "sorted_wrt (\<lambda>a b. compare (node_key l a) (node_key l b) < 0) (as @ bs)" "0 \<notin> set ys"
    by (auto simp: level_ok_def ab(1))
  with that [OF ab] chain_next [of "\<lambda>n. nxt l n i" 0 as bs] ab(2) show ?thesis by (simp add: sorted_wrt_append)
qed

lemma next_after:
  assumes "level_ok l i ys" "b = 0 \<or> b \<in> set ys" "nxt l b i = Some n"
  shows "n \<in> set ys" "n \<noteq> 0" "b = 0 \<or> compare (node_key l b) (node_key l n) < 0"
proof -
  obtain as bs where *: "ys = as @ bs" "b = last (0 # as)" "nxt l b i = hd_opt bs" "0 \<notin> set ys"
    "\<And>n m. n \<in> set as \<Longrightarrow> m \<in> set bs \<Longrightarrow> compare (node_key l n) (node_key l m) < 0"
    using next_in_level [OF assms(1,2)] by blast
  have n: "n \<in> set bs" using *(3) assms(3) by (intro hd_opt_in) simp
  then show "n \<in> set ys" using *(1) by simp
  then show "n \<noteq> 0" using *(4) by metis
  show "b = 0 \<or> compare (node_key l b) (node_key l n) < 0" using last_in [of 0 as] *(2) *(5) [OF _ n] by auto
qed

lemma next_first:
  assumes "level_ok l i ys" "b = 0 \<or> b \<in> set ys" "m \<in> set ys" "b = 0 \<or> compare (node_key l b) (node_key l m) < 0"
  shows "\<exists>n. nxt l b i = Some n \<and> (n = m \<or> compare (node_key l n) (node_key l m) < 0)"
proof -
  obtain as bs where *: "ys = as @ bs" "b = last (0 # as)" "nxt l b i = hd_opt bs" "0 \<notin> set ys"
    "sorted_wrt (\<lambda>a b. compare (node_key l a) (node_key l b) < 0) bs" 
    using next_in_level [OF assms(1,2)] by blast
  have s: "sorted_wrt (\<lambda>a b. compare (node_key l a) (node_key l b) < 0) (as @ bs)"
    using assms(1) by (simp add: level_ok_def *(1))
  have "m \<notin> set as"
  proof
    assume m: "m \<in> set as"
    then obtain as' where as: "as = as' @ [b]" using *(2) by (cases as rule: rev_cases) auto
    have "b \<noteq> 0" using *(1,4) as by auto
    with assms(4) have "compare (node_key l b) (node_key l m) < 0" by simp
    moreover have "m = b \<or> compare (node_key l m) (node_key l b) < 0" using m s as by (auto simp: sorted_wrt_append)
    ultimately show False using same flip by (metis less_asym less_irrefl)
  qed
  then have "m \<in> set bs" using assms(3) *(1) by simp
  then show ?thesis using *(3,5) by (cases bs) auto
qed

lemma find_step_cases:
  assumes "level_ok l i ys" "lies_before l ys k b" "lies_after l ys k a" "\<forall>n\<in>set ys. compare (node_key l n) k \<noteq> 0"
  obtains (go) n where "find_step compare l k b a i = Inr (Go_On n)" "lies_before l ys k n" "below l b n"
  | (found) n where "find_step compare l k b a i = Inr (Found b n)" "lies_after l ys k n" "nxt l b i = n"
      "\<And>y. lies_after l ys k (Some y) \<Longrightarrow> above l n (Some y)"
proof -
  have b: "b = 0 \<or> b \<in> set ys" "b = 0 \<or> compare (node_key l b) k < 0" using assms(2) by (auto simp: lies_before_def)
  have ok: "search_ok compare l k b (nxt l b i)"
    using b(2) next_after(3) [OF assms(1) b(1)] by (auto simp: search_ok_def key_after_def split: option.split)
  show thesis
  proof (cases "nxt l b i = a \<or> \<not> key_after compare l k (nxt l b i)")
    case True
    have after: "lies_after l ys k (nxt l b i)"
      unfolding lies_after_def
    proof (intro allI impI)
      fix y assume y: "nxt l b i = Some y"
      note n = next_after [OF assms(1) b(1) y]
      show "y \<in> set ys \<and> compare k (node_key l y) < 0"
      proof (cases "nxt l b i = a")
        case True
        with assms(3) y show ?thesis by (simp add: lies_after_def)
      next
        case False
        with True have "\<not> compare (node_key l y) k < 0" by (simp add: y key_after_def)
        with assms(4) n(1) have "0 < compare (node_key l y) k" by fastforce
        with n(1) flip [of k "node_key l y"] show ?thesis by simp
      qed
    qed
    have first: "above l (nxt l b i) (Some y)" if "lies_after l ys k (Some y)" for y
    proof -
      have y: "y \<in> set ys" "compare k (node_key l y) < 0" using that by (simp_all add: lies_after_def)
      have "b = 0 \<or> compare (node_key l b) (node_key l y) < 0" using b(2) less_trans [OF _ y(2)] by blast
      from next_first [OF assms(1) b(1) y(1) this] show ?thesis by (auto simp: above_def)
    qed
    from True ok have "find_step compare l k b a i = Inr (Found b (nxt l b i))" by (auto simp: find_step_def Let_def)
    from found [OF this after HOL.refl first] show thesis .
  next
    case False
    then obtain n where n: "nxt l b i = Some n" "compare (node_key l n) k < 0"
      by (cases "nxt l b i") (auto simp: key_after_def)
    note na = next_after [OF assms(1) b(1) n(1)]
    have "find_step compare l k b a i = Inr (Go_On n)" using False ok n(1) by (auto simp: find_step_def Let_def)
    moreover have "lies_before l ys k n" "below l b n" using na n(2) by (auto simp: lies_before_def below_def)
    ultimately show thesis by (rule go)
  qed
qed

text \<open>The exchange of a pointer.\<close>

lemma link_level:
  assumes "level_ok l i ys" "lies_before l ys k p" "lies_after l ys k (nxt l p i)" "node_key l x = k" "x \<notin> set ys" "x \<in> nodes l"
    "i < stashed_height l x" "nxt l x i = nxt l p i"
  shows "\<exists>ys'. level_ok (SetNext p i (Some x) l) i ys' \<and> set ys' = insert x (set ys)"
proof -
  have p: "p = 0 \<or> p \<in> set ys" "p = 0 \<or> compare (node_key l p) k < 0" using assms(2) by (auto simp: lies_before_def)
  obtain as bs where *: "ys = as @ bs" "p = last (0 # as)" "nxt l p i = hd_opt bs" "0 \<notin> set ys"
    using next_in_level [OF assms(1) p(1)] by blast
  have lv: "chain (\<lambda>n. nxt l n i) 0 (as @ bs)" "sorted_wrt (\<lambda>a b. compare (node_key l a) (node_key l b) < 0) (as @ bs)"
    "\<And>n. n \<in> set ys \<Longrightarrow> n \<in> nodes l \<and> i < stashed_height l n" using assms(1) by (simp_all add: level_ok_def *(1))
  have dist: "distinct (0 # as @ bs)" using sorted_distinct [OF lv(2)] *(1,4) by simp
  have "x \<noteq> 0" using assms(6) by simp
  then have xn: "x \<notin> set (0 # as @ bs)" using assms(5) *(1) by auto
  have "chain ((\<lambda>n. nxt l n i)(x := hd_opt bs, last (0 # as) := Some x)) 0 (as @ x # bs)"
    by (rule chain_insert [OF lv(1) dist xn])
  moreover have "(\<lambda>n. nxt l n i)(x := hd_opt bs, p := Some x) = (\<lambda>n. nxt (SetNext p i (Some x) l) n i)"
    using assms(8) *(3) by (auto simp: SetNext_def fun_eq_iff)
  ultimately have ch: "chain (\<lambda>n. nxt (SetNext p i (Some x) l) n i) 0 (as @ x # bs)" using *(2) by (simp only:)
  have less: "compare (node_key l n) k < 0" if n: "n \<in> set as" for n
  proof -
    obtain as' where as: "as = as' @ [p]" using *(2) n by (cases as rule: rev_cases) auto
    have "p \<noteq> 0" using *(1,4) as by auto
    with p(2) have "compare (node_key l p) k < 0" by simp
    moreover have "n = p \<or> compare (node_key l n) (node_key l p) < 0" using n lv(2) as by (auto simp: sorted_wrt_append)
    ultimately show ?thesis using less_trans by blast
  qed
  have more: "compare k (node_key l n) < 0" if n: "n \<in> set bs" for n
  proof -
    obtain y r where bs: "bs = y # r" using n by (cases bs) auto
    have "compare k (node_key l y) < 0" using assms(3) *(3) bs by (simp add: lies_after_def)
    moreover have "n = y \<or> compare (node_key l y) (node_key l n) < 0" using n lv(2) bs by (auto simp: sorted_wrt_append)
    ultimately show ?thesis using less_trans by blast
  qed
  have "sorted_wrt (\<lambda>a b. compare (node_key l a) (node_key l b) < 0) (as @ x # bs)"
    using lv(2) less more assms(4) by (auto simp: sorted_wrt_append dest: less_trans)
  moreover have "n \<in> nodes l \<and> i < stashed_height l n" if "n \<in> set (as @ x # bs)" for n
    using that lv(3) [of n] *(1) assms(6,7) by auto
  ultimately have "level_ok (SetNext p i (Some x) l) i (as @ x # bs)"
    unfolding level_ok_def using ch by (simp add: SetNext_def)
  then show ?thesis using *(1) by (intro exI [of _ "as @ x # bs"]) auto
qed

end

lemma set_level_sel [simp]:
  "prevs (set_level i r s) j = (if j = i then fst r else prevs s j)"
  "nexts (set_level i r s) j = (if j = i then snd r else nexts s j)"
  "sp_height (set_level i r s) = sp_height s"
  by (simp_all add: set_level_def)

context key_order
begin

subsection \<open>What holds at each place of a thread\<close>

definition around :: "'a skiplist \<Rightarrow> (nat \<Rightarrow> nat list) \<Rightarrow> 'a \<Rightarrow> splice \<Rightarrow> nat \<Rightarrow> bool" where
  "around l L k s i \<longleftrightarrow> lies_before l (L i) k (prevs s i) \<and> lies_after l (L i) k (nexts s i)"

definition nested :: "'a skiplist \<Rightarrow> splice \<Rightarrow> nat \<Rightarrow> bool" where
  "nested l s i \<longleftrightarrow> below l (prevs s (Suc i)) (prevs s i) \<and> above l (nexts s i) (nexts s (Suc i))"

definition linked_upto :: "nat \<Rightarrow> (nat \<Rightarrow> nat list) \<Rightarrow> nat \<Rightarrow> nat \<Rightarrow> bool" where
  "linked_upto km L x j \<longleftrightarrow> (\<forall>i<km. x \<in> set (L i) \<longleftrightarrow> i < j)"

definition top_ok :: "'a skiplist \<Rightarrow> nat \<Rightarrow> splice \<Rightarrow> bool" where
  "top_ok l h s \<longleftrightarrow> prevs s (sp_height s) = 0 \<and> nexts s (sp_height s) = None \<and> h \<le> sp_height s \<and> sp_height s \<le> max_height l"

definition splice_ready :: "'a skiplist \<Rightarrow> (nat \<Rightarrow> nat list) \<Rightarrow> 'a \<Rightarrow> nat \<Rightarrow> splice \<Rightarrow> bool \<Rightarrow> bool" where
  "splice_ready l L k h s valid \<longleftrightarrow>
     top_ok l h s \<and> (\<forall>j. j < sp_height s \<longrightarrow> around l L k s j \<and> (valid \<longrightarrow> nested l s j))"

definition thread_inv :: "nat \<Rightarrow> 'a skiplist \<Rightarrow> (nat \<Rightarrow> nat list) \<Rightarrow> insert_thread \<Rightarrow> bool" where
  "thread_inv km l L th \<longleftrightarrow>
     (let x = own_node th; k = node_key l x; h = stashed_height l x; s = own_splice th; valid = splice_is_valid th
      in x \<in> nodes l \<and> (case pc th of
           Load_Max \<Rightarrow> linked_upto km L x 0 \<and> valid
         | Cas_Max m \<Rightarrow> linked_upto km L x 0 \<and> valid \<and> m < h
         | Search i b a \<Rightarrow> linked_upto km L x 0 \<and> valid \<and> top_ok l h s \<and> i < sp_height s \<and> lies_before l (L i) k b \<and>
             below l (prevs s (Suc i)) b \<and> a = nexts s (Suc i) \<and>
             (\<forall>j. i < j \<longrightarrow> j < sp_height s \<longrightarrow> around l L k s j \<and> nested l s j)
         | Set_Next i \<Rightarrow> i < h \<and> linked_upto km L x i \<and> splice_ready l L k h s valid
         | Cas_Next i \<Rightarrow> i < h \<and> linked_upto km L x i \<and> splice_ready l L k h s valid \<and> nxt l x i = nexts s i
         | Search_Again i b \<Rightarrow> i < h \<and> linked_upto km L x i \<and> splice_ready l L k h s valid \<and> lies_before l (L i) k b \<and>
             below l (prevs s i) b
         | Finish \<Rightarrow> linked_upto km L x h \<and> splice_ready l L k h s valid
         | Returned \<Rightarrow> linked_upto km L x h))"

text \<open>What a step of another thread leaves to the owner of the node \<open>x\<close>.\<close>

definition keeps :: "nat \<Rightarrow> nat \<Rightarrow> 'a skiplist \<Rightarrow> (nat \<Rightarrow> nat list) \<Rightarrow> 'a skiplist \<Rightarrow> (nat \<Rightarrow> nat list) \<Rightarrow> bool" where
  "keeps km x l L l' L' \<longleftrightarrow>
     (\<forall>n\<in>nodes l. node_key l' n = node_key l n \<and> stashed_height l' n = stashed_height l n) \<and>
     fresh l \<le> fresh l' \<and> max_height l \<le> max_height l' \<and>
     (\<forall>i<km. set (L i) \<subseteq> set (L' i) \<and> (x \<in> set (L' i) \<longleftrightarrow> x \<in> set (L i)) \<and> (x \<notin> set (L i) \<longrightarrow> nxt l' x i = nxt l x i))"

definition grows :: "nat \<Rightarrow> 'a skiplist \<Rightarrow> (nat \<Rightarrow> nat list) \<Rightarrow> 'a skiplist \<Rightarrow> (nat \<Rightarrow> nat list) \<Rightarrow> bool" where
  "grows km l L l' L' \<longleftrightarrow> (\<forall>n\<in>nodes l. node_key l' n = node_key l n) \<and> (\<forall>i<km. set (L i) \<subseteq> set (L' i))"

text \<open>What holds of a thread that reads.\<close>

definition reader_inv :: "nat \<Rightarrow> 'a skiplist \<Rightarrow> (nat \<Rightarrow> nat list) \<Rightarrow> 'a seeker \<Rightarrow> bool" where
  "reader_inv km l L r \<longleftrightarrow> rd_level r < km \<and> lies_before l (L (rd_level r)) (rd_key r) (rd_at r) \<and>
     lies_after l (L (rd_level r)) (rd_key r) (last_bigger r)"

lemma keeps_refl: "keeps km x l L l L"
  by (simp add: keeps_def)

lemma grows_refl: "grows km l L l L"
  by (simp add: grows_def)

lemma in_nodes: "levels_ok km l L \<Longrightarrow> i < km \<Longrightarrow> n \<in> set (L i) \<Longrightarrow> n \<in> nodes l \<and> i < stashed_height l n"
  by (simp add: levels_ok_def level_ok_def)

lemma level_down: "levels_ok km l L \<Longrightarrow> j < km \<Longrightarrow> i \<le> j \<Longrightarrow> set (L j) \<subseteq> set (L i)"
proof (induction j)
  case (Suc j)
  have "set (L (Suc j)) \<subseteq> set (L j)" using Suc.prems(1,2) by (simp add: levels_ok_def)
  with Suc show ?case by (cases "i = Suc j") auto
qed simp

subsubsection \<open>The steps of the others\<close>

lemma lies_before_mono:
  "lies_before l ys k p \<Longrightarrow> set ys \<subseteq> set ys' \<Longrightarrow> (\<And>n. n \<in> set ys \<Longrightarrow> node_key l' n = node_key l n) \<Longrightarrow> lies_before l' ys' k p"
  by (auto simp: lies_before_def)

lemma lies_after_mono:
  "lies_after l ys k n \<Longrightarrow> set ys \<subseteq> set ys' \<Longrightarrow> (\<And>n. n \<in> set ys \<Longrightarrow> node_key l' n = node_key l n) \<Longrightarrow> lies_after l' ys' k n"
  by (auto simp: lies_after_def)

lemma below_keys: "below l a b \<Longrightarrow> a = 0 \<or> node_key l' a = node_key l a \<Longrightarrow> b = 0 \<or> node_key l' b = node_key l b \<Longrightarrow> below l' a b"
  by (auto simp: below_def)

lemma above_keys:
  "above l a b \<Longrightarrow> (\<And>y. a = Some y \<Longrightarrow> node_key l' y = node_key l y) \<Longrightarrow> (\<And>y. b = Some y \<Longrightarrow> node_key l' y = node_key l y) \<Longrightarrow> above l' a b"
  by (auto simp: above_def)

lemma around_in:
  "around l L k s i \<Longrightarrow> prevs s i = 0 \<or> prevs s i \<in> set (L i)" "around l L k s i \<Longrightarrow> nexts s i = Some y \<Longrightarrow> y \<in> set (L i)"
  by (auto simp: around_def lies_before_def lies_after_def)

lemma thread_inv_stable:
  assumes "levels_ok km l L" "thread_inv km l L th" "keeps km (own_node th) l L l' L'"
  shows "thread_inv km l' L' th"
proof -
  let ?x = "own_node th" and ?s = "own_splice th"
  have ks: "\<And>n. n \<in> nodes l \<Longrightarrow> node_key l' n = node_key l n \<and> stashed_height l' n = stashed_height l n"
    "fresh l \<le> fresh l'" "max_height l \<le> max_height l'"
    "\<And>i. i < km \<Longrightarrow> set (L i) \<subseteq> set (L' i)" "\<And>i. i < km \<Longrightarrow> ?x \<in> set (L' i) \<longleftrightarrow> ?x \<in> set (L i)"
    "\<And>i. i < km \<Longrightarrow> ?x \<notin> set (L i) \<Longrightarrow> nxt l' ?x i = nxt l ?x i"
    using assms(3) by (auto simp: keeps_def)
  have mh: "max_height l \<le> km" using assms(1) by (simp add: levels_ok_def)
  have x: "?x \<in> nodes l" using assms(2) by (simp add: thread_inv_def Let_def)
  then have x': "?x \<in> nodes l'" "node_key l' ?x = node_key l ?x" "stashed_height l' ?x = stashed_height l ?x"
    using ks(1,2) by auto
  let ?k = "node_key l ?x" and ?h = "stashed_height l ?x"
  have key: "node_key l' n = node_key l n" if "i < km" "n \<in> set (L i)" for i n using in_nodes [OF assms(1) that] ks(1) by blast
  have up: "linked_upto km L' ?x j" if "linked_upto km L ?x j" for j using that ks(5) by (simp add: linked_upto_def)
  have lb: "lies_before l' (L' i) ?k p" if "lies_before l (L i) ?k p" "i < km" for i p
    by (rule lies_before_mono [OF that(1) ks(4) [OF that(2)] key [OF that(2)]])
  have la: "lies_after l' (L' i) ?k n" if "lies_after l (L i) ?k n" "i < km" for i n
    by (rule lies_after_mono [OF that(1) ks(4) [OF that(2)] key [OF that(2)]])
  have ar: "around l' L' ?k ?s i" if "around l L ?k ?s i" "i < km" for i using that lb la by (simp add: around_def)
  have top: "top_ok l' ?h ?s" if "top_ok l ?h ?s" using that ks(3) by (simp add: top_ok_def)
  have pk: "prevs ?s i = 0 \<or> node_key l' (prevs ?s i) = node_key l (prevs ?s i)" if "around l L ?k ?s i" "i < km" for i
    using around_in(1) [OF that(1)] key that(2) by blast
  have nk: "node_key l' y = node_key l y" if "around l L ?k ?s i" "i < km" "nexts ?s i = Some y" for i y
    using around_in(2) [OF that(1,3)] key that(2) by blast
  have pks: "(prevs ?s j = 0 \<or> node_key l' (prevs ?s j) = node_key l (prevs ?s j)) \<and>
      (\<forall>y. nexts ?s j = Some y \<longrightarrow> node_key l' y = node_key l y)"
    if "top_ok l ?h ?s" "j \<le> sp_height ?s" "j < sp_height ?s \<Longrightarrow> around l L ?k ?s j" for j
  proof (cases "j = sp_height ?s")
    case True
    with that(1) show ?thesis by (simp add: top_ok_def)
  next
    case False
    with that have "around l L ?k ?s j" "j < km" using mh by (simp_all add: top_ok_def)
    with pk nk show ?thesis by blast
  qed
  have ne: "nested l' ?s j" if "nested l ?s j" "around l L ?k ?s j" "j < sp_height ?s" "top_ok l ?h ?s"
    "Suc j < sp_height ?s \<Longrightarrow> around l L ?k ?s (Suc j)" for j
  proof -
    have j: "j < km" using that(3,4) mh by (simp add: top_ok_def)
    from pks [OF that(4) _ that(5)] that(3)
    have p: "prevs ?s (Suc j) = 0 \<or> node_key l' (prevs ?s (Suc j)) = node_key l (prevs ?s (Suc j))"
      and n: "\<And>y. nexts ?s (Suc j) = Some y \<Longrightarrow> node_key l' y = node_key l y" by auto
    show ?thesis using that(1) below_keys [OF _ p pk [OF that(2) j]] above_keys [OF _ nk [OF that(2) j] n]
      unfolding nested_def by blast
  qed
  have ready: "splice_ready l' L' ?k ?h ?s v" if "splice_ready l L ?k ?h ?s v" for v
  proof -
    have t: "top_ok l ?h ?s" and a: "\<And>j. j < sp_height ?s \<Longrightarrow> around l L ?k ?s j"
      and n: "\<And>j. v \<Longrightarrow> j < sp_height ?s \<Longrightarrow> nested l ?s j" using that by (simp_all add: splice_ready_def)
    have "j < sp_height ?s \<Longrightarrow> j < km" for j using t mh by (simp add: top_ok_def)
    then show ?thesis using top [OF t] ar [OF a] ne [OF n a _ t a] unfolding splice_ready_def by blast
  qed
  show ?thesis
  proof (cases "pc th")
    case (Search i b a)
    then have s: "linked_upto km L ?x 0" "splice_is_valid th" "top_ok l ?h ?s" "i < sp_height ?s" "lies_before l (L i) ?k b"
      "below l (prevs ?s (Suc i)) b" "a = nexts ?s (Suc i)"
      "\<And>j. i < j \<Longrightarrow> j < sp_height ?s \<Longrightarrow> around l L ?k ?s j \<and> nested l ?s j"
      using assms(2) by (simp_all add: thread_inv_def Let_def)
    have i: "i < km" using s(3,4) mh by (simp add: top_ok_def)
    have p: "prevs ?s (Suc i) = 0 \<or> node_key l' (prevs ?s (Suc i)) = node_key l (prevs ?s (Suc i))"
      using pks [OF s(3), of "Suc i"] s(4,8) by simp
    have b: "b = 0 \<or> node_key l' b = node_key l b" using s(5) key [OF i] by (auto simp: lies_before_def)
    have "around l' L' ?k ?s j \<and> nested l' ?s j" if "i < j" "j < sp_height ?s" for j
      using s(3,8) that ar [of j] ne [of j] mh by (auto simp: top_ok_def)
    with Search s x' up lb [OF s(5) i] below_keys [OF s(6) p b] top show ?thesis by (simp add: thread_inv_def Let_def)
  next
    case (Search_Again i b)
    then have s: "i < ?h" "linked_upto km L ?x i" "splice_ready l L ?k ?h ?s (splice_is_valid th)" "lies_before l (L i) ?k b"
      "below l (prevs ?s i) b" using assms(2) by (simp_all add: thread_inv_def Let_def)
    then have i: "i < sp_height ?s" "i < km" using mh by (auto simp: splice_ready_def top_ok_def)
    have b: "b = 0 \<or> node_key l' b = node_key l b" using s(4) key [OF i(2)] by (auto simp: lies_before_def)
    have "around l L ?k ?s i" using s(3) i(1) by (simp add: splice_ready_def)
    from below_keys [OF s(5) pk [OF this i(2)] b] Search_Again s(1-3) x' up ready lb [OF s(4) i(2)]
    show ?thesis by (simp add: thread_inv_def Let_def)
  next
    case (Cas_Next i)
    then have s: "i < ?h" "linked_upto km L ?x i" "splice_ready l L ?k ?h ?s (splice_is_valid th)" "nxt l ?x i = nexts ?s i"
      using assms(2) by (simp_all add: thread_inv_def Let_def)
    then have i: "i < km" using mh by (auto simp: splice_ready_def top_ok_def)
    then have "nxt l' ?x i = nxt l ?x i" using s(2) ks(6) by (simp add: linked_upto_def)
    with Cas_Next s x' up ready show ?thesis by (simp add: thread_inv_def Let_def)
  qed (use assms(2) x' up ready in \<open>simp_all add: thread_inv_def Let_def\<close>)
qed

lemma reader_inv_stable:
  assumes "levels_ok km l L" "reader_inv km l L r" "grows km l L l' L'"
  shows "reader_inv km l' L' r"
proof -
  have i: "rd_level r < km" using assms(2) by (simp add: reader_inv_def)
  have sub: "set (L (rd_level r)) \<subseteq> set (L' (rd_level r))" using assms(3) i by (simp add: grows_def)
  have key: "node_key l' n = node_key l n" if "n \<in> set (L (rd_level r))" for n
    using in_nodes [OF assms(1) i that] assms(3) by (simp add: grows_def)
  show ?thesis using assms(2) lies_before_mono [OF _ sub key] lies_after_mono [OF _ sub key] by (simp add: reader_inv_def)
qed

lemma sorted_total:
  "sorted_wrt (\<lambda>a b. compare (node_key l a) (node_key l b) < 0) ys \<Longrightarrow> a \<in> set ys \<Longrightarrow> b \<in> set ys \<Longrightarrow>
    a = b \<or> compare (node_key l a) (node_key l b) < 0 \<or> compare (node_key l b) (node_key l a) < 0"
  by (induction ys) auto

text \<open>A reader that returns returns the first node of the lowest level whose key is not less.\<close>

lemma find_first:
  assumes "level_ok l 0 ys" "m \<in> set ys" "0 \<le> compare (node_key l m) k"
    "\<And>n. n \<in> set ys \<Longrightarrow> 0 \<le> compare (node_key l n) k \<Longrightarrow> n = m \<or> compare (node_key l m) (node_key l n) < 0"
  shows "find (\<lambda>n. 0 \<le> compare (node_key l n) k) ys = Some m"
  using assms
proof -
  have "sorted_wrt (\<lambda>a b. compare (node_key l a) (node_key l b) < 0) ys" using assms(1) by (simp add: level_ok_def)
  then show ?thesis using assms(2-4)
  proof (induction ys)
    case (Cons y ys)
    show ?case
    proof (cases "0 \<le> compare (node_key l y) k")
      case True
      have "y = m"
      proof (rule ccontr)
        assume "y \<noteq> m"
        with Cons.prems True have "compare (node_key l m) (node_key l y) < 0" "compare (node_key l y) (node_key l m) < 0" by auto
        then show False using flip by fastforce
      qed
      with True show ?thesis by simp
    next
      case False
      with Cons have "m \<in> set ys" by auto
      with False Cons show ?thesis by simp
    qed
  qed simp
qed

lemma read_step_ok:
  assumes "levels_ok km l L" "reader_inv km l L r"
  shows "(\<exists>r'. read_step compare l r = Inr (Inl r') \<and> reader_inv km l L r') \<or>
    read_step compare l r = Inr (Inr (find (\<lambda>n. 0 \<le> compare (node_key l n) (rd_key r)) (L 0)))"
proof -
  let ?i = "rd_level r" and ?x = "rd_at r" and ?k = "rd_key r"
  have i: "?i < km" and b: "?x = 0 \<or> ?x \<in> set (L ?i)" "?x = 0 \<or> compare (node_key l ?x) ?k < 0" and a: "lies_after l (L ?i) ?k (last_bigger r)"
    using assms(2) by (auto simp: reader_inv_def lies_before_def)
  have lv: "level_ok l ?i (L ?i)" and lv0: "level_ok l 0 (L 0)" using assms(1) i by (simp_all add: levels_ok_def)
  have sub: "set (L ?i) \<subseteq> set (L j)" if "j \<le> ?i" for j by (rule level_down [OF assms(1) i that])
  have ok: "search_ok compare l ?k ?x (nxt l ?x ?i)"
    using b(2) next_after(3) [OF lv b(1)] by (auto simp: search_ok_def key_after_def split: option.split)
  have least: "n = m \<or> compare (node_key l n) (node_key l m) < 0"
    if "nxt l ?x ?i = Some n" "m \<in> set (L ?i)" "0 \<le> compare (node_key l m) ?k" for n m
  proof -
    have "?x = 0 \<or> compare (node_key l ?x) (node_key l m) < 0"
      using b(2) less_le_trans [of "node_key l ?x" ?k "node_key l m"] that(3) le_flip by blast
    from next_first [OF lv b(1) that(2) this] that(1) show ?thesis by simp
  qed
  consider (none) "nxt l ?x ?i = None" | (bigger) n where "nxt l ?x ?i = Some n" "last_bigger r = Some n \<or> 0 < compare (node_key l n) ?k"
    | (equal) n where "nxt l ?x ?i = Some n" "last_bigger r \<noteq> Some n" "compare (node_key l n) ?k = 0"
    | (less) n where "nxt l ?x ?i = Some n" "last_bigger r \<noteq> Some n" "compare (node_key l n) ?k < 0"
    by (cases "nxt l ?x ?i") (auto, metis linorder_neqE_linordered_idom)
  then show ?thesis
  proof cases
    case none
    have "\<not> 0 \<le> compare (node_key l m) ?k" if "?i = 0" "m \<in> set (L 0)" for m
    proof
      assume "0 \<le> compare (node_key l m) ?k"
      then have "?x = 0 \<or> compare (node_key l ?x) (node_key l m) < 0"
        using b(2) less_le_trans [of "node_key l ?x" ?k "node_key l m"] le_flip by blast
      from next_first [OF lv b(1) _ this] that none show False by simp
    qed
    then have "?i = 0 \<Longrightarrow> find (\<lambda>n. 0 \<le> compare (node_key l n) ?k) (L 0) = None" by (simp add: find_None_iff)
    moreover have "reader_inv km l L (r\<lparr>rd_level := ?i - 1, last_bigger := None\<rparr>)"
      using i b sub [of "?i - 1"] by (auto simp: reader_inv_def lies_before_def lies_after_def)
    ultimately show ?thesis using none ok by (simp add: read_step_def)
  next
    case bigger
    have n: "n \<in> set (L ?i)" "0 < compare (node_key l n) ?k"
      using bigger a next_after(1) [OF lv b(1) bigger(1)] flip [of ?k "node_key l n"] by (auto simp: lies_after_def)
    have "?i = 0 \<Longrightarrow> find (\<lambda>n. 0 \<le> compare (node_key l n) ?k) (L 0) = Some n"
      by (rule find_first [OF lv0]) (use n least [OF bigger(1)] in auto)
    moreover have "reader_inv km l L (r\<lparr>rd_level := ?i - 1, last_bigger := Some n\<rparr>)"
      using i b n sub [of "?i - 1"] flip [of ?k "node_key l n"] by (auto simp: reader_inv_def lies_before_def lies_after_def)
    ultimately show ?thesis using bigger n(2) ok by (auto simp: read_step_def Let_def)
  next
    case equal
    have n: "n \<in> set (L ?i)" by (rule next_after(1) [OF lv b(1) equal(1)])
    have "find (\<lambda>n. 0 \<le> compare (node_key l n) ?k) (L 0) = Some n"
    proof (rule find_first [OF lv0])
      show "n \<in> set (L 0)" using n sub [of 0] by auto
      show "m = n \<or> compare (node_key l n) (node_key l m) < 0" if "m \<in> set (L 0)" "0 \<le> compare (node_key l m) ?k" for m
        using sorted_total [of l "L 0" n m] lv0 n sub [of 0] that less_le_trans [of "node_key l m" "node_key l n" ?k] equal(3)
        unfolding level_ok_def by fastforce
    qed (simp add: equal(3))
    with equal ok show ?thesis by (simp add: read_step_def)
  next
    case less
    have "n \<in> set (L ?i)" by (rule next_after(1) [OF lv b(1) less(1)])
    with less i a have "reader_inv km l L (r\<lparr>rd_at := n\<rparr>)" by (simp add: reader_inv_def lies_before_def)
    with less ok show ?thesis by (simp add: read_step_def)
  qed
qed


subsubsection \<open>The steps of the thread itself\<close>

definition step_ok :: "nat \<Rightarrow> 'a skiplist \<Rightarrow> (nat \<Rightarrow> nat list) \<Rightarrow> insert_thread \<Rightarrow> (insert_thread \<times> 'a skiplist) res \<Rightarrow> bool" where
  "step_ok km l L th r \<longleftrightarrow> (\<exists>th' l' L'. r = Inr (th', l') \<and> levels_ok km l' L' \<and> thread_inv km l' L' th' \<and>
     own_node th' = own_node th \<and> node_key l' = node_key l \<and> stashed_height l' = stashed_height l \<and> fresh l' = fresh l \<and>
     grows km l L l' L' \<and> (\<forall>x\<in>nodes l. x \<noteq> own_node th \<longrightarrow> keeps km x l L l' L'))"

lemma step_local:
  "levels_ok km l L \<Longrightarrow> thread_inv km l L th' \<Longrightarrow> own_node th' = own_node th \<Longrightarrow> step_ok km l L th (Inr (th', l))"
  unfolding step_ok_def using keeps_refl grows_refl by blast

lemma start_search_inv:
  assumes "levels_ok km l L" "own_node th \<in> nodes l" "linked_upto km L (own_node th) 0" "splice_is_valid th"
    "stashed_height l (own_node th) \<le> max_height l"
  shows "\<exists>th'. start_search (max_height l) th = Inr th' \<and> thread_inv km l L th' \<and> own_node th' = own_node th"
  using assms by (auto simp: start_search_def levels_ok_def thread_inv_def Let_def lies_before_def below_def top_ok_def)

lemma loaded_max_inv:
  assumes "levels_ok km l L" "own_node th \<in> nodes l" "linked_upto km L (own_node th) 0" "splice_is_valid th"
  shows "\<exists>th'. loaded_max (stashed_height l (own_node th)) (max_height l) th = Inr th' \<and> thread_inv km l L th' \<and> own_node th' = own_node th"
proof (cases "max_height l < stashed_height l (own_node th)")
  case True
  with assms show ?thesis by (simp add: loaded_max_def thread_inv_def Let_def)
next
  case False
  with start_search_inv [OF assms] show ?thesis by (simp add: loaded_max_def)
qed

lemma step_load:
  assumes "levels_ok km l L" "nodes_ok km l" "thread_inv km l L th" "pc th = Load_Max"
  shows "step_ok km l L th (thread_step km compare lucky th l)"
proof -
  have x: "own_node th \<in> nodes l" "linked_upto km L (own_node th) 0" "splice_is_valid th"
    using assms(3,4) by (simp_all add: thread_inv_def Let_def)
  with assms(2) have "0 < stashed_height l (own_node th)" "stashed_height l (own_node th) \<le> km" by (auto simp: nodes_ok_def)
  with loaded_max_inv [OF assms(1) x] assms(1,4) show ?thesis by (auto simp: thread_step_def Let_def intro: step_local)
qed

lemma step_cas_max:
  assumes "levels_ok km l L" "nodes_ok km l" "thread_inv km l L th" "pc th = Cas_Max m"
  shows "step_ok km l L th (thread_step km compare lucky th l)"
proof -
  let ?h = "stashed_height l (own_node th)"
  have x: "own_node th \<in> nodes l" "linked_upto km L (own_node th) 0" "splice_is_valid th" "m < ?h"
    using assms(3,4) by (simp_all add: thread_inv_def Let_def)
  show ?thesis
  proof (cases "max_height l = m \<and> lucky")
    case True
    let ?l = "l\<lparr>max_height := ?h\<rparr>"
    have h: "?h \<le> km" using assms(2) x(1) by (auto simp: nodes_ok_def)
    have lv: "levels_ok km ?l L" using assms(1) True x(4) h by (auto simp: levels_ok_def level_ok_def)
    obtain th' where th': "start_search ?h th = Inr th'" "thread_inv km ?l L th'" "own_node th' = own_node th"
      using start_search_inv [OF lv, of th] x by auto
    have "thread_step km compare lucky th l = Inr (th', ?l)" using True th'(1) assms(4) by (simp add: thread_step_def Let_def)
    moreover have "keeps km n l L ?l L" for n using True x(4) by (simp add: keeps_def)
    moreover have "grows km l L ?l L" by (simp add: grows_def)
    ultimately show ?thesis using th'(2,3) lv unfolding step_ok_def
      by (intro exI [of _ th'] exI [of _ ?l] exI [of _ L]) simp
  next
    case False
    with loaded_max_inv [OF assms(1) x(1-3)] assms(1,4) show ?thesis by (auto simp: thread_step_def Let_def intro: step_local)
  qed
qed

lemma other_key:
  assumes "levels_ok km l L" "nodes_ok km l" "x \<in> nodes l" "linked_upto km L x j" "j \<le> i" "i < km" "n \<in> set (L i)"
  shows "compare (node_key l n) (node_key l x) \<noteq> 0"
proof -
  have "n \<noteq> x" using assms(4-7) by (auto simp: linked_upto_def)
  with in_nodes [OF assms(1,6,7)] assms(2,3) show ?thesis by (auto simp: nodes_ok_def)
qed

lemma below_trans: "below l a b \<Longrightarrow> below l b c \<Longrightarrow> below l a c"
  unfolding below_def using less_trans by metis

lemma step_search:
  assumes "levels_ok km l L" "nodes_ok km l" "thread_inv km l L th" "pc th = Search i b a"
  shows "step_ok km l L th (thread_step km compare lucky th l)"
proof -
  let ?x = "own_node th" and ?s = "own_splice th"
  let ?k = "node_key l ?x" and ?h = "stashed_height l ?x"
  have t: "?x \<in> nodes l" "linked_upto km L ?x 0" "splice_is_valid th" "top_ok l ?h ?s" "i < sp_height ?s" "lies_before l (L i) ?k b"
    "below l (prevs ?s (Suc i)) b" "a = nexts ?s (Suc i)"
    "\<And>j. i < j \<Longrightarrow> j < sp_height ?s \<Longrightarrow> around l L ?k ?s j \<and> nested l ?s j"
    using assms(3,4) by (simp_all add: thread_inv_def Let_def)
  have i: "i < km" using t(4,5) assms(1) by (simp add: top_ok_def levels_ok_def)
  have lv: "level_ok l i (L i)" using assms(1) i by (simp add: levels_ok_def)
  have af: "lies_after l (L i) ?k a"
  proof (cases "Suc i = sp_height ?s")
    case True
    with t(4,8) show ?thesis by (simp add: top_ok_def lies_after_def)
  next
    case False
    with t(5,9) have "around l L ?k ?s (Suc i)" "Suc i < km" using t(4) assms(1) by (simp_all add: top_ok_def levels_ok_def)
    moreover have "set (L (Suc i)) \<subseteq> set (L i)" by (rule level_down [OF assms(1) calculation(2)]) simp
    ultimately show ?thesis using t(8) by (auto simp: around_def lies_after_def)
  qed
  have ne: "\<forall>n\<in>set (L i). compare (node_key l n) ?k \<noteq> 0"
    using other_key [OF assms(1,2) t(1,2) _ i] by blast
  show ?thesis
  using lv t(6) af ne
  proof (cases rule: find_step_cases)
    case (go n)
    have "thread_inv km l L (th\<lparr>pc := Search i n a\<rparr>)"
      using t go(2) below_trans [OF t(7) go(3)] by (simp add: thread_inv_def Let_def)
    with assms(1,4) go(1) show ?thesis by (auto simp: thread_step_def Let_def intro!: step_local)
  next
    case (found n)
    let ?s' = "set_level i (b, n) ?s"
    have ab: "above l n a" using found(4) af by (cases a) (auto simp: above_def)
    have ar: "around l L ?k ?s' j \<and> nested l ?s' j" if "i \<le> j" "j < sp_height ?s" for j
      using that t(6-9) found(2) ab by (cases "i = j") (auto simp: around_def nested_def)
    have top: "top_ok l ?h ?s'" using t(4,5) by (simp add: top_ok_def)
    have "thread_inv km l L (th\<lparr>own_splice := ?s', pc := if i = 0 then Set_Next 0 else Search (i - 1) b n\<rparr>)"
    proof (cases i)
      case 0
      have "0 < ?h" using assms(2) t(1) by (auto simp: nodes_ok_def)
      with 0 t(1-3) top ar show ?thesis by (simp add: thread_inv_def Let_def splice_ready_def)
    next
      case (Suc j)
      have "set (L i) \<subseteq> set (L j)" by (rule level_down [OF assms(1) i]) (simp add: Suc)
      with t(6) have "lies_before l (L j) ?k b" by (auto simp: lies_before_def)
      with Suc t(1-3,5) top ar show ?thesis by (auto simp: thread_inv_def Let_def below_def)
    qed
    with assms(1,4) found(1) show ?thesis by (auto simp: thread_step_def Let_def intro!: step_local)
  qed
qed

lemma step_search_again:
  assumes "levels_ok km l L" "nodes_ok km l" "thread_inv km l L th" "pc th = Search_Again i b"
  shows "step_ok km l L th (thread_step km compare lucky th l)"
proof -
  let ?x = "own_node th" and ?s = "own_splice th"
  let ?k = "node_key l ?x" and ?h = "stashed_height l ?x"
  have t: "?x \<in> nodes l" "i < ?h" "linked_upto km L ?x i" "splice_ready l L ?k ?h ?s (splice_is_valid th)"
    "lies_before l (L i) ?k b" "below l (prevs ?s i) b" using assms(3,4) by (simp_all add: thread_inv_def Let_def)
  have i: "i < km" "i < sp_height ?s" using t(2,4) assms(1) by (simp_all add: splice_ready_def top_ok_def levels_ok_def)
  have lv: "level_ok l i (L i)" using assms(1) i by (simp add: levels_ok_def)
  have ne: "\<forall>n\<in>set (L i). compare (node_key l n) ?k \<noteq> 0"
    using other_key [OF assms(1,2) t(1,3) _ i(1)] by blast
  have af: "lies_after l (L i) ?k None" by (simp add: lies_after_def)
  show ?thesis
  using lv t(5) af ne
  proof (cases rule: find_step_cases)
    case (go n)
    have "thread_inv km l L (th\<lparr>pc := Search_Again i n\<rparr>)"
      using t go(2) below_trans [OF t(6) go(3)] by (simp add: thread_inv_def Let_def)
    with assms(1,4) go(1) show ?thesis by (auto simp: thread_step_def Let_def intro!: step_local)
  next
    case (found n)
    let ?s' = "set_level i (b, n) ?s" and ?v = "splice_is_valid th \<and> \<not> 0 < i"
    have ar: "around l L ?k ?s' j" if "j < sp_height ?s" for j
      using that t(4,5) found(2) by (cases "i = j") (auto simp: around_def splice_ready_def)
    have ns: "nested l ?s' j" if "j < sp_height ?s" "?v" for j
    proof (cases "i = j")
      case False
      with that t(4) show ?thesis by (simp add: nested_def splice_ready_def)
    next
      case True
      with that t(4) have n: "below l (prevs ?s (Suc i)) (prevs ?s i)" by (simp add: nested_def splice_ready_def)
      have "above l n (nexts ?s (Suc i))"
      proof (cases "nexts ?s (Suc i)")
        case (Some y)
        then have "Suc i < sp_height ?s" using t(4) i(2) by (cases "Suc i = sp_height ?s") (auto simp: splice_ready_def top_ok_def)
        then have "around l L ?k ?s (Suc i)" "Suc i < km" using t(4) assms(1) by (simp_all add: splice_ready_def top_ok_def levels_ok_def)
        moreover have "set (L (Suc i)) \<subseteq> set (L i)" by (rule level_down [OF assms(1) calculation(2)]) simp
        ultimately have "lies_after l (L i) ?k (Some y)" using Some by (auto simp: around_def lies_after_def)
        from found(4) [OF this] Some show ?thesis by simp
      qed (simp add: above_def)
      with True below_trans [OF n t(6)] show ?thesis by (simp add: nested_def)
    qed
    have "top_ok l ?h ?s'" using t(4) i(2) by (simp add: top_ok_def splice_ready_def)
    with t(1-3) ar ns have "thread_inv km l L (th\<lparr>own_splice := ?s', splice_is_valid := ?v, pc := Set_Next i\<rparr>)"
      by (simp add: thread_inv_def Let_def splice_ready_def)
    with assms(1,4) found(1) show ?thesis by (auto simp: thread_step_def Let_def intro!: step_local)
  qed
qed


lemma around_fine:
  assumes "around l L k s i"
  shows "prevs s i = 0 \<or> compare (node_key l (prevs s i)) k < 0" "nexts s i = Some y \<Longrightarrow> compare k (node_key l y) < 0"
  using assms by (auto simp: around_def lies_before_def lies_after_def)

lemma level_cong:
  assumes "level_ok l i ys" "\<And>n. n \<in> insert 0 (set ys) \<Longrightarrow> nxt l' n i = nxt l n i" "node_key l' = node_key l"
    "stashed_height l' = stashed_height l" "fresh l' = fresh l"
  shows "level_ok l' i ys"
proof -
  have "chain (\<lambda>n. nxt l' n i) 0 ys \<longleftrightarrow> chain (\<lambda>n. nxt l n i) 0 ys" by (rule chain_cong) (rule assms(2))
  with assms show ?thesis by (simp add: level_ok_def)
qed

lemma SetNext_sel [simp]:
  "node_key (SetNext x i n l) = node_key l" "stashed_height (SetNext x i n l) = stashed_height l"
  "fresh (SetNext x i n l) = fresh l" "max_height (SetNext x i n l) = max_height l"
  "nxt (SetNext x i n l) a j = (if a = x \<and> j = i then n else nxt l a j)"
  by (simp_all add: SetNext_def)

lemma splice_ready_cong:
  assumes "splice_ready l L k h s v" "node_key l' = node_key l" "max_height l' = max_height l"
    "\<And>i. i < sp_height s \<Longrightarrow> set (L i) \<subseteq> set (L' i)"
  shows "splice_ready l' L' k h s v"
proof -
  have "around l' L' k s j" if "around l L k s j" "j < sp_height s" for j
    using that(1) lies_before_mono [OF _ assms(4) [OF that(2)]] lies_after_mono [OF _ assms(4) [OF that(2)]] assms(2)
    unfolding around_def by metis
  moreover have "nested l' s j \<longleftrightarrow> nested l s j" for j by (simp add: nested_def below_def above_def assms(2))
  ultimately show ?thesis using assms(1,3) by (simp add: splice_ready_def top_ok_def)
qed

lemma step_set_next:
  assumes "levels_ok km l L" "nodes_ok km l" "thread_inv km l L th" "pc th = Set_Next i"
  shows "step_ok km l L th (thread_step km compare lucky th l)"
proof -
  let ?x = "own_node th" and ?s = "own_splice th"
  let ?k = "node_key l ?x" and ?h = "stashed_height l ?x"
  let ?l = "SetNext ?x i (nexts ?s i) l"
  have t: "?x \<in> nodes l" "i < ?h" "linked_upto km L ?x i" "splice_ready l L ?k ?h ?s (splice_is_valid th)"
    using assms(3,4) by (simp_all add: thread_inv_def Let_def)
  have i: "i < km" "i < sp_height ?s" using t(2,4) assms(1) by (simp_all add: splice_ready_def top_ok_def levels_ok_def)
  have ar: "around l L ?k ?s i" using t(4) i(2) by (simp add: splice_ready_def)
  have x: "?x \<notin> set (L i)" "?x \<noteq> 0" using t(1,3) i(1) by (auto simp: linked_upto_def)
  have "level_ok ?l j (L j)" if "j < km" for j
    by (rule level_cong) (use assms(1) that x in \<open>auto simp: levels_ok_def\<close>)
  then have lv: "levels_ok km ?l L" using assms(1) by (simp add: levels_ok_def)
  have "splice_ready ?l L ?k ?h ?s (splice_is_valid th)" by (rule splice_ready_cong [OF t(4)]) simp_all
  then have ti: "thread_inv km ?l L (th\<lparr>pc := Cas_Next i\<rparr>)" using t(1-3) by (simp add: thread_inv_def Let_def)
  have "keeps km n l L ?l L" if "n \<noteq> ?x" for n using that by (simp add: keeps_def)
  moreover have "thread_step km compare lucky th l = Inr (th\<lparr>pc := Cas_Next i\<rparr>, ?l)"
    using assms(4) around_fine [OF ar] by (simp add: thread_step_def Let_def split: option.split)
  moreover have "grows km l L ?l L" by (simp add: grows_def)
  ultimately show ?thesis using lv ti unfolding step_ok_def
    by (intro exI [of _ "th\<lparr>pc := Cas_Next i\<rparr>"] exI [of _ ?l] exI [of _ L]) simp
qed

lemma step_cas_next:
  assumes "levels_ok km l L" "nodes_ok km l" "thread_inv km l L th" "pc th = Cas_Next i"
  shows "step_ok km l L th (thread_step km compare lucky th l)"
proof -
  let ?x = "own_node th" and ?s = "own_splice th"
  let ?k = "node_key l ?x" and ?h = "stashed_height l ?x"
  let ?p = "prevs ?s i"
  have t: "?x \<in> nodes l" "i < ?h" "linked_upto km L ?x i" "splice_ready l L ?k ?h ?s (splice_is_valid th)" "nxt l ?x i = nexts ?s i"
    using assms(3,4) by (simp_all add: thread_inv_def Let_def)
  have i: "i < km" "i < sp_height ?s" using t(2,4) assms(1) by (simp_all add: splice_ready_def top_ok_def levels_ok_def)
  have ar: "lies_before l (L i) ?k ?p" "lies_after l (L i) ?k (nexts ?s i)" using t(4) i(2) by (simp_all add: splice_ready_def around_def)
  show ?thesis
  proof (cases "nxt l ?p i = nexts ?s i")
    case False
    have "thread_inv km l L (th\<lparr>pc := Search_Again i ?p\<rparr>)" using t ar by (simp add: thread_inv_def Let_def below_def)
    with False assms(1,4) show ?thesis by (auto simp: thread_step_def Let_def intro!: step_local)
  next
    case True
    let ?l = "SetNext ?p i (Some ?x) l"
    have x: "?x \<notin> set (L i)" "?x \<noteq> 0" using t(1,3) i(1) by (auto simp: linked_upto_def)
    have lvi: "level_ok l i (L i)" using assms(1) i(1) by (simp add: levels_ok_def)
    obtain ys where ys: "level_ok ?l i ys" "set ys = insert ?x (set (L i))"
      using link_level [OF lvi ar(1) _ HOL.refl x(1) t(1,2)] ar(2) t(5) True by auto
    let ?L = "L(i := ys)"
    have sub: "set (L j) \<subseteq> set (?L j)" for j using ys(2) by auto
    have "level_ok ?l j (?L j)" if j: "j < km" for j
    proof (cases "j = i")
      case False
      have "level_ok l j (L j)" using assms(1) j by (simp add: levels_ok_def)
      then have "level_ok ?l j (L j)" by (rule level_cong) (use False in simp_all)
      with False show ?thesis by simp
    qed (use ys(1) in simp)
    moreover have "set (?L (Suc j)) \<subseteq> set (?L j)" if j: "Suc j < km" for j
    proof -
      have "set (L (Suc j)) \<subseteq> set (L j)" using assms(1) j by (simp add: levels_ok_def)
      moreover have "?x \<in> set (L j)" if "Suc j = i" using t(3) i(1) that by (auto simp: linked_upto_def)
      ultimately show ?thesis using ys(2) by auto
    qed
    moreover have "?L j = []" if "j < km" "max_height l \<le> j" for j
      using assms(1) that t(4) i(2) by (auto simp: levels_ok_def splice_ready_def top_ok_def)
    ultimately have lv: "levels_ok km ?l ?L" using assms(1) by (simp add: levels_ok_def)
    have up: "linked_upto km ?L ?x (Suc i)" using t(3) ys(2) by (auto simp: linked_upto_def less_Suc_eq)
    have ready: "splice_ready ?l ?L ?k ?h ?s (splice_is_valid th)"
      by (rule splice_ready_cong [OF t(4) _ _ sub]) simp_all
    let ?th = "th\<lparr>pc := if i + 1 < ?h then Set_Next (i + 1) else Finish\<rparr>"
    have ti: "thread_inv km ?l ?L ?th"
    proof (cases "i + 1 < ?h")
      case False
      with t(2) have "?h = Suc i" by simp
      with False up ready t(1) show ?thesis by (simp add: thread_inv_def Let_def)
    qed (use up ready t(1) in \<open>simp add: thread_inv_def Let_def\<close>)
    have "keeps km n l L ?l ?L" if "n \<noteq> ?x" "n \<in> nodes l" for n
    proof -
      have "n = ?p \<longrightarrow> ?p \<in> set (L i)" using ar(1) that(2) by (auto simp: lies_before_def)
      moreover have "n \<in> set (?L j) \<longleftrightarrow> n \<in> set (L j)" for j using ys(2) that(1) by simp
      ultimately show ?thesis using sub by (auto simp: keeps_def simp del: fun_upd_apply)
    qed
    moreover have "thread_step km compare lucky th l = Inr (?th, ?l)"
      using assms(4) True by (simp add: thread_step_def Let_def)
    moreover have "grows km l L ?l ?L" using sub by (simp add: grows_def)
    ultimately show ?thesis using lv ti unfolding step_ok_def
      by (intro exI [of _ ?th] exI [of _ ?l] exI [of _ ?L]) simp
  qed
qed

lemma step_finish:
  assumes "levels_ok km l L" "nodes_ok km l" "thread_inv km l L th" "pc th = Finish"
  shows "step_ok km l L th (thread_step km compare lucky th l)"
proof -
  let ?x = "own_node th" and ?s = "own_splice th"
  let ?k = "node_key l ?x" and ?h = "stashed_height l ?x"
  let ?t = "?s\<lparr>prevs := \<lambda>i. if i < ?h then ?x else prevs ?s i\<rparr>"
  have t: "?x \<in> nodes l" "linked_upto km L ?x ?h" "splice_ready l L ?k ?h ?s (splice_is_valid th)"
    using assms(3,4) by (simp_all add: thread_inv_def Let_def)
  have top: "top_ok l ?h ?s" "\<And>j. j < sp_height ?s \<Longrightarrow> around l L ?k ?s j" using t(3) by (simp_all add: splice_ready_def)
  have less: "prevs ?s j = 0 \<or> compare (node_key l (prevs ?s j)) ?k < 0" if "j \<le> sp_height ?s" for j
    using around_fine(1) [OF top(2)] top(1) that by (cases "j = sp_height ?s") (simp_all add: top_ok_def)
  have "splice_asserts compare ?k ?t l" if v: "splice_is_valid th"
    unfolding splice_asserts_def list_all_iff
  proof (intro conjI ballI)
    show "prevs ?t (sp_height ?t) = 0" "nexts ?t (sp_height ?t) = None" using top(1) by (simp_all add: top_ok_def)
    fix j assume "j \<in> set [0..<sp_height ?t]"
    then have j: "j < sp_height ?s" by simp
    then have ns: "nested l ?s j" using t(3) v by (simp add: splice_ready_def)
    show "case nexts ?t j of None \<Rightarrow> True | Some n \<Rightarrow> compare ?k (node_key l n) < 0"
      using around_fine(2) [OF top(2) [OF j]] by (simp split: option.split)
    show "prevs ?t j = 0 \<or> compare (node_key l (prevs ?t j)) ?k \<le> 0" using less [of j] j same [of ?k] by auto
    show "prevs ?t (j + 1) = prevs ?t j \<or> prevs ?t (j + 1) = 0 \<or>
        compare (node_key l (prevs ?t (j + 1))) (node_key l (prevs ?t j)) < 0"
      using ns less [of "Suc j"] j by (auto simp: nested_def below_def)
    show "nexts ?t (j + 1) = nexts ?t j \<or> nexts ?t (j + 1) = None \<or>
        nexts ?t j \<noteq> None \<and> compare (node_key l (the (nexts ?t j))) (node_key l (the (nexts ?t (j + 1)))) < 0"
      using ns by (auto simp: nested_def above_def)
  qed
  then show ?thesis using assms(1,4) t by (auto simp: thread_step_def Let_def thread_inv_def intro!: step_local)
qed

lemma thread_step_ok:
  assumes "levels_ok km l L" "nodes_ok km l" "thread_inv km l L th"
  shows "step_ok km l L th (thread_step km compare lucky th l)"
proof (cases "pc th")
  case Returned
  with assms show ?thesis by (simp add: thread_step_def Let_def step_local)
qed (auto intro: step_load [OF assms] step_cas_max [OF assms] step_search [OF assms] step_set_next [OF assms]
  step_cas_next [OF assms] step_search_again [OF assms] step_finish [OF assms])

end

end
