(* ===== verification/SkipListThreadsSpec.thy ===== *)
theory SkipListThreadsSpec
  imports SkipListThreadsInv
begin

section \<open>RocksDB: what concurrent insertion promises\<close>

text \<open>
  The invariant of all reachable states, the list when all threads have returned, the measure that shows that a thread
  alone returns, and the properties for the comparison of internal keys.
\<close>

context key_order
begin

subsection \<open>All reachable states\<close>

definition owned :: "'a shared_list \<Rightarrow> nat \<Rightarrow> bool" where
  "owned s n \<longleftrightarrow> (\<exists>t th. threads s t = Some th \<and> own_node th = n)"

definition shared_inv :: "nat \<Rightarrow> 'a shared_list \<Rightarrow> (nat \<Rightarrow> nat list) \<Rightarrow> bool" where
  "shared_inv km s L \<longleftrightarrow> levels_ok km (the_list s) L \<and> nodes_ok km (the_list s) \<and>
     (\<forall>t th. threads s t = Some th \<longrightarrow> thread_inv km (the_list s) L th) \<and>
     (\<forall>t t' th th'. threads s t = Some th \<longrightarrow> threads s t' = Some th' \<longrightarrow> own_node th = own_node th' \<longrightarrow> t = t') \<and>
     (\<forall>n\<in>nodes (the_list s). owned s n \<or> linked_upto km L n (stashed_height (the_list s) n)) \<and>
     (\<forall>t r. readers s t = Some r \<longrightarrow> reader_inv km (the_list s) L r)"

lemma owned_upd:
  "owned (s\<lparr>the_list := l, threads := (threads s)(t \<mapsto> th)\<rparr>) n \<longleftrightarrow>
    own_node th = n \<or> (\<exists>t' th'. t' \<noteq> t \<and> threads s t' = Some th' \<and> own_node th' = n)"
proof
  show "owned (s\<lparr>the_list := l, threads := (threads s)(t \<mapsto> th)\<rparr>) n"
    if "own_node th = n \<or> (\<exists>t' th'. t' \<noteq> t \<and> threads s t' = Some th' \<and> own_node th' = n)"
    using that
  proof
    assume "own_node th = n"
    then show ?thesis by (simp add: owned_def exI [of _ t])
  next
    assume "\<exists>t' th'. t' \<noteq> t \<and> threads s t' = Some th' \<and> own_node th' = n"
    then obtain t' th' where "t' \<noteq> t" "threads s t' = Some th'" "own_node th' = n" by blast
    then show ?thesis by (simp add: owned_def exI [of _ t'])
  qed
qed (auto simp: owned_def split: if_splits)

lemma shared_inv_upd:
  assumes inv: "shared_inv km s L" and "levels_ok km l L'" "nodes_ok km l" "thread_inv km l L' th'"
    and others: "\<And>t' th. t' \<noteq> t \<Longrightarrow> threads s t' = Some th \<Longrightarrow> thread_inv km l L' th \<and> own_node th \<noteq> own_node th'"
    and nodes: "\<And>n. n \<in> nodes l \<Longrightarrow> n = own_node th' \<or> (\<exists>t' th. t' \<noteq> t \<and> threads s t' = Some th \<and> own_node th = n) \<or>
      linked_upto km L' n (stashed_height l n)"
    and grows: "grows km (the_list s) L l L'"
  shows "shared_inv km (s\<lparr>the_list := l, threads := (threads s)(t \<mapsto> th')\<rparr>) L'"
proof -
  let ?s = "s\<lparr>the_list := l, threads := (threads s)(t \<mapsto> th')\<rparr>"
  have "thread_inv km l L' th" if "threads ?s t' = Some th" for t' th
    using that assms(4) others by (cases "t' = t") auto
  moreover have "t1 = t2" if "threads ?s t1 = Some th1" "threads ?s t2 = Some th2" "own_node th1 = own_node th2" for t1 t2 th1 th2
  proof (cases "t1 = t \<or> t2 = t")
    case True
    with that others show ?thesis by (cases "t1 = t"; cases "t2 = t") fastforce+
  next
    case False
    with that inv show ?thesis by (simp add: shared_inv_def)
  qed
  moreover have "owned ?s n \<or> linked_upto km L' n (stashed_height l n)" if "n \<in> nodes l" for n
  proof -
    have "owned ?s n" if "n = own_node th' \<or> (\<exists>t' th. t' \<noteq> t \<and> threads s t' = Some th \<and> own_node th = n)"
      by (rule owned_upd [THEN iffD2]) (use that in blast)
    with nodes [OF that] show ?thesis by blast
  qed
  moreover have "reader_inv km l L' r" if "readers ?s t' = Some r" for t' r
    using reader_inv_stable [OF _ _ grows] inv that by (simp add: shared_inv_def)
  moreover have l: "the_list ?s = l" by simp
  ultimately show ?thesis using assms(2,3) unfolding shared_inv_def l by blast
qed

lemma start_inv: "0 < km \<Longrightarrow> km < kMaxPossibleHeight \<Longrightarrow>
    shared_inv km \<lparr>the_list = new_skiplist k, threads = \<lambda>_. None, readers = \<lambda>_. None\<rparr> (\<lambda>_. [])"
  by (auto simp: shared_inv_def levels_ok_def level_ok_def nodes_ok_def new_skiplist_def)

lemma begin_inv:
  assumes inv: "shared_inv km s L" and t: "threads s t = None" and h: "0 < height" "height \<le> km"
    and new: "\<forall>n\<in>nodes (the_list s). compare (node_key (the_list s) n) key \<noteq> 0"
    and al: "AllocateKey height key (the_list s) = (x, l)"
  shows "shared_inv km (s\<lparr>the_list := l, threads := (threads s)(t \<mapsto> new_thread x)\<rparr>) L"
proof -
  let ?o = "the_list s"
  have l: "x = fresh ?o" "l = ?o\<lparr>node_key := (node_key ?o)(x := key), stashed_height := (stashed_height ?o)(x := height), fresh := x + 1\<rparr>"
    using al unfolding AllocateKey_def by (metis prod.inject)+
  have lv: "levels_ok km ?o L" and nd: "nodes_ok km ?o" using inv by (simp_all add: shared_inv_def)
  have old: "node_key l n = node_key ?o n" "stashed_height l n = stashed_height ?o n" "n \<in> nodes l" "n \<noteq> x" if "n \<in> nodes ?o" for n
    using that by (simp_all add: l)
  have f: "0 < fresh ?o" using lv by (simp add: levels_ok_def)
  have nodes: "nodes l = insert x (nodes ?o)" using f by (auto simp: l)
  have xs: "x \<in> nodes l" "node_key l x = key" "stashed_height l x = height" using f by (simp_all add: l)
  have nx: "nxt l = nxt ?o" "max_height l = max_height ?o" by (simp_all add: l)
  have xL: "x \<notin> set (L i)" if "i < km" for i using in_nodes [OF lv that, of x] by (auto simp: l(1))
  have "level_ok l i (L i)" if i: "i < km" for i
  proof -
    have "level_ok ?o i (L i)" using lv i by (simp add: levels_ok_def)
    moreover have "sorted_wrt (\<lambda>a b. compare (node_key l a) (node_key l b) < 0) (L i) \<longleftrightarrow>
        sorted_wrt (\<lambda>a b. compare (node_key ?o a) (node_key ?o b) < 0) (L i)"
      by (rule sorted_keys) (use in_nodes [OF lv i] old(1) in blast)
    ultimately show ?thesis using old(2,3) by (auto simp: level_ok_def nx)
  qed
  then have lv': "levels_ok km l L" using lv by (simp add: levels_ok_def nx) (simp add: l)
  have nd': "nodes_ok km l"
    using nd new h old(1,2) xs eq_flip unfolding nodes_ok_def nodes by (metis insert_iff)
  have keeps: "keeps km n ?o L l L" for n using old(1,2) by (simp add: keeps_def nx) (simp add: l)
  have thr: "thread_inv km l L th" if "threads s t' = Some th" for t' th
    using thread_inv_stable [OF lv _ keeps] inv that by (auto simp: shared_inv_def)
  have new_inv: "thread_inv km l L (new_thread x)"
    using xs xL by (simp add: thread_inv_def new_thread_def Let_def linked_upto_def)
  have own: "own_node th \<noteq> x" if "threads s t' = Some th" for t' th
    using inv that old(4) unfolding shared_inv_def thread_inv_def Let_def by metis
  show ?thesis
  proof (rule shared_inv_upd [OF inv lv' nd' new_inv])
    show "grows km ?o L l L" using old(1) by (simp add: grows_def)
    show "thread_inv km l L th \<and> own_node th \<noteq> own_node (new_thread x)" if "t' \<noteq> t" "threads s t' = Some th" for t' th
      using thr [OF that(2)] own [OF that(2)] by (simp add: new_thread_def)
    fix n assume n: "n \<in> nodes l"
    show "n = own_node (new_thread x) \<or> (\<exists>t' th. t' \<noteq> t \<and> threads s t' = Some th \<and> own_node th = n) \<or>
        linked_upto km L n (stashed_height l n)"
    proof (cases "n = x")
      case False
      with n nodes have no: "n \<in> nodes ?o" by simp
      with inv have "owned s n \<or> linked_upto km L n (stashed_height ?o n)" by (simp add: shared_inv_def)
      with t old(2) [OF no] show ?thesis unfolding owned_def by (metis option.distinct(1))
    qed (simp add: new_thread_def)
  qed
qed

lemma step_inv:
  assumes inv: "shared_inv km s L" and t: "threads s t = Some th"
    and st: "thread_step km compare lucky th (the_list s) = Inr (th', l)"
  shows "\<exists>L'. shared_inv km (s\<lparr>the_list := l, threads := (threads s)(t \<mapsto> th')\<rparr>) L'"
proof -
  let ?o = "the_list s"
  have lv: "levels_ok km ?o L" and nd: "nodes_ok km ?o" and ti: "thread_inv km ?o L th" using inv t by (auto simp: shared_inv_def)
  from thread_step_ok [OF lv nd ti, of lucky] obtain L' where L': "levels_ok km l L'" "thread_inv km l L' th'"
    "own_node th' = own_node th" "node_key l = node_key ?o" "stashed_height l = stashed_height ?o" "fresh l = fresh ?o"
    "\<And>x. x \<in> nodes ?o \<Longrightarrow> x \<noteq> own_node th \<Longrightarrow> keeps km x ?o L l L'" "grows km ?o L l L'"
    unfolding step_ok_def st by auto
  have distinct: "own_node th2 \<noteq> own_node th" if "threads s t2 = Some th2" "t2 \<noteq> t" for t2 th2
    using inv t that unfolding shared_inv_def by blast
  have "shared_inv km (s\<lparr>the_list := l, threads := (threads s)(t \<mapsto> th')\<rparr>) L'"
  proof (rule shared_inv_upd [OF inv L'(1) _ L'(2)])
    show "grows km ?o L l L'" by (rule L'(8))
    show "nodes_ok km l" using nd by (simp add: nodes_ok_def L'(4-6))
    show "thread_inv km l L' th2 \<and> own_node th2 \<noteq> own_node th'" if "t2 \<noteq> t" "threads s t2 = Some th2" for t2 th2
    proof -
      have i2: "thread_inv km ?o L th2" using inv that(2) by (simp add: shared_inv_def)
      then have "own_node th2 \<in> nodes ?o" by (simp add: thread_inv_def Let_def)
      from thread_inv_stable [OF lv i2 L'(7) [OF this distinct [OF that(2,1)]]] distinct [OF that(2,1)] L'(3) show ?thesis by simp
    qed
    fix n assume "n \<in> nodes l"
    then have n: "n \<in> nodes ?o" by (simp add: L'(6))
    show "n = own_node th' \<or> (\<exists>t' th. t' \<noteq> t \<and> threads s t' = Some th \<and> own_node th = n) \<or> linked_upto km L' n (stashed_height l n)"
    proof (cases "n = own_node th \<or> owned s n")
      case True
      with t L'(3) show ?thesis unfolding owned_def by (metis option.inject)
    next
      case False
      from L'(7) [OF n] False have "\<forall>i<km. n \<in> set (L' i) \<longleftrightarrow> n \<in> set (L i)" by (simp add: keeps_def)
      moreover have "linked_upto km L n (stashed_height ?o n)" using inv n False by (auto simp: shared_inv_def)
      ultimately show ?thesis using L'(5) by (simp add: linked_upto_def)
    qed
  qed
  then show ?thesis by blast
qed

lemma end_inv:
  assumes inv: "shared_inv km s L" and t: "threads s t = Some th" "pc th = Returned"
  shows "shared_inv km (s\<lparr>threads := (threads s)(t := None)\<rparr>) L"
proof -
  have ti: "thread_inv km (the_list s) L th" using inv t(1) by (simp add: shared_inv_def)
  then have r: "linked_upto km L (own_node th) (stashed_height (the_list s) (own_node th))" using t(2) by (simp add: thread_inv_def Let_def)
  let ?s = "s\<lparr>threads := (threads s)(t := None)\<rparr>"
  have "owned ?s n \<or> linked_upto km L n (stashed_height (the_list s) n)" if n: "n \<in> nodes (the_list s)" for n
  proof (cases "n = own_node th")
    case False
    have "owned ?s n" if o: "owned s n"
    proof -
      obtain t2 th2 where "threads s t2 = Some th2" "own_node th2 = n" using o by (auto simp: owned_def)
      moreover from this False t(1) have "t2 \<noteq> t" by auto
      ultimately show ?thesis by (simp add: owned_def exI [of _ t2])
    qed
    moreover have "owned s n \<or> linked_upto km L n (stashed_height (the_list s) n)" using inv n by (simp add: shared_inv_def)
    ultimately show ?thesis by blast
  qed (use r in simp)
  moreover have "threads s t' = Some th'" if "threads ?s t' = Some th'" for t' th' using that by (simp split: if_splits)
  moreover have e: "the_list ?s = the_list s" "readers ?s = readers s" by simp_all
  ultimately show ?thesis using inv unfolding shared_inv_def e by metis
qed

lemma readers_inv:
  assumes inv: "shared_inv km s L" and r: "\<And>t r. rs t = Some r \<Longrightarrow> reader_inv km (the_list s) L r"
  shows "shared_inv km (s\<lparr>readers := rs\<rparr>) L"
proof -
  have e: "the_list (s\<lparr>readers := rs\<rparr>) = the_list s" "threads (s\<lparr>readers := rs\<rparr>) = threads s" "readers (s\<lparr>readers := rs\<rparr>) = rs"
    "owned (s\<lparr>readers := rs\<rparr>) = owned s" by (simp_all add: owned_def fun_eq_iff)
  show ?thesis using inv r unfolding shared_inv_def e by blast
qed

lemma read_begin_inv:
  "shared_inv km s L \<Longrightarrow> shared_inv km (s\<lparr>readers := (readers s)(t \<mapsto> new_seeker key (the_list s))\<rparr>) L"
  by (rule readers_inv)
    (auto simp: shared_inv_def reader_inv_def new_seeker_def lies_before_def lies_after_def levels_ok_def split: if_splits)

lemma read_step_inv:
  assumes inv: "shared_inv km s L" and r: "readers s t = Some r" "read_step compare (the_list s) r = Inr (Inl r')"
  shows "shared_inv km (s\<lparr>readers := (readers s)(t \<mapsto> r')\<rparr>) L"
proof (rule readers_inv [OF inv])
  fix t2 r2 assume "((readers s)(t \<mapsto> r')) t2 = Some r2"
  moreover have "reader_inv km (the_list s) L r'"
    using read_step_ok [of km "the_list s" L r] inv r by (auto simp: shared_inv_def)
  ultimately show "reader_inv km (the_list s) L r2" using inv by (auto simp: shared_inv_def split: if_splits)
qed

lemma read_end_inv: "shared_inv km s L \<Longrightarrow> shared_inv km (s\<lparr>readers := (readers s)(t := None)\<rparr>) L"
  by (rule readers_inv) (auto simp: shared_inv_def split: if_splits)

lemma reach_inv:
  assumes "shared_reach km compare s" "0 < km" "km < kMaxPossibleHeight"
  shows "\<exists>L. shared_inv km s L"
  using assms
proof (induction rule: shared_reach.induct)
  case (Start k)
  then show ?case using start_inv by blast
next
  case (More s s')
  then obtain L where L: "shared_inv km s L" by blast
  from More.hyps(2) show ?case
    by (cases rule: shared_stepE) (use begin_inv [OF L] step_inv [OF L] end_inv [OF L]
      read_begin_inv [OF L] read_step_inv [OF L] read_end_inv [OF L] in blast)+
qed

lemma sorted_unique:
  "sorted_wrt (\<lambda>a b. compare (node_key l a) (node_key l b) < 0) xs \<Longrightarrow>
    sorted_wrt (\<lambda>a b. compare (node_key l a) (node_key l b) < 0) ys \<Longrightarrow> set xs = set ys \<Longrightarrow> xs = ys"
proof (induction xs arbitrary: ys)
  case (Cons x xs)
  then obtain y ys' where ys: "ys = y # ys'" by (cases ys) auto
  have "x = y"
  proof (rule ccontr)
    assume "x \<noteq> y"
    with Cons.prems ys have "compare (node_key l x) (node_key l y) < 0" "compare (node_key l y) (node_key l x) < 0"
      by (metis insert_iff list.set(2) sorted_wrt.simps(2))+
    then show False using flip by fastforce
  qed
  moreover have "x \<notin> set xs" "y \<notin> set ys'" using sorted_distinct [OF Cons.prems(1)] sorted_distinct [OF Cons.prems(2)] ys by simp_all
  moreover have "set xs = set ys'"
  proof -
    have "set (x # xs) - {x} = set xs" "set ys - {y} = set ys'" using calculation(2,3) ys by auto
    then show ?thesis using Cons.prems(3) calculation(1) by (metis)
  qed
  ultimately show ?case using Cons.IH [of ys'] Cons.prems(1,2) ys by simp
qed simp

lemma quiescent:
  assumes "shared_inv km s L" "\<And>t. threads s t = None"
  shows "sl_inv compare km (the_list s) (L 0)" "set (L 0) = nodes (the_list s)"
proof -
  let ?l = "the_list s"
  have lv: "levels_ok km ?l L" and nd: "nodes_ok km ?l"
    and up: "\<And>n. n \<in> nodes ?l \<Longrightarrow> linked_upto km L n (stashed_height ?l n)"
    using assms by (simp_all add: shared_inv_def owned_def)
  have km: "0 < km" using lv by (simp add: levels_ok_def)
  have mem: "n \<in> set (L i) \<longleftrightarrow> i < stashed_height ?l n" if "n \<in> nodes ?l" "i < km" for n i
    using up [OF that(1)] that(2) by (simp add: linked_upto_def)
  have h: "0 < stashed_height ?l n" "stashed_height ?l n \<le> km" if "n \<in> nodes ?l" for n using nd that by (auto simp: nodes_ok_def)
  show set0: "set (L 0) = nodes ?l"
    using mem [OF _ km] h(1) in_nodes [OF lv km] by blast
  have sorted: "sorted_wrt (\<lambda>a b. compare (node_key ?l a) (node_key ?l b) < 0) (L i)" "chain (\<lambda>n. nxt ?l n i) 0 (L i)" if "i < km" for i
    using lv that by (simp_all add: levels_ok_def level_ok_def)
  have onl: "on_level ?l i (L 0) = L i" if i: "i < km" for i
  proof (rule sorted_unique)
    show "sorted_wrt (\<lambda>a b. compare (node_key ?l a) (node_key ?l b) < 0) (on_level ?l i (L 0))"
      using sorted(1) [OF km] by (rule sorted_wrt_filter)
    show "set (on_level ?l i (L 0)) = set (L i)" unfolding set_filter set0 using mem [OF _ i] in_nodes [OF lv i] by blast
  qed (rule sorted(1) [OF i])
  have hm: "stashed_height ?l n \<le> max_height ?l" if n: "n \<in> nodes ?l" for n
  proof (rule ccontr)
    assume "\<not> ?thesis"
    then have b: "max_height ?l \<le> stashed_height ?l n - 1" "stashed_height ?l n - 1 < km" using h [OF n] by simp_all
    with lv have "L (stashed_height ?l n - 1) = []" by (simp add: levels_ok_def)
    with mem [OF n b(2)] h [OF n] show False by simp
  qed
  have "\<forall>i<km. chain (\<lambda>n. nxt ?l n i) 0 (on_level ?l i (L 0))" using sorted(2) onl by metis
  moreover have "\<forall>n\<in>set (L 0). 0 < n \<and> n < fresh ?l \<and> 0 < stashed_height ?l n \<and> stashed_height ?l n \<le> max_height ?l"
    using h(1) hm unfolding set0 by simp
  moreover have "0 < fresh ?l \<and> 0 < max_height ?l \<and> max_height ?l \<le> km \<and> km \<le> kMaxPossibleHeight"
    using lv by (simp add: levels_ok_def)
  ultimately show "sl_inv compare km ?l (L 0)" using sorted(1) [OF km] unfolding sl_inv_def by blast
qed

lemma lowest_level:
  assumes "shared_inv km s L"
  shows "chain (\<lambda>n. nxt (the_list s) n 0) 0 (L 0)"
    "sorted_wrt (\<lambda>a b. compare (node_key (the_list s) a) (node_key (the_list s) b) < 0) (L 0)"
    "set (L 0) \<subseteq> nodes (the_list s)" "nodes (the_list s) - own_node ` ran (threads s) \<subseteq> set (L 0)"
proof -
  have lv: "levels_ok km (the_list s) L" and nd: "nodes_ok km (the_list s)" using assms by (simp_all add: shared_inv_def)
  then have km: "0 < km" by (simp add: levels_ok_def)
  then have "level_ok (the_list s) 0 (L 0)" using lv by (simp add: levels_ok_def)
  then show "chain (\<lambda>n. nxt (the_list s) n 0) 0 (L 0)"
    "sorted_wrt (\<lambda>a b. compare (node_key (the_list s) a) (node_key (the_list s) b) < 0) (L 0)"
    by (simp_all add: level_ok_def)
  show "set (L 0) \<subseteq> nodes (the_list s)" using in_nodes [OF lv km] by blast
  show "nodes (the_list s) - own_node ` ran (threads s) \<subseteq> set (L 0)"
  proof
    fix n assume n: "n \<in> nodes (the_list s) - own_node ` ran (threads s)"
    then have "\<not> owned s n" by (auto simp: owned_def ran_def)
    moreover have "0 < stashed_height (the_list s) n" using nd n by (auto simp: nodes_ok_def)
    ultimately show "n \<in> set (L 0)" using assms n km by (auto simp: shared_inv_def linked_upto_def)
  qed
qed

lemma threads_never_fail:
  assumes "shared_inv km s L" "threads s t = Some th"
  shows "\<exists>th' l'. thread_step km compare lucky th (the_list s) = Inr (th', l')"
  using thread_step_ok [of km "the_list s" L th lucky] assms by (auto simp: shared_inv_def step_ok_def)

lemma readers_return:
  assumes "shared_inv km s L" "readers s t = Some r"
  shows "\<exists>res. read_step compare (the_list s) r = Inr res \<and>
    (\<forall>n. res = Inr n \<longrightarrow> n = find (\<lambda>n. 0 \<le> compare (node_key (the_list s) n) (rd_key r)) (L 0))"
  using read_step_ok [of km "the_list s" L r] assms by (auto simp: shared_inv_def)


subsection \<open>A thread that is alone returns\<close>

definition ahead :: "'a skiplist \<Rightarrow> 'a \<Rightarrow> nat \<Rightarrow> nat" where
  "ahead l k b = card {m \<in> nodes l. (b = 0 \<or> compare (node_key l b) (node_key l m) < 0) \<and> compare (node_key l m) k < 0}"

definition rank :: "insert_thread \<Rightarrow> 'a skiplist \<Rightarrow> nat \<times> nat \<times> nat" where
  "rank th l =
     (let x = own_node th; k = node_key l x; h = stashed_height l x; s = own_splice th
      in case pc th of
        Returned \<Rightarrow> (0, 0, 0)
      | Finish \<Rightarrow> (1, 0, 0)
      | Cas_Next i \<Rightarrow> (2, h - i, if nxt l (prevs s i) i = nexts s i then 0 else 3 + fresh l)
      | Set_Next i \<Rightarrow> (2, h - i, if nxt l (prevs s i) i = nexts s i then 1 else 4 + fresh l)
      | Search_Again i b \<Rightarrow> (2, h - i, 2 + ahead l k b)
      | Search i b a \<Rightarrow> (3, i, ahead l k b)
      | Cas_Max m \<Rightarrow> (4, if max_height l = m then 0 else 1, 0)
      | Load_Max \<Rightarrow> (5, 0, 0))"

definition lower :: "((nat \<times> nat \<times> nat) \<times> (nat \<times> nat \<times> nat)) set" where
  "lower = less_than <*lex*> less_than <*lex*> less_than"

lemma wf_lower: "wf lower"
  by (simp add: lower_def wf_lex_prod)

lemma ahead_bound: "0 < fresh l \<Longrightarrow> ahead l k b < fresh l"
proof -
  assume "0 < fresh l"
  have "ahead l k b \<le> card (nodes l)" unfolding ahead_def by (rule card_mono) auto
  with \<open>0 < fresh l\<close> show ?thesis by simp
qed

lemma ahead_less:
  assumes "n \<in> nodes l" "b = 0 \<or> compare (node_key l b) (node_key l n) < 0" "compare (node_key l n) k < 0"
  shows "ahead l k n < ahead l k b"
  unfolding ahead_def
proof (rule psubset_card_mono)
  have "n \<notin> {m \<in> nodes l. (n = 0 \<or> compare (node_key l n) (node_key l m) < 0) \<and> compare (node_key l m) k < 0}"
    using assms(1) same by simp
  moreover have "n \<in> {m \<in> nodes l. (b = 0 \<or> compare (node_key l b) (node_key l m) < 0) \<and> compare (node_key l m) k < 0}"
    using assms by simp
  moreover have "compare (node_key l b) (node_key l m) < 0" if "b \<noteq> 0" "compare (node_key l n) (node_key l m) < 0" for m
    using that assms(2) less_trans by blast
  moreover have "n \<noteq> 0" using assms(1) by simp
  ultimately show "{m \<in> nodes l. (n = 0 \<or> compare (node_key l n) (node_key l m) < 0) \<and> compare (node_key l m) k < 0} \<subset>
      {m \<in> nodes l. (b = 0 \<or> compare (node_key l b) (node_key l m) < 0) \<and> compare (node_key l m) k < 0}" by blast
qed simp

lemma find_step_ahead:
  assumes "levels_ok km l L" "i < km" "lies_before l (L i) k b" "find_step compare l k b a i = Inr (Go_On n)"
  shows "ahead l k n < ahead l k b"
proof -
  have lv: "level_ok l i (L i)" using assms(1,2) by (simp add: levels_ok_def)
  have b: "b = 0 \<or> b \<in> set (L i)" using assms(3) by (auto simp: lies_before_def)
  have n: "nxt l b i = Some n" "compare (node_key l n) k < 0"
    using assms(4) by (auto simp: find_step_def Let_def key_after_def split: if_splits option.splits)
  note na = next_after [OF lv b n(1)]
  show ?thesis by (rule ahead_less [OF _ na(3) n(2)]) (use in_nodes [OF assms(1,2) na(1)] in blast)
qed

lemma step_rank:
  assumes lv: "levels_ok km l L" and ti: "thread_inv km l L th" and nr: "pc th \<noteq> Returned"
    and st: "thread_step km compare True th l = Inr (th', l')"
  shows "(rank th' l', rank th l) \<in> lower"
proof -
  let ?x = "own_node th" and ?s = "own_splice th"
  let ?k = "node_key l ?x" and ?h = "stashed_height l ?x"
  have fr: "0 < fresh l" using lv by (simp add: levels_ok_def)
  note [simp] = rank_def lower_def Let_def thread_step_def
  have search: "pc th2 = Search (m - 1) 0 None" if "start_search m th = Inr th2" for m th2
    using that by (auto simp: start_search_def split: if_splits)
  have max: "pc th2 = Search (max_height l - 1) 0 None \<or> pc th2 = Cas_Max (max_height l)" if "loaded_max ?h (max_height l) th = Inr th2" for th2
    using that search by (auto simp: loaded_max_def split: if_splits)
  show ?thesis
  proof (cases "pc th")
    case Load_Max
    with st have "loaded_max ?h (max_height l) th = Inr th'" by (auto simp: bind_res_Inr split: if_splits)
    from max [OF this] Load_Max show ?thesis by auto
  next
    case (Cas_Max m)
    show ?thesis
    proof (cases "max_height l = m")
      case True
      with st Cas_Max have "start_search ?h th = Inr th'" by (auto simp: bind_res_Inr)
      from search [OF this] Cas_Max show ?thesis by simp
    next
      case False
      with st Cas_Max have "loaded_max ?h (max_height l) th = Inr th'" "l' = l" by (auto simp: bind_res_Inr)
      from max [OF this(1)] this(2) Cas_Max False show ?thesis by auto
    qed
  next
    case (Search i b a)
    then have b: "lies_before l (L i) ?k b" "i < km"
      using ti lv by (auto simp: thread_inv_def top_ok_def levels_ok_def)
    obtain r where r: "find_step compare l ?k b a i = Inr r" "l' = l" using st Search by (auto simp: bind_res_Inr)
    show ?thesis
    proof (cases r)
      case (Go_On n)
      with st Search r find_step_ahead [OF lv b(2,1)] show ?thesis by auto
    next
      case (Found p n)
      with st Search r show ?thesis by (cases i) auto
    qed
  next
    case (Set_Next i)
    then have t: "linked_upto km L ?x i" "splice_ready l L ?k ?h ?s (splice_is_valid th)" "i < ?h" "?x \<in> nodes l"
      using ti by (simp_all add: thread_inv_def)
    then have i: "i < km" "i < sp_height ?s" using lv by (auto simp: splice_ready_def top_ok_def levels_ok_def)
    have "around l L ?k ?s i" using t(2) i(2) by (simp add: splice_ready_def)
    then have "prevs ?s i = 0 \<or> prevs ?s i \<in> set (L i)" by (rule around_in(1))
    then have "prevs ?s i \<noteq> ?x" using t(1,4) i(1) by (auto simp: linked_upto_def)
    with st Set_Next show ?thesis by (auto split: if_splits)
  next
    case (Cas_Next i)
    then have "i < ?h" using ti by (simp add: thread_inv_def)
    with st Cas_Next ahead_bound [OF fr, of ?k "prevs ?s i"] show ?thesis by (auto split: if_splits)
  next
    case (Search_Again i b)
    then have t: "lies_before l (L i) ?k b" "i < ?h" "splice_ready l L ?k ?h ?s (splice_is_valid th)" using ti by (simp_all add: thread_inv_def)
    then have i: "i < km" using lv by (auto simp: splice_ready_def top_ok_def levels_ok_def)
    obtain r where r: "find_step compare l ?k b None i = Inr r" "l' = l" using st Search_Again by (auto simp: bind_res_Inr)
    show ?thesis
    proof (cases r)
      case (Go_On n)
      with st Search_Again r find_step_ahead [OF lv i t(1)] show ?thesis by auto
    next
      case (Found p n)
      then have "nxt l p i = n" using r(1) by (auto simp: find_step_def split: if_splits)
      with Found st Search_Again r show ?thesis by auto
    qed
  next
    case Finish
    with st show ?thesis by (auto split: if_splits)
  qed (use nr in simp)
qed

lemma returns_alone:
  assumes "nodes_ok km l" "levels_ok km l L" "thread_inv km l L th"
  shows "\<exists>n th' l'. run_alone km compare n th l = Inr (th', l') \<and> pc th' = Returned"
  using assms
proof (induction "rank th l" arbitrary: th l L rule: wf_induct_rule [OF wf_lower])
  case 1
  note prems = 1(2-4)
  show ?case
  proof (cases "pc th = Returned")
    case True
    then show ?thesis by (intro exI [of _ 0]) simp
  next
    case False
    obtain th1 l1 L1 where s: "thread_step km compare True th l = Inr (th1, l1)" "levels_ok km l1 L1" "thread_inv km l1 L1 th1"
      "node_key l1 = node_key l" "stashed_height l1 = stashed_height l" "fresh l1 = fresh l"
      using thread_step_ok [OF prems(2,1,3), of True] unfolding step_ok_def by auto
    have "nodes_ok km l1" using prems(1) by (simp add: nodes_ok_def s(4-6))
    from 1(1) [OF step_rank [OF prems(2,3) False s(1)] this s(2,3)]
    obtain n th' l' where "run_alone km compare n th1 l1 = Inr (th', l')" "pc th' = Returned" by blast
    with s(1) show ?thesis by (intro exI [of _ "Suc n"]) simp
  qed
qed

end

subsection \<open>What concurrent insertion promises\<close>

lemma user_reach_inv:
  assumes "user \<in> {BytewiseComparator, ReverseBytewiseComparator}" "0 < km" "km < kMaxPossibleHeight"
    "shared_reach km (tag_compare (cmp user)) s"
  obtains L where "key_order.shared_inv (tag_compare (cmp user)) km s L"
  using key_order.reach_inv [OF user_order(1) [OF assms(1)] assms(4,2,3)] by blast

text \<open>C28: concurrent insertion. However the steps of any number of threads that insert different internal keys are
  interleaved, and whatever compare-and-exchange operations fail, no thread fails an assertion or writes outside
  its arrays; the lowest level is at every moment in the order of the keys and holds every node whose insertion is
  over; and when no thread is inserting the list is well-formed, with all nodes on all their levels, so that
  searches and iterators do what they promise.\<close>

theorem concurrent_insertions:
  assumes "user \<in> {BytewiseComparator, ReverseBytewiseComparator}" "0 < km" "km < kMaxPossibleHeight"
    "shared_reach km (tag_compare (cmp user)) s"
  shows "(\<forall>t th lucky. threads s t = Some th \<longrightarrow>
      (\<exists>th' l'. thread_step km (tag_compare (cmp user)) lucky th (the_list s) = Inr (th', l'))) \<and>
    (\<exists>ns. chain (\<lambda>n. nxt (the_list s) n 0) 0 ns \<and>
      sorted_wrt (\<lambda>a b. tag_compare (cmp user) (node_key (the_list s) a) (node_key (the_list s) b) < 0) ns \<and>
      set ns \<subseteq> nodes (the_list s) \<and> nodes (the_list s) - own_node ` ran (threads s) \<subseteq> set ns) \<and>
    ((\<forall>t. threads s t = None) \<longrightarrow>
      (\<exists>ns. sl_inv (tag_compare (cmp user)) km (the_list s) ns \<and> set ns = nodes (the_list s)))"
proof -
  note ko = user_order(1) [OF assms(1)]
  obtain L where L: "key_order.shared_inv (tag_compare (cmp user)) km s L" using user_reach_inv [OF assms] .
  show ?thesis
    using key_order.threads_never_fail [OF ko L] key_order.lowest_level [OF ko L] key_order.quiescent [OF ko L] by blast
qed

lemma concurrent_insertions_witness:
  "\<exists>s. threads s 7 = Some (new_thread 1) \<and> shared_reach 12 (tag_compare (cmp BytewiseComparator)) s \<and>
    (\<exists>th' l'. thread_step 12 (tag_compare (cmp BytewiseComparator)) False (new_thread 1) (the_list s) = Inr (th', l'))"
proof -
  let ?c = "tag_compare (cmp BytewiseComparator)"
  let ?s = "\<lparr>the_list = new_skiplist ([], 0), threads = \<lambda>_. None, readers = \<lambda>_. None\<rparr> :: (slice \<times> u64) shared_list"
  obtain l where l: "AllocateKey 3 ([5], 9) (the_list ?s) = (1, l)" by (simp add: AllocateKey_def new_skiplist_def)
  let ?t = "?s\<lparr>the_list := l, threads := (threads ?s)(7 \<mapsto> new_thread 1)\<rparr>"
  have "shared_step 12 ?c ?s ?t" by (rule Begin [OF _ _ _ _ l]) (simp_all add: new_skiplist_def)
  with Start have r: "shared_reach 12 ?c ?t" by (rule More)
  have t: "threads ?t 7 = Some (new_thread 1)" by simp
  have "\<forall>t th lucky. threads ?t t = Some th \<longrightarrow> (\<exists>th' l'. thread_step 12 ?c lucky th (the_list ?t) = Inr (th', l'))"
    by (rule concurrent_insertions [OF _ _ _ r, THEN conjunct1]) (simp_all add: kMaxPossibleHeight_def)
  with r t show ?thesis by blast
qed

text \<open>C30: searching while others insert. A thread that searches with \<open>FindGreaterOrEqual\<close>, its steps interleaved with
  those of any others, never fails an assertion, and when it returns it returns the first node, of those that are then
  on the lowest level, whose key is not less than the one it looks for.\<close>

theorem concurrent_searches:
  assumes "user \<in> {BytewiseComparator, ReverseBytewiseComparator}" "0 < km" "km < kMaxPossibleHeight"
    "shared_reach km (tag_compare (cmp user)) s" "readers s t = Some r"
  shows "\<exists>ns res. chain (\<lambda>n. nxt (the_list s) n 0) 0 ns \<and> nodes (the_list s) - own_node ` ran (threads s) \<subseteq> set ns \<and>
    read_step (tag_compare (cmp user)) (the_list s) r = Inr res \<and>
    (\<forall>n. res = Inr n \<longrightarrow> n = find (\<lambda>n. 0 \<le> tag_compare (cmp user) (node_key (the_list s) n) (rd_key r)) ns)"
proof -
  note ko = user_order(1) [OF assms(1)]
  obtain L where L: "key_order.shared_inv (tag_compare (cmp user)) km s L" using user_reach_inv [OF assms(1-4)] .
  show ?thesis using key_order.lowest_level(1,4) [OF ko L] key_order.readers_return [OF ko L assms(5)] by blast
qed

lemma concurrent_searches_witness:
  "\<exists>s. shared_reach 12 (tag_compare (cmp ReverseBytewiseComparator)) s \<and> readers s 0 = Some (new_seeker ([1], 4) (the_list s)) \<and>
    (\<exists>res. read_step (tag_compare (cmp ReverseBytewiseComparator)) (the_list s) (new_seeker ([1], 4) (the_list s)) = Inr res)"
proof -
  let ?c = "tag_compare (cmp ReverseBytewiseComparator)"
  let ?s = "\<lparr>the_list = new_skiplist ([], 0), threads = \<lambda>_. None, readers = \<lambda>_. None\<rparr> :: (slice \<times> u64) shared_list"
  let ?t = "?s\<lparr>readers := (readers ?s)(0 \<mapsto> new_seeker ([1], 4) (the_list ?s))\<rparr>"
  have "shared_step 12 ?c ?s ?t" by (rule Read_Begin) simp
  with Start have r: "shared_reach 12 ?c ?t" by (rule More)
  have t: "readers ?t 0 = Some (new_seeker ([1], 4) (the_list ?t))" by simp
  have "\<exists>res. read_step ?c (the_list ?t) (new_seeker ([1], 4) (the_list ?t)) = Inr res"
    using concurrent_searches [OF _ _ _ r t] by (simp add: kMaxPossibleHeight_def) blast
  with r t show ?thesis by blast
qed

text \<open>C31: a thread that inserts does not depend on the others: in every reachable state, whatever the other threads
  have left half done, each thread that from then on runs alone and has no compare-and-exchange fail without a
  reason returns after some number of steps.\<close>

theorem insertion_alone_returns:
  assumes "user \<in> {BytewiseComparator, ReverseBytewiseComparator}" "0 < km" "km < kMaxPossibleHeight"
    "shared_reach km (tag_compare (cmp user)) s" "threads s t = Some th"
  shows "\<exists>n th' l'. run_alone km (tag_compare (cmp user)) n th (the_list s) = Inr (th', l') \<and> pc th' = Returned"
proof -
  note ko = user_order(1) [OF assms(1)]
  obtain L where "key_order.shared_inv (tag_compare (cmp user)) km s L" using user_reach_inv [OF assms(1-4)] .
  with assms(5) show ?thesis using key_order.returns_alone [OF ko] by (auto simp: key_order.shared_inv_def [OF ko])
qed

lemma insertion_alone_returns_witness:
  "\<exists>n th' l'. run_alone 12 (tag_compare (cmp BytewiseComparator)) n (new_thread 1)
      (snd (AllocateKey 3 ([5], 9) (new_skiplist ([], 0)))) = Inr (th', l') \<and> pc th' = Returned"
proof -
  let ?c = "tag_compare (cmp BytewiseComparator)"
  let ?s = "\<lparr>the_list = new_skiplist ([], 0), threads = \<lambda>_. None, readers = \<lambda>_. None\<rparr> :: (slice \<times> u64) shared_list"
  obtain l where l: "AllocateKey 3 ([5], 9) (the_list ?s) = (1, l)" by (simp add: AllocateKey_def new_skiplist_def)
  let ?t = "?s\<lparr>the_list := l, threads := (threads ?s)(7 \<mapsto> new_thread 1)\<rparr>"
  have "shared_step 12 ?c ?s ?t" by (rule Begin [OF _ _ _ _ l]) (simp_all add: new_skiplist_def)
  with Start have r: "shared_reach 12 ?c ?t" by (rule More)
  have t: "threads ?t 7 = Some (new_thread 1)" by simp
  from insertion_alone_returns [OF _ _ _ r t] l show ?thesis by (simp add: kMaxPossibleHeight_def)
qed

end
