(* ===== verification/Spec2Isabelle.thy ===== *)
theory Spec2Isabelle
  imports CounterService ShardSystem ReplSystem KvStoreTx Task1Server Sockets Task1Client TxnGraph CrashRecovery BatchSpec SkipListThreadsSpec
begin

section \<open>Cloud systems: a counter, a transactional, a sharded and a replicated key-value store\<close>

text \<open>
  \<^bold>\<open>The program.\<close> The repository holds four client-server programs in C++ and the RocksDB they store their data
  in. \<open>src/task0\<close> is a counter behind a socket. \<open>src/task1/source\<close> is a server with a thread pool and a
  transactional store, with a client that generates load from traces and compares the answers with a store of its
  own. \<open>src/task2/source\<close> is a store that is sharded over servers by a master which moves all data when a server
  joins. \<open>src/task3/source\<close> is a store replicated from a leader to followers. Their messages are generated classes,
  sent in frames of their length and their bytes over TCP. \<open>src/task3/rocksdb\<close> is RocksDB (tasks 1 and 2 hold copies
  of it): an update goes as a write batch through the write-ahead log into a memtable, which is a skip list ordered
  by internal keys.

  \<^bold>\<open>Conventions.\<close> A struct or class is a record, an enumeration a datatype, a function of the code a definition of
  its name. Integers have their width where it matters: \<open>i32\<close>, \<open>u32\<close>, \<open>u64\<close> are words, loop counters that cannot
  leave their range are \<open>nat\<close>. A byte is a \<open>char\<close> in the theories of the servers and an \<open>8 word\<close> in those of RocksDB.
  A failing assertion, an index out of range, an uncaught exception or undefined behaviour is a left value of \<open>'a res\<close>
  (theory \<open>Prelude\<close>). Loops that may run for ever are \<open>partial_function (option)\<close>, where \<open>None\<close> is the run without
  an end; such a loop is proved to end where it does. The environment is a list of results of its calls: when the
  results of \<open>recv\<close> are used up the call blocks for ever, when those of \<open>write\<close> and \<open>fsync\<close> are used up all further
  calls succeed. Parsers, serialisers, random numbers, the byte order and the instructions of the processor are
  parameters. There is no fuel: other loops are structural or have a measure.

  \<^bold>\<open>Task 0.\<close> \<open>CounterService\<close>: \<open>utils.cpp\<close>, \<open>server.cpp\<close>, \<open>client.cpp\<close>. What clients print is the counter
  (\<open>client_server_agree\<close>, \<open>sequential_clients\<close>).

  \<^bold>\<open>Framing.\<close> \<open>Framing\<close>: \<open>shared.h\<close> and \<open>shared.cpp\<close> of tasks 1 and 2, with the locale \<open>framed_transport\<close>, which task 0
  and TCP are instances of; messages arrive whatever the segments are (\<open>framing_end_to_end\<close>). \<open>ReplFraming\<close>: the
  copies in \<open>server.cpp\<close> and \<open>client.cpp\<close> of task 3, which work on buffers, refine it. \<open>Sockets\<close>: the functions that
  set up sockets, in a state monad over the system calls, whose contract is the locale \<open>socket_api\<close>.

  \<^bold>\<open>Task 1.\<close> \<open>ConnQueue\<close>: the linked list of connections between \<open>main\<close> and the threads, on an explicit heap
  (\<open>thread_pool_fifo\<close>). \<open>KvStoreTx\<close>: \<open>kv_store.h\<close>, refined to an abstract transactional store, and as a transition
  system on its three mutexes the order in which they are taken (\<open>deadlock_freedom\<close>, \<open>commit_deadlocks\<close>).
  \<open>Task1Server\<close>: \<open>server.cpp\<close>. \<open>TraceWorkload\<close> and \<open>Task1Client\<close>: \<open>workload_traces/generate_traces\<close>, \<open>client.cpp\<close>,
  \<open>client_thread.h\<close>, and what the verification of the client can and cannot detect. \<open>TxnOps\<close> and \<open>TxnGraph\<close>:
  \<open>workload_traces/load_txn\<close>, which computes all final states that orders of the transactions can have
  (\<open>worker_complete\<close>, \<open>possible_results_exact\<close>).

  \<^bold>\<open>Task 2.\<close> \<open>ShardMaster\<close>: the messages and \<open>master_server.cpp\<close>; \<open>ShardServer\<close>: \<open>server.cpp\<close>; \<open>ShardClient\<close>:
  \<open>client.cpp\<close>; \<open>ShardSystem\<close> runs them together through their serialised messages. After a join every server
  holds its shard of the first value ever stored under each key (\<open>redistribution_first_values\<close>).

  \<^bold>\<open>Task 3.\<close> \<open>ReplServer\<close>: \<open>server.cpp\<close>, the joining of the servers (\<open>join_complete\<close>) and the handlers; \<open>ReplSystem\<close>:
  \<open>client.cpp\<close>, and leader, followers and clients together (\<open>replication\<close>).

  \<^bold>\<open>RocksDB.\<close> \<open>MemTable\<close> has the contract that all servers rely on as the locale \<open>rocksdb\<close>, interpreted on
  \<open>Put\<close>, \<open>Get\<close> and \<open>Delete\<close> of the memtable path with decoded entries (\<open>memtable_is_map\<close>). Below it, with bytes:
  \<open>Coding\<close> (\<open>util/coding\<close>), \<open>CrcTables\<close> and \<open>Crc32c\<close> (\<open>util/crc32c\<close>, equal to the bitwise checksum; locale
  \<open>crc_block\<close>), \<open>WriteBatch\<close> and \<open>BatchSpec\<close> (\<open>db/write_batch.cc\<close>, a batch as the list of its updates), \<open>LogFile\<close>
  (\<open>db/log_writer.cc\<close>, \<open>db/log_reader.cc\<close>), \<open>FileWriter\<close> (\<open>util/file_reader_writer.cc\<close> on \<open>env/io_posix.cc\<close>; the
  locale \<open>file_laws\<close> gives the locale \<open>log_dest\<close> of the log). \<open>LogLayout\<close> says what is written, \<open>LogRecovery\<close> that it
  is read back from any prefix of the file, \<open>CrashRecovery\<close> joins writer, file and reader (\<open>log_survives_crash\<close>).
  \<open>InternalKey\<close> (\<open>util/comparator.cc\<close>, \<open>db/dbformat\<close>) has the locales \<open>key_order\<close> and \<open>key_shortening\<close> of comparators,
  interpreted on both comparators of the library and lifted to internal keys by a sublocale. \<open>SkipList\<close> is
  \<open>memtable/inlineskiplist.h\<close>; \<open>SkipListSearch\<close>, \<open>SkipListInsert\<close> and \<open>SkipListSpec\<close> prove, for any \<open>key_order\<close>, that
  searches find what they are documented to find and that insertion, which starts from a cached and possibly
  stale place, keeps the list in order and never fails an assertion. \<open>SkipListThreads\<close> has \<open>InsertConcurrently\<close> and
  the search as threads whose accesses to the shared list interleave in any order; \<open>SkipListThreadsInv\<close> and
  \<open>SkipListThreadsSpec\<close> prove that no assertion fails, that the lowest level is sorted and complete at every moment,
  that a search returns what is there when it returns, and that a thread which runs alone ends its insertion
  (\<open>concurrent_insertions\<close>, \<open>concurrent_searches\<close>, \<open>insertion_alone_returns\<close>).

  \<^bold>\<open>What the lemmas show.\<close> Every component has its invariant and its preservation, the behaviour of its operations
  on each branch, and where it has a contract a refinement of an abstract state: the transactional store, the
  shards and the replicas as maps, a batch as a list of updates, a log as a list of records, the skip list as a
  sorted list of nodes. Several theorems state defects of the code as it is: the first value of a key wins in a
  redistribution, requests of task 1 are never read, a commit can deadlock with a read, recovery that skips
  corrupted records does not end on a recycled log.

  \<^bold>\<open>Not modelled.\<close> Of RocksDB the table files, compaction, versions, caches, column families, options, the write
  group and its threads, direct I/O, the insertion of a recovered batch into the memtable (\<open>MemTableInserter\<close>) and the
  tools: no server reaches most of them with default options and little data, and the servers depend on the
  contract of the locale \<open>rocksdb\<close> alone. The memory order of the atomic operations is taken as sequentially
  consistent. The classes that \<open>protoc\<close> generates are not in the repository and are parameters. The Java
  bindings, the benchmarks, the tests, the build files and the copies of files that are identical are left out, as
  are printing and the parsing of options, except where the text of a component says otherwise.
\<close>

end
